(* ===== verification/Pool_Prelude.thy ===== *)
theory Pool_Prelude
  imports Main "HOL-Library.Word" "HOL-Library.Monad_Syntax" "HOL-Library.Signed_Division"
begin

text \<open>
  The prelude of the development: names for the machine types of the C++ code, access to
  \<open>std::vector\<close> elements with the out-of-range case as a value, the run of a component
  over a sequence of events, and the lemma collections shared by the components.

  Throughout the development an operation that may fail to return normally has an
  \<^typ>\<open>'a option\<close> result: \<^term>\<open>None\<close> stands for undefined behaviour, a failed
  \<open>assert\<close>, \<open>LOG(FATAL)\<close> or a loop that never ends. A property that an operation
  returns is always stated as \<open>\<exists>y. f x = Some y\<close>.
\<close>

unbundle bit_operations_syntax

section \<open>Machine types\<close>

type_synonym u8 = "8 word"
type_synonym u16 = "16 word"
type_synonym u32 = "32 word"
type_synonym u64 = "64 word"
type_synonym bytes = "8 word list"

section \<open>Lemma collections\<close>

named_theorems pool_defs \<open>definitions of the components, to be unfolded on demand\<close>
named_theorems inv_intros \<open>preservation of the components' invariants\<close>

section \<open>Elements of a vector\<close>

text \<open>
  \<open>v[i]\<close> of a \<open>std::vector\<close>: in range it is the element, elsewhere the behaviour is
  undefined.
\<close>

definition vec_get :: "'a list \<Rightarrow> int \<Rightarrow> 'a option" where
  "vec_get xs i = (if 0 \<le> i \<and> i < int (length xs) then Some (xs ! nat i) else None)"

definition vec_set :: "'a list \<Rightarrow> int \<Rightarrow> 'a \<Rightarrow> 'a list option" where
  "vec_set xs i x = (if 0 \<le> i \<and> i < int (length xs) then Some (xs[nat i := x]) else None)"

lemma vec_get_in_range [simp]: "0 \<le> i \<Longrightarrow> i < int (length xs) \<Longrightarrow> vec_get xs i = Some (xs ! nat i)"
  by (simp add: vec_get_def)

lemma vec_set_in_range [simp]: "0 \<le> i \<Longrightarrow> i < int (length xs) \<Longrightarrow> vec_set xs i x = Some (xs[nat i := x])"
  by (simp add: vec_set_def)

lemma vec_set_length: "vec_set xs i x = Some ys \<Longrightarrow> length ys = length xs"
  by (auto simp: vec_set_def split: if_splits)

section \<open>C++ remainder\<close>

text \<open>The \<open>%\<close> of C++ truncates; on a non-negative dividend it is \<open>mod\<close>.\<close>

lemma smod_nonneg [simp]: "0 \<le> (i::int) \<Longrightarrow> 0 < w \<Longrightarrow> i smod w = i mod w"
  by (simp add: modulo_int_def signed_modulo_int_def signed_divide_int_def algebra_simps minus_div_mult_eq_mod [symmetric])

lemma sdiv_nonneg [simp]: "0 \<le> (i::int) \<Longrightarrow> 0 \<le> w \<Longrightarrow> i sdiv w = i div w"
  by (cases "i = 0"; cases "w = 0") (simp_all add: signed_divide_int_def)

lemma nat_mod_less [simp]: "0 < (w::int) \<Longrightarrow> nat (i mod w) < nat w"
  by simp

text \<open>
  Two indices of one window of \<open>w\<close> consecutive integers share a slot only if they are equal.
\<close>

lemma mod_window_inj:
  fixes i j w :: int
  assumes "m - w < i" "i \<le> m" "m - w < j" "j \<le> m" "i mod w = j mod w"
  shows "i = j"
proof -
  from assms(5) have "w dvd i - j" by (simp add: mod_eq_dvd_iff)
  moreover have "\<bar>i - j\<bar> < w" using assms(1-4) by linarith
  ultimately have "i - j = 0" using dvd_imp_le_int [of "i - j" w] by fastforce
  then show ?thesis by simp
qed

section \<open>Runs of a component\<close>

text \<open>
  A component that handles one event after another. The run stops as soon as a handler does
  not return.
\<close>

fun run :: "('s \<Rightarrow> 'e \<Rightarrow> 's option) \<Rightarrow> 's \<Rightarrow> 'e list \<Rightarrow> 's option" where
  "run step s [] = Some s"
| "run step s (e # es) = (case step s e of None \<Rightarrow> None | Some s' \<Rightarrow> run step s' es)"

lemma run_append: "run step s (es @ es') = Option.bind (run step s es) (\<lambda>s'. run step s' es')"
  by (induction es arbitrary: s) (auto split: option.splits)

text \<open>
  The contract of an event handler: from a state that satisfies the invariant, every event
  the environment may send is handled, and the invariant holds afterwards. Whole runs then
  return and keep the invariant.
\<close>

locale event_handler =
  fixes step :: "'s \<Rightarrow> 'e \<Rightarrow> 's option"
    and inv :: "'s \<Rightarrow> bool"
    and ok :: "'e \<Rightarrow> bool"
  assumes step_ok: "inv s \<Longrightarrow> ok e \<Longrightarrow> \<exists>s'. step s e = Some s' \<and> inv s'"
begin

lemma run_ok: "inv s \<Longrightarrow> list_all ok es \<Longrightarrow> \<exists>s'. run step s es = Some s' \<and> inv s'"
proof (induction es arbitrary: s)
  case Nil
  then show ?case by simp
next
  case (Cons e es)
  then obtain s' where "step s e = Some s'" "inv s'"
    using step_ok [of s e] by auto
  then show ?case using Cons by simp
qed

lemma run_inv: "inv s \<Longrightarrow> list_all ok es \<Longrightarrow> run step s es = Some s' \<Longrightarrow> inv s'"
  using run_ok by fastforce

end

text \<open>
  A handler that fails on some events: from a state that satisfies the invariant it does not return
  exactly for the bad ones. A run fails exactly when it reaches such an event. A handler that
  always returns is one without bad events.
\<close>

locale guarded_handler =
  fixes step :: "'s \<Rightarrow> 'e \<Rightarrow> 's option"
    and inv :: "'s \<Rightarrow> bool"
    and ok :: "'e \<Rightarrow> bool"
    and bad :: "'s \<Rightarrow> 'e \<Rightarrow> bool"
  assumes step_guarded: "inv s \<Longrightarrow> ok e \<Longrightarrow> if bad s e then step s e = None else \<exists>s'. step s e = Some s' \<and> inv s'"
begin

lemma step_fails: "inv s \<Longrightarrow> ok e \<Longrightarrow> step s e = None \<longleftrightarrow> bad s e"
  using step_guarded [of s e] by (auto split: if_splits)

lemma step_keeps: "inv s \<Longrightarrow> ok e \<Longrightarrow> step s e = Some s' \<Longrightarrow> inv s'"
  using step_guarded [of s e] by (auto split: if_splits)

lemma run_keeps: "inv s \<Longrightarrow> list_all ok es \<Longrightarrow> run step s es = Some s' \<Longrightarrow> inv s'"
  by (induction es arbitrary: s) (auto split: option.splits dest: step_keeps)

lemma run_fails:
  "inv s \<Longrightarrow> list_all ok es \<Longrightarrow>
   run step s es = None \<longleftrightarrow> (\<exists>xs e ys s'. es = xs @ e # ys \<and> run step s xs = Some s' \<and> bad s' e)"
proof (induction es arbitrary: s)
  case (Cons e es)
  show ?case
  proof (cases "step s e")
    case None
    then have "bad s e" using Cons.prems step_fails by simp
    then have "e # es = [] @ e # es \<and> run step s [] = Some s \<and> bad s e" by simp
    then show ?thesis using None by (metis option.simps(4) run.simps(2))
  next
    case (Some s1)
    then have i: "inv s1" "\<not> bad s e" using Cons.prems step_keeps step_fails [of s e] by auto
    have "(\<exists>xs f ys s'. e # es = xs @ f # ys \<and> run step s xs = Some s' \<and> bad s' f) \<longleftrightarrow>
        (\<exists>xs f ys s'. es = xs @ f # ys \<and> run step s1 xs = Some s' \<and> bad s' f)" (is "?l \<longleftrightarrow> ?r")
    proof
      assume ?l
      then obtain xs f ys s' where x: "e # es = xs @ f # ys" "run step s xs = Some s'" "bad s' f" by blast
      then obtain zs where "xs = e # zs" using i(2) by (cases xs) auto
      then show ?r using x Some by auto
    next
      assume ?r
      then obtain xs f ys s' where "es = xs @ f # ys" "run step s1 xs = Some s'" "bad s' f" by blast
      then have "e # es = (e # xs) @ f # ys \<and> run step s (e # xs) = Some s' \<and> bad s' f" using Some by simp
      then show ?l by blast
    qed
    then show ?thesis using Cons Some i(1) by simp
  qed
qed simp

end

sublocale event_handler \<subseteq> guarded_handler step inv ok "\<lambda>_ _. False"
  by unfold_locales (simp add: step_ok)

text \<open>
  A handler that accounts for every event: a quantity of the state grows by the weight of
  each event it handles.
\<close>

locale counting_handler = event_handler step inv ok
  for step :: "'s \<Rightarrow> 'e \<Rightarrow> 's option" and inv ok +
  fixes amount :: "'s \<Rightarrow> 'a::comm_monoid_add"
    and weight :: "'e \<Rightarrow> 'a"
  assumes step_amount: "inv s \<Longrightarrow> ok e \<Longrightarrow> step s e = Some s' \<Longrightarrow> amount s' = amount s + weight e"
begin

lemma run_amount:
  "inv s \<Longrightarrow> list_all ok es \<Longrightarrow> run step s es = Some s' \<Longrightarrow> amount s' = amount s + sum_list (map weight es)"
proof (induction es arbitrary: s)
  case (Cons e es)
  then obtain s1 where "step s e = Some s1" "inv s1" using step_ok [of s e] by auto
  then show ?case using Cons step_amount [of s e s1] by (simp add: ac_simps)
qed simp

end

text \<open>Adding to one element of a list adds to its sum.\<close>

definition add_at :: "'a::plus list \<Rightarrow> nat \<Rightarrow> 'a \<Rightarrow> 'a list" where
  "add_at xs i v = xs[i := xs ! i + v]"

lemma length_add_at [simp]: "length (add_at xs i v) = length xs"
  by (simp add: add_at_def)

lemma sum_list_update_add:
  fixes f :: "'b \<Rightarrow> 'a::comm_monoid_add"
  shows "i < length xs \<Longrightarrow> f y = f (xs ! i) + v \<Longrightarrow> sum_list (map f (xs[i := y])) = sum_list (map f xs) + v"
proof (induction xs arbitrary: i)
  case (Cons x xs)
  then show ?case by (cases i) (simp_all add: ac_simps)
qed simp

lemma sum_list_add_at:
  fixes xs :: "'a::comm_monoid_add list"
  shows "i < length xs \<Longrightarrow> sum_list (add_at xs i v) = sum_list xs + v"
  using sum_list_update_add [of i xs id "xs ! i + v" v] by (simp add: add_at_def)

end
