(* ===== verification/Stats_Window.thy ===== *)
theory Stats_Window
  imports Pool_Prelude
begin

text \<open>
  The sliding window \<open>StatsWindow<T>\<close> of \<open>src/Statistics.h\<close> and
  \<open>src/Statistics.inl\<close>: a ring of buckets indexed by time. The operations are the
  template's, generic in the element type as the template is. The refinement target is the
  function from ring indices to what was inserted at them, cut to the last \<open>windowSize\<close>
  indices.
\<close>

section \<open>The ring buffer\<close>

record 'a stats_window =
  maxRingIdx :: int
  windowSize :: int
  elements :: "'a list"

text \<open>
  The constructor. \<open>std::vector\<close> throws on a negative size; the elements are
  value-initialised.
\<close>

definition sw_new :: "int \<Rightarrow> 'a::zero stats_window option" where
  "sw_new n = (if n < 0 then None
     else Some \<lparr>maxRingIdx = -1, windowSize = n, elements = replicate (nat n) 0\<rparr>)"

definition sw_mapMultiply :: "'a::times stats_window \<Rightarrow> 'a \<Rightarrow> 'a stats_window" where
  "sw_mapMultiply w v = w\<lparr>elements := map (\<lambda>x. x * v) (elements w)\<rparr>"

definition sw_mapDivide :: "'a::divide stats_window \<Rightarrow> 'a \<Rightarrow> 'a stats_window" where
  "sw_mapDivide w v = w\<lparr>elements := map (\<lambda>x. x div v) (elements w)\<rparr>"

definition sw_clear :: "'a::zero stats_window \<Rightarrow> 'a stats_window" where
  "sw_clear w = w\<lparr>maxRingIdx := -1, elements := replicate (nat (windowSize w)) 0\<rparr>"

text \<open>The loop of \<open>insert\<close> that moves the newest index up, resetting each bucket it reaches.\<close>

function sw_advance :: "'a::zero stats_window \<Rightarrow> int \<Rightarrow> 'a stats_window option" where
  "sw_advance w cur =
     (if maxRingIdx w < cur
      then case vec_set (elements w) ((maxRingIdx w + 1) smod windowSize w) 0 of
             None \<Rightarrow> None
           | Some es \<Rightarrow> sw_advance (w\<lparr>maxRingIdx := maxRingIdx w + 1, elements := es\<rparr>) cur
      else Some w)"
  by pat_completeness auto
termination
  by (relation "measure (\<lambda>(w, cur). nat (cur - maxRingIdx w))") auto

definition sw_insert :: "'a::{zero,plus} stats_window \<Rightarrow> int \<Rightarrow> 'a \<Rightarrow> (bool \<times> 'a stats_window) option" where
  "sw_insert w cur val =
     (if maxRingIdx w > cur + windowSize w then Some (False, w)
      else
        let w1 = (if maxRingIdx w = -1 \<or> cur - maxRingIdx w > windowSize w
                  then (sw_clear w)\<lparr>maxRingIdx := cur\<rparr> else w)
        in do {
          w2 \<leftarrow> sw_advance w1 cur;
          old \<leftarrow> vec_get (elements w2) (cur smod windowSize w2);
          es \<leftarrow> vec_set (elements w2) (cur smod windowSize w2) (old + val);
          Some (True, w2\<lparr>elements := es\<rparr>)
        })"

function sw_sum_loop :: "'a::plus stats_window \<Rightarrow> int \<Rightarrow> int \<Rightarrow> 'a \<Rightarrow> 'a option" where
  "sw_sum_loop w b e acc =
     (if b > e
      then case vec_get (elements w) (b smod windowSize w) of
             None \<Rightarrow> None
           | Some x \<Rightarrow> sw_sum_loop w (b - 1) e (acc + x)
      else Some acc)"
  by pat_completeness auto
termination
  by (relation "measure (\<lambda>(w, b, e, acc). nat (b - e))") auto

definition sw_sum :: "'a::{zero,plus} stats_window \<Rightarrow> int \<Rightarrow> int \<Rightarrow> 'a option" where
  "sw_sum w b len0 =
     (let len = min len0 (windowSize w)
      in if len \<le> 0 \<or> b - len \<ge> maxRingIdx w then Some 0
         else sw_sum_loop w (if b > maxRingIdx w then maxRingIdx w else b) (b - len) 0)"

text \<open>The one-argument overload of \<open>sum\<close>.\<close>

definition sw_sum1 :: "'a::{zero,plus} stats_window \<Rightarrow> int \<Rightarrow> 'a option" where
  "sw_sum1 w b = sw_sum w b (windowSize w)"

declare sw_advance.simps [simp del] sw_sum_loop.simps [simp del]

lemmas sw_defs [pool_defs] = sw_new_def sw_mapMultiply_def sw_mapDivide_def sw_clear_def
  sw_insert_def sw_sum_def sw_sum1_def

section \<open>The content of a window\<close>

text \<open>
  \<open>sw_wf\<close> is the shape every window has, \<open>sw_repr w h\<close> says that \<open>w\<close> holds \<open>h i\<close> for
  each index \<open>i\<close> of its last \<open>windowSize w\<close> indices and that \<open>h\<close> is zero elsewhere.
\<close>

definition sw_wf :: "'a stats_window \<Rightarrow> bool" where
  "sw_wf w \<longleftrightarrow> 0 < windowSize w \<and> length (elements w) = nat (windowSize w) \<and> -1 \<le> maxRingIdx w"

definition in_window :: "int \<Rightarrow> int \<Rightarrow> int \<Rightarrow> bool" where
  "in_window m n i \<longleftrightarrow> m - n < i \<and> i \<le> m"

definition sw_repr :: "'a::zero stats_window \<Rightarrow> (int \<Rightarrow> 'a) \<Rightarrow> bool" where
  "sw_repr w h \<longleftrightarrow> sw_wf w \<and>
     (\<forall>i. in_window (maxRingIdx w) (windowSize w) i \<longrightarrow> elements w ! nat (i mod windowSize w) = h i) \<and>
     (\<forall>i. \<not> in_window (maxRingIdx w) (windowSize w) i \<longrightarrow> h i = 0) \<and>
     (\<forall>i<0. h i = 0)"

text \<open>The specification of an insertion: the window moves up to the index, if that is newer.\<close>

definition spec_insert :: "int \<Rightarrow> int \<Rightarrow> (int \<Rightarrow> 'a::{zero,plus}) \<Rightarrow> int \<Rightarrow> 'a \<Rightarrow> (int \<Rightarrow> 'a)" where
  "spec_insert n m h cur v =
     (\<lambda>i. if i \<le> max m cur - n then 0 else if i = cur then h i + v else h i)"

lemma slot_in_range [simp]: "sw_wf w \<Longrightarrow> nat (i mod windowSize w) < length (elements w)"
  by (simp add: sw_wf_def)

lemma slot_inj:
  assumes "in_window m n i" "in_window m n j"
  shows "nat (i mod n) = nat (j mod n) \<longleftrightarrow> i = j"
proof -
  have "0 < n" using assms by (auto simp: in_window_def)
  then have "nat (i mod n) = nat (j mod n) \<longleftrightarrow> i mod n = j mod n"
    by (metis nat_eq_iff pos_mod_sign)
  then show ?thesis using assms mod_window_inj [of m n i j] by (auto simp: in_window_def)
qed

lemma sw_new_repr: "0 < n \<Longrightarrow> \<exists>w. sw_new n = Some w \<and> sw_repr w (\<lambda>_. 0) \<and> maxRingIdx w = -1 \<and> windowSize w = n"
  by (simp add: sw_new_def sw_repr_def sw_wf_def)

lemma sw_clear_repr: "sw_wf w \<Longrightarrow> 0 \<le> cur \<Longrightarrow> sw_repr ((sw_clear w)\<lparr>maxRingIdx := cur\<rparr>) (\<lambda>_. 0)"
  by (simp add: sw_clear_def sw_repr_def sw_wf_def)

lemma sw_wf_clear [simp]: "sw_wf w \<Longrightarrow> sw_wf (sw_clear w)"
  by (simp add: sw_clear_def sw_wf_def)

lemma sw_wf_mapMultiply [simp]: "sw_wf w \<Longrightarrow> sw_wf (sw_mapMultiply w v)"
  by (simp add: sw_mapMultiply_def sw_wf_def)

lemma sw_wf_mapDivide [simp]: "sw_wf w \<Longrightarrow> sw_wf (sw_mapDivide w v)"
  by (simp add: sw_mapDivide_def sw_wf_def)

section \<open>Insertion\<close>

lemma sw_advance_step_repr:
  assumes r: "sw_repr w h" and m: "m = maxRingIdx w" "0 \<le> m + 1" and n: "n = windowSize w"
  shows "sw_repr (w\<lparr>maxRingIdx := m + 1, elements := (elements w)[nat ((m + 1) mod n) := 0]\<rparr>)
           (\<lambda>i. if i \<le> m + 1 - n then 0 else h i)" (is "sw_repr ?w ?h")
proof -
  have wf: "sw_wf w" and n0: "0 < n" using r n by (auto simp: sw_repr_def sw_wf_def)
  have out: "h (m + 1) = 0" using r m n by (simp add: sw_repr_def in_window_def)
  have slots: "elements ?w ! nat (i mod n) = ?h i" if i: "in_window (m + 1) n i" for i
  proof (cases "i = m + 1")
    case True
    then show ?thesis using out wf n n0 by simp
  next
    case False
    then have "in_window m n i" using i by (auto simp: in_window_def)
    moreover have "nat (i mod n) \<noteq> nat ((m + 1) mod n)"
      using slot_inj [of "m + 1" n i "m + 1"] i False n0 by (simp add: in_window_def)
    ultimately show ?thesis using r m n i by (auto simp: sw_repr_def in_window_def)
  qed
  show ?thesis using r m n wf slots by (auto simp: sw_repr_def sw_wf_def in_window_def)
qed

lemma sw_advance_repr:
  assumes "sw_repr w h" "-1 \<le> maxRingIdx w" "maxRingIdx w \<le> cur"
  shows "\<exists>w'. sw_advance w cur = Some w' \<and> maxRingIdx w' = cur \<and> windowSize w' = windowSize w \<and>
           sw_repr w' (\<lambda>i. if i \<le> cur - windowSize w then 0 else h i)"
  using assms
proof (induction w cur arbitrary: h rule: sw_advance.induct)
  case (1 w cur)
  show ?case
  proof (cases "maxRingIdx w < cur")
    case False
    then have "maxRingIdx w = cur" using 1 by simp
    moreover have "(\<lambda>i. if i \<le> cur - windowSize w then 0 else h i) = h"
      using 1(2) \<open>maxRingIdx w = cur\<close> by (auto simp: sw_repr_def in_window_def)
    ultimately show ?thesis using 1(2) by (simp add: sw_advance.simps)
  next
    case True
    let ?m = "maxRingIdx w" and ?n = "windowSize w"
    let ?es = "(elements w)[nat ((?m + 1) mod ?n) := 0]"
    let ?w = "w\<lparr>maxRingIdx := ?m + 1, elements := ?es\<rparr>"
    let ?h = "\<lambda>i. if i \<le> ?m + 1 - ?n then 0 else h i"
    have wf: "sw_wf w" using 1(2) by (simp add: sw_repr_def)
    then have s: "vec_set (elements w) ((?m + 1) smod ?n) 0 = Some ?es"
      using 1(3) by (simp add: sw_wf_def)
    have r: "sw_repr ?w ?h" using sw_advance_step_repr [OF 1(2) refl _ refl] 1(3) by simp
    have "(\<lambda>i. if i \<le> cur - ?n then 0 else ?h i) = (\<lambda>i. if i \<le> cur - ?n then 0 else h i)"
      using True by auto
    then show ?thesis using 1(1) [OF True s r] True 1(3) s
      by (simp add: sw_advance.simps [of w cur])
  qed
qed

lemma sw_add_repr:
  assumes r: "sw_repr w h" and m: "0 \<le> cur" "in_window (maxRingIdx w) (windowSize w) cur"
  defines "k \<equiv> nat (cur mod windowSize w)"
  shows "sw_repr (w\<lparr>elements := (elements w)[k := elements w ! k + v]\<rparr>) (h(cur := h cur + v))"
proof -
  have wf: "sw_wf w" using r by (simp add: sw_repr_def)
  have "(elements w)[k := elements w ! k + v] ! nat (i mod windowSize w) = (h(cur := h cur + v)) i"
    if "in_window (maxRingIdx w) (windowSize w) i" for i
    using that slot_inj [OF that m(2)] r m wf by (auto simp: sw_repr_def k_def nth_list_update)
  then show ?thesis using r m wf by (auto simp: sw_repr_def sw_wf_def in_window_def)
qed

text \<open>
  What the last two statements of \<open>insert\<close> do, once the window reaches \<open>cur\<close>.
\<close>

lemma sw_insert_tail:
  assumes "sw_repr w h" "0 \<le> cur" "in_window (maxRingIdx w) (windowSize w) cur"
  shows "\<exists>w'. (do { old \<leftarrow> vec_get (elements w) (cur smod windowSize w);
                   es \<leftarrow> vec_set (elements w) (cur smod windowSize w) (old + v);
                   Some (True, w\<lparr>elements := es\<rparr>) }) = Some (True, w') \<and>
          maxRingIdx w' = maxRingIdx w \<and> windowSize w' = windowSize w \<and>
          sw_repr w' (h(cur := h cur + v))"
proof -
  have "sw_wf w" using assms by (simp add: sw_repr_def)
  then show ?thesis using sw_add_repr [OF assms] assms(2) by (simp add: sw_wf_def)
qed

lemma sw_repr_mono_cut:
  "sw_repr w h \<Longrightarrow> (\<lambda>i. if i \<le> maxRingIdx w - windowSize w then 0 else h i) = h"
  by (auto simp: sw_repr_def in_window_def)

text \<open>The three cases of \<open>insert\<close>: an expired index, a fresh window, a window that moves.\<close>

lemma sw_insert_old:
  assumes "sw_repr w h" "maxRingIdx w > cur + windowSize w"
  shows "sw_insert w cur v = Some (False, w) \<and> spec_insert (windowSize w) (maxRingIdx w) h cur v = h"
proof -
  have "h i = 0" if "i \<le> maxRingIdx w - windowSize w" for i
    using assms(1) that by (auto simp: sw_repr_def in_window_def)
  moreover have "0 < windowSize w" using assms(1) by (simp add: sw_repr_def sw_wf_def)
  ultimately show ?thesis using assms(2) by (auto simp: sw_insert_def spec_insert_def max_def)
qed

lemma sw_insert_fresh:
  assumes r: "sw_repr w h" and cur: "0 \<le> cur"
    and f: "maxRingIdx w = -1 \<or> cur - maxRingIdx w > windowSize w"
  shows "\<exists>w'. sw_insert w cur v = Some (True, w') \<and> maxRingIdx w' = cur \<and> windowSize w' = windowSize w \<and>
           sw_repr w' (spec_insert (windowSize w) (maxRingIdx w) h cur v)"
proof -
  let ?m = "maxRingIdx w" and ?n = "windowSize w" and ?w = "(sw_clear w)\<lparr>maxRingIdx := cur\<rparr>"
  have wf: "sw_wf w" and n0: "0 < ?n" and m1: "-1 \<le> ?m" using r by (auto simp: sw_repr_def sw_wf_def)
  have rc: "sw_repr ?w (\<lambda>_. 0)" using sw_clear_repr wf cur by blast
  have ws: "maxRingIdx ?w = cur" "windowSize ?w = ?n" by (simp_all add: sw_clear_def)
  have adv: "sw_advance ?w cur = Some ?w" by (simp add: sw_advance.simps)
  have mx: "max ?m cur = cur" using f cur n0 by auto
  have "(\<lambda>_. 0)(cur := 0 + v) = spec_insert ?n ?m h cur v"
  proof
    fix i
    have "h i = 0" if "cur - ?n < i"
    proof (cases "i < 0")
      case True then show ?thesis using r by (simp add: sw_repr_def)
    next
      case False then have "?m < i" using f that by auto
      then show ?thesis using r by (simp add: sw_repr_def in_window_def)
    qed
    then show "((\<lambda>_. 0)(cur := 0 + v)) i = spec_insert ?n ?m h cur v i"
      using mx n0 by (auto simp: spec_insert_def)
  qed
  then show ?thesis using sw_insert_tail [OF rc cur, of v] f adv ws n0 cur m1
    by (auto simp: sw_insert_def Let_def in_window_def)
qed

lemma sw_insert_move:
  assumes r: "sw_repr w h" and cur: "0 \<le> cur" "maxRingIdx w - windowSize w < cur"
    and f: "maxRingIdx w \<noteq> -1" "cur - maxRingIdx w \<le> windowSize w"
  shows "\<exists>w'. sw_insert w cur v = Some (True, w') \<and> maxRingIdx w' = max (maxRingIdx w) cur \<and>
           windowSize w' = windowSize w \<and> sw_repr w' (spec_insert (windowSize w) (maxRingIdx w) h cur v)"
proof -
  let ?m = "maxRingIdx w" and ?n = "windowSize w"
  let ?h = "\<lambda>i. if i \<le> max ?m cur - ?n then 0 else h i"
  have n0: "0 < ?n" and m1: "-1 \<le> ?m" using r by (auto simp: sw_repr_def sw_wf_def)
  have "\<exists>w1. sw_advance w cur = Some w1 \<and> maxRingIdx w1 = max ?m cur \<and> windowSize w1 = ?n \<and> sw_repr w1 ?h"
  proof (cases "?m \<le> cur")
    case True
    then show ?thesis using sw_advance_repr [OF r m1 True] by (auto simp: max_def)
  next
    case False
    then have "sw_advance w cur = Some w" by (simp add: sw_advance.simps)
    moreover have "?h = h" using sw_repr_mono_cut [OF r] False by (auto simp: max_def fun_eq_iff)
    ultimately show ?thesis using False r by (auto simp: max_def)
  qed
  then obtain w1 where w1: "sw_advance w cur = Some w1" "maxRingIdx w1 = max ?m cur" "windowSize w1 = ?n"
    "sw_repr w1 ?h" by blast
  have win: "in_window (maxRingIdx w1) (windowSize w1) cur" using w1 cur n0 by (auto simp: in_window_def)
  have "?h(cur := ?h cur + v) = spec_insert ?n ?m h cur v"
    using cur n0 by (auto simp: spec_insert_def fun_eq_iff)
  then show ?thesis using sw_insert_tail [OF w1(4) cur(1) win, of v] w1 f cur n0
    by (auto simp: sw_insert_def Let_def)
qed

lemma sw_insert_repr:
  assumes r: "sw_repr w h" and cur: "0 \<le> cur" "cur \<noteq> maxRingIdx w - windowSize w"
  shows "\<exists>w'. sw_insert w cur v = Some (maxRingIdx w - windowSize w < cur, w') \<and>
           maxRingIdx w' = max (maxRingIdx w) cur \<and> windowSize w' = windowSize w \<and>
           sw_repr w' (spec_insert (windowSize w) (maxRingIdx w) h cur v)"
proof -
  let ?m = "maxRingIdx w" and ?n = "windowSize w"
  have n0: "0 < ?n" and m1: "-1 \<le> ?m" using r by (auto simp: sw_repr_def sw_wf_def)
  consider (old) "?m > cur + ?n" | (fresh) "?m < cur + ?n" "?m = -1 \<or> cur - ?m > ?n"
    | (move) "?m < cur + ?n" "?m \<noteq> -1" "cur - ?m \<le> ?n" using cur by linarith
  then show ?thesis
  proof cases
    case old
    then show ?thesis using sw_insert_old [OF r old, of v] r n0 by (auto simp: max_def)
  next
    case fresh
    then have "max ?m cur = cur" "?m - ?n < cur" using cur n0 by auto
    then show ?thesis using sw_insert_fresh [OF r cur(1) fresh(2), of v] by auto
  next
    case move
    then have "?m - ?n < cur" by simp
    then show ?thesis using sw_insert_move [OF r cur(1) _ move(2,3), of v] by auto
  qed
qed

section \<open>No operation leaves the vector\<close>

text \<open>
  For clients that only rely on the operations returning: on a well-formed window no index
  is out of range, whatever the elements are.
\<close>

lemma sw_advance_total:
  "sw_wf w \<Longrightarrow> \<exists>w'. sw_advance w cur = Some w' \<and> sw_wf w' \<and> windowSize w' = windowSize w"
proof (induction w cur rule: sw_advance.induct)
  case (1 w cur)
  show ?case
  proof (cases "maxRingIdx w < cur")
    case True
    let ?es = "(elements w)[nat ((maxRingIdx w + 1) mod windowSize w) := 0]"
    have s: "vec_set (elements w) ((maxRingIdx w + 1) smod windowSize w) 0 = Some ?es"
      using 1(2) by (simp add: sw_wf_def)
    have "sw_wf (w\<lparr>maxRingIdx := maxRingIdx w + 1, elements := ?es\<rparr>)" using 1(2) by (simp add: sw_wf_def)
    then show ?thesis using 1(1) [OF True s] True s by (simp add: sw_advance.simps [of w cur])
  qed (use 1(2) in \<open>simp add: sw_advance.simps\<close>)
qed

lemma sw_insert_total:
  assumes "sw_wf w" "0 \<le> cur"
  shows "\<exists>r. sw_insert w cur v = Some r \<and> sw_wf (snd r) \<and> windowSize (snd r) = windowSize w"
proof (cases "maxRingIdx w > cur + windowSize w")
  case True
  then show ?thesis using assms by (simp add: sw_insert_def)
next
  case False
  let ?w = "if maxRingIdx w = -1 \<or> cur - maxRingIdx w > windowSize w
              then (sw_clear w)\<lparr>maxRingIdx := cur\<rparr> else w"
  have "sw_wf ?w" using assms by (simp add: sw_wf_def sw_clear_def)
  moreover have "windowSize ?w = windowSize w" by (simp add: sw_clear_def)
  ultimately obtain w' where w': "sw_advance ?w cur = Some w'" "sw_wf w'" "windowSize w' = windowSize w"
    using sw_advance_total [of ?w cur] by auto
  then have "0 < windowSize w'" "length (elements w') = nat (windowSize w')" by (simp_all add: sw_wf_def)
  then show ?thesis using False w' assms by (simp add: sw_insert_def Let_def sw_wf_def)
qed

text \<open>Only zero and sums with the inserted value enter the vector.\<close>

lemma vec_set_elems: "vec_set xs i v = Some ys \<Longrightarrow> set ys \<subseteq> insert v (set xs)"
  by (auto simp: vec_set_def set_update_subset_insert split: if_splits dest!: subsetD [OF set_update_subset_insert])

lemma sw_advance_elems: "sw_advance w cur = Some w' \<Longrightarrow> set (elements w') \<subseteq> insert 0 (set (elements w))"
proof (induction w cur rule: sw_advance.induct)
  case (1 w cur)
  show ?case
  proof (cases "maxRingIdx w < cur")
    case True
    then obtain es where es: "vec_set (elements w) ((maxRingIdx w + 1) smod windowSize w) 0 = Some es"
      using 1(2) by (auto simp: sw_advance.simps [of w cur] split: option.splits)
    then have "sw_advance (w\<lparr>maxRingIdx := maxRingIdx w + 1, elements := es\<rparr>) cur = Some w'"
      using 1(2) True by (simp add: sw_advance.simps [of w cur])
    then show ?thesis using 1(1) [OF True es] vec_set_elems [OF es] by auto
  qed (use 1(2) in \<open>auto simp: sw_advance.simps [of w cur]\<close>)
qed

lemma sw_insert_elems:
  assumes "sw_insert w cur v = Some (b, w')"
  shows "set (elements w') \<subseteq> insert 0 (set (elements w)) \<union> range (\<lambda>x. x + v)"
proof (cases "maxRingIdx w > cur + windowSize w")
  case True
  then show ?thesis using assms by (auto simp: sw_insert_def)
next
  case False
  let ?w = "if maxRingIdx w = -1 \<or> cur - maxRingIdx w > windowSize w
              then (sw_clear w)\<lparr>maxRingIdx := cur\<rparr> else w"
  obtain w2 old es where w2: "sw_advance ?w cur = Some w2"
    "vec_set (elements w2) (cur smod windowSize w2) (old + v) = Some es" "elements w' = es"
    using assms False by (auto simp: sw_insert_def Let_def bind_eq_Some_conv)
  have "set (elements ?w) \<subseteq> insert 0 (set (elements w))" by (auto simp: sw_clear_def)
  then show ?thesis using sw_advance_elems [OF w2(1)] vec_set_elems [OF w2(2)] unfolding w2(3) by blast
qed

lemma sw_sum_loop_total: "sw_wf w \<Longrightarrow> -1 \<le> e \<Longrightarrow> \<exists>s. sw_sum_loop w b e acc = Some s"
proof (induction w b e acc rule: sw_sum_loop.induct)
  case (1 w b e acc)
  then show ?case by (subst sw_sum_loop.simps) (auto simp: sw_wf_def)
qed

lemma sw_sum_total: "sw_wf w \<Longrightarrow> -1 \<le> b - len \<Longrightarrow> \<exists>s. sw_sum w b len = Some s"
  unfolding sw_sum_def Let_def by (auto simp: min_def intro!: sw_sum_loop_total)

lemma sw_sum1_total: "sw_wf w \<Longrightarrow> windowSize w \<le> b + 1 \<Longrightarrow> \<exists>s. sw_sum1 w b = Some s"
  unfolding sw_sum1_def by (intro sw_sum_total) auto

lemma sw_new_wf: "0 < n \<Longrightarrow> \<exists>w. sw_new n = Some w \<and> sw_wf w \<and> windowSize w = n"
  by (simp add: sw_new_def sw_wf_def)

lemma sw_map_windowSize [simp]:
  "windowSize (sw_mapMultiply w v) = windowSize w" "windowSize (sw_mapDivide w' v') = windowSize w'"
  by (simp_all add: sw_mapMultiply_def sw_mapDivide_def)

section \<open>Sums\<close>

lemma sw_sum_loop_repr:
  fixes h :: "int \<Rightarrow> 'a::comm_monoid_add"
  assumes "sw_repr w h" "-1 \<le> e" "maxRingIdx w - windowSize w \<le> e" "b \<le> maxRingIdx w"
  shows "sw_sum_loop w b e acc = Some (acc + (\<Sum>i\<in>{e<..b}. h i))"
  using assms
proof (induction w b e acc rule: sw_sum_loop.induct)
  case (1 w b e acc)
  show ?case
  proof (cases "b > e")
    case False
    then show ?thesis by (simp add: sw_sum_loop.simps)
  next
    case True
    have wf: "sw_wf w" using 1(2) by (simp add: sw_repr_def)
    have "in_window (maxRingIdx w) (windowSize w) b" using True 1 by (simp add: in_window_def)
    then have get: "vec_get (elements w) (b smod windowSize w) = Some (h b)"
      using wf True 1(2,3) by (simp add: sw_repr_def sw_wf_def)
    have "{e<..b} = insert b {e<..b - 1}" using True by auto
    then have "(\<Sum>i\<in>{e<..b}. h i) = h b + (\<Sum>i\<in>{e<..b - 1}. h i)" by simp
    then show ?thesis using 1 True get
      by (simp add: sw_sum_loop.simps [of w b e acc] add.assoc)
  qed
qed

text \<open>
  The sum over the last \<open>len\<close> indices up to \<open>b\<close>, as long as the range asked for does not
  reach below the window.
\<close>

lemma sw_sum_repr:
  fixes h :: "int \<Rightarrow> 'a::comm_monoid_add"
  assumes r: "sw_repr w h" and len: "0 < len" "-1 \<le> b - min len (windowSize w)"
    and low: "maxRingIdx w - windowSize w \<le> b - min len (windowSize w)"
  shows "sw_sum w b len = Some (\<Sum>i\<in>{b - min len (windowSize w)<..b}. h i)"
proof -
  let ?m = "maxRingIdx w" and ?e = "b - min len (windowSize w)"
  have n0: "0 < windowSize w" using r by (simp add: sw_repr_def sw_wf_def)
  have zero: "h i = 0" if "?m < i" for i using r that by (simp add: sw_repr_def in_window_def)
  show ?thesis
  proof (cases "?e \<ge> ?m")
    case True
    then have "(\<Sum>i\<in>{?e<..b}. h i) = 0" by (intro sum.neutral) (auto intro: zero)
    then show ?thesis using True by (simp add: sw_sum_def Let_def)
  next
    case False
    have "(\<Sum>i\<in>{?e<..b}. h i) = (\<Sum>i\<in>{?e<..min ?m b}. h i)"
      by (rule sum.mono_neutral_right) (auto intro: zero)
    moreover have "(if b > ?m then ?m else b) = min ?m b" by simp
    moreover have "sw_sum_loop w (min ?m b) ?e 0 = Some (0 + (\<Sum>i\<in>{?e<..min ?m b}. h i))"
      by (rule sw_sum_loop_repr [OF r len(2) low]) simp
    ultimately show ?thesis using False len n0 by (simp add: sw_sum_def Let_def)
  qed
qed

section \<open>A window fed by a clock\<close>

text \<open>
  The events a window sees: insertions \<open>(index, value)\<close>. \<open>sw_handle\<close> is the handler and
  \<open>hist m n evs\<close> the specification of the content after \<open>evs\<close>.
\<close>

definition sw_handle :: "'a::{zero,plus} stats_window \<Rightarrow> int \<times> 'a \<Rightarrow> 'a stats_window option" where
  "sw_handle w e = map_option snd (sw_insert w (fst e) (snd e))"

definition hist :: "int \<Rightarrow> int \<Rightarrow> (int \<times> 'a::comm_monoid_add) list \<Rightarrow> int \<Rightarrow> 'a" where
  "hist m n evs i = (if i \<le> m - n then 0 else (\<Sum>e\<leftarrow>evs. if fst e = i then snd e else 0))"

lemma hist_Nil [simp]: "hist m n [] = (\<lambda>_. 0)"
  by (simp add: hist_def fun_eq_iff)

lemma hist_snoc:
  assumes "m \<le> i" "0 < n"
  shows "spec_insert n m (hist m n evs) i v = hist i n (evs @ [(i, v)])"
  using assms by (auto simp: spec_insert_def hist_def fun_eq_iff max_def)

definition last_idx :: "(int \<times> 'a) list \<Rightarrow> int" where
  "last_idx evs = (if evs = [] then -1 else fst (last evs))"

lemma last_idx_snoc [simp]: "last_idx (evs @ [e]) = fst e"
  by (simp add: last_idx_def)

lemma last_idx_le: "sorted (map fst evs @ [i]) \<Longrightarrow> 0 \<le> i \<Longrightarrow> last_idx evs \<le> i"
  by (auto simp: last_idx_def sorted_append)

lemma sw_run_hist:
  fixes evs :: "(int \<times> 'a::comm_monoid_add) list"
  assumes w0: "sw_new n = Some w0" and n: "0 < n"
    and s: "sorted (map fst evs)" and p: "list_all (\<lambda>e. 0 \<le> fst e) evs"
  shows "\<exists>w. run sw_handle w0 evs = Some w \<and> maxRingIdx w = last_idx evs \<and> windowSize w = n \<and>
           sw_repr w (hist (last_idx evs) n evs)"
  using s p
proof (induction evs rule: rev_induct)
  case Nil
  obtain w :: "'a stats_window" where "sw_new n = Some w" "sw_repr w (\<lambda>_. 0)" "maxRingIdx w = -1" "windowSize w = n"
    using sw_new_repr [OF n] by blast
  then show ?case using w0 by (simp add: last_idx_def)
next
  case (snoc e evs)
  then obtain w where w: "run sw_handle w0 evs = Some w" "maxRingIdx w = last_idx evs" "windowSize w = n"
    "sw_repr w (hist (last_idx evs) n evs)" by (auto simp: sorted_append)
  have le: "last_idx evs \<le> fst e" and e0: "0 \<le> fst e" using snoc.prems by (auto intro: last_idx_le)
  then have ne: "fst e \<noteq> maxRingIdx w - windowSize w" using w n by simp
  obtain w' where "sw_handle w e = Some w'" "maxRingIdx w' = fst e" "windowSize w' = n"
    "sw_repr w' (hist (fst e) n (evs @ [e]))"
    using sw_insert_repr [OF w(4) e0 ne, of "snd e"] w le n hist_snoc [OF le n, of evs "snd e"]
    by (auto simp: sw_handle_def max_def)
  then show ?case using w by (simp add: run_append)
qed

lemma sum_hist:
  fixes evs :: "(int \<times> 'a::comm_monoid_add) list"
  assumes "list_all (\<lambda>e. fst e \<le> b) evs" "m \<le> b"
  shows "(\<Sum>i\<in>{b - n<..b}. hist m n evs i) = (\<Sum>e\<leftarrow>evs. if b - n < fst e then snd e else 0)"
proof -
  have "(\<Sum>i\<in>{b - n<..b}. hist m n evs i) = (\<Sum>i\<in>{b - n<..b}. \<Sum>e\<leftarrow>evs. if fst e = i then snd e else 0)"
    using assms(2) by (intro sum.cong) (auto simp: hist_def)
  also have "\<dots> = (\<Sum>e\<leftarrow>evs. if b - n < fst e then snd e else 0)"
    using assms(1) by (induction evs) (auto simp: sum.distrib)
  finally show ?thesis .
qed



section \<open>The edge of the window\<close>

text \<open>
  An insertion exactly \<open>windowSize\<close> indices behind the newest one is not refused: it is
  added to the newest bucket, whose slot it shares. The guard of \<open>insert\<close> drops an index only
  when it is more than \<open>windowSize\<close> behind.
\<close>

theorem sw_insert_expired_counted_as_newest:
  assumes r: "sw_repr w h" and m: "maxRingIdx w = cur + windowSize w" and cur: "0 \<le> cur"
  shows "\<exists>w'. sw_insert w cur v = Some (True, w') \<and>
           sw_repr w' (h(maxRingIdx w := h (maxRingIdx w) + v))"
proof -
  let ?m = "maxRingIdx w" and ?n = "windowSize w"
  have wf: "sw_wf w" and n0: "0 < ?n" using r by (auto simp: sw_repr_def sw_wf_def)
  have slot: "cur mod ?n = ?m mod ?n" using m by simp
  have "sw_advance w cur = Some w" using m n0 by (simp add: sw_advance.simps)
  then have "sw_insert w cur v = Some (True, w\<lparr>elements := (elements w)
      [nat (?m mod ?n) := elements w ! nat (?m mod ?n) + v]\<rparr>)"
    using m cur n0 wf slot by (simp add: sw_insert_def sw_wf_def)
  then show ?thesis using sw_add_repr [OF r, of ?m v] m cur n0 by (auto simp: in_window_def)
qed

lemma sw_insert_expired_counted_as_newest_witness:
  "\<exists>w w'. sw_new 3 = Some w \<and>
     sw_insert (w\<lparr>maxRingIdx := 5, elements := [0, 0, 1 :: int]\<rparr>) 2 10 = Some (True, w') \<and>
     sw_repr w' ((\<lambda>i. if i = 5 then 1 else 0)(5 := 11))"
proof -
  obtain w :: "int stats_window" where w: "sw_new 3 = Some w" by (simp add: sw_new_def)
  let ?w = "w\<lparr>maxRingIdx := 5, elements := [0, 0, 1 :: int]\<rparr>"
  have idx: "in_window 5 3 i \<longleftrightarrow> i = 3 \<or> i = 4 \<or> i = 5" for i by (auto simp: in_window_def)
  have r: "sw_repr ?w (\<lambda>i. if i = 5 then 1 else 0)"
    using w by (auto simp: sw_new_def sw_repr_def sw_wf_def idx)
  show ?thesis
    using w sw_insert_expired_counted_as_newest [OF r, of 2 10] by (auto simp: sw_new_def)
qed

end
