(* ===== verification/Float64.thy ===== *)
theory Float64
  imports Pool_Prelude Complex_Main "HOL-Library.Log_Nat"
begin

text \<open>
  The \<open>double\<close> of the C++ code: rationals rounded to 53 significant bits, to the nearest
  and to even on a tie, after every operation. The exponent is unbounded: the pool's rates
  and counters stay far from the overflow and underflow thresholds of the format, and no
  NaN or infinity is modelled (no operation modelled here divides by zero).
\<close>

section \<open>Rounding\<close>

definition pow2 :: "int \<Rightarrow> rat" where
  "pow2 e = (if 0 \<le> e then 2 ^ nat e else 1 / 2 ^ nat (- e))"

text \<open>The exponent of a positive rational: the greatest \<open>e\<close> with \<open>pow2 e \<le> q\<close>.\<close>

definition ilog2 :: "rat \<Rightarrow> int" where
  "ilog2 q = (let (a, b) = quotient_of q; d = bitlen a - bitlen b in if pow2 d \<le> q then d else d - 1)"

definition round_even :: "rat \<Rightarrow> int" where
  "round_even x = (let f = \<lfloor>x\<rfloor>; r = x - of_int f in
     if r < 1/2 then f else if r > 1/2 then f + 1 else if even f then f else f + 1)"

definition rnd53 :: "rat \<Rightarrow> rat" where
  "rnd53 q = (if q = 0 then 0
     else let e = ilog2 \<bar>q\<bar> - 52 in of_int (round_even (q / pow2 e)) * pow2 e)"

lemma pow2_pos [simp]: "0 < pow2 e"
  by (simp add: pow2_def)

lemma pow2_Suc: "pow2 (e + 1) = 2 * pow2 e"
proof (cases "0 \<le> e")
  case True
  then show ?thesis by (simp add: pow2_def nat_add_distrib)
next
  case False
  then have "nat (- e) = Suc (nat (- e - 1))" by simp
  then show ?thesis using False by (cases "e = -1") (auto simp: pow2_def)
qed

lemma pow2_add_nat: "pow2 (e + int n) = 2 ^ n * pow2 e"
proof (induction n)
  case (Suc n)
  have "pow2 (e + int (Suc n)) = pow2 ((e + int n) + 1)" by (simp add: ac_simps)
  then show ?case using Suc by (simp add: pow2_Suc)
qed simp

lemma pow2_mono: "e \<le> e' \<Longrightarrow> pow2 e \<le> pow2 e'"
  using pow2_add_nat [of e "nat (e' - e)"] by simp

lemma pow2_less: "e < e' \<Longrightarrow> pow2 e < pow2 e'"
proof -
  assume "e < e'"
  then have "2 * pow2 e \<le> pow2 e'" using pow2_mono [of "e + 1" e'] by (simp add: pow2_Suc)
  moreover have "pow2 e < 2 * pow2 e" by simp
  ultimately show ?thesis by (rule less_le_trans [rotated])
qed

lemma ilog2_unique:
  assumes "pow2 e \<le> q" "q < pow2 (e + 1)" "pow2 e' \<le> q" "q < pow2 (e' + 1)"
  shows "e = e'"
proof (rule ccontr)
  assume "e \<noteq> e'"
  then have "e + 1 \<le> e' \<or> e' + 1 \<le> e" by linarith
  then show False using assms pow2_mono by (meson leD order.trans)
qed

lemma bitlen_bounds_rat:
  assumes "0 < (a::int)"
  shows "pow2 (bitlen a - 1) \<le> of_int a" "of_int a < pow2 (bitlen a)"
proof -
  have b: "2 ^ nat (bitlen a - 1) \<le> a" "a < 2 ^ nat (bitlen a)"
    using bitlen_bounds [OF assms] by auto
  have p: "0 < bitlen a" using assms by (metis bitlen_eq_zero_iff bitlen_nonneg less_le not_le order_less_imp_le)
  have "pow2 (bitlen a - 1) = of_int (2 ^ nat (bitlen a - 1))" "pow2 (bitlen a) = of_int (2 ^ nat (bitlen a))"
    using p by (simp_all add: pow2_def)
  then show "pow2 (bitlen a - 1) \<le> of_int a" "of_int a < pow2 (bitlen a)"
    using b by (simp_all only: of_int_le_iff of_int_less_iff)
qed

lemma pow2_diff: "pow2 (i - j) = pow2 i / pow2 j"
proof (cases "j \<le> i")
  case True
  then show ?thesis using pow2_add_nat [of j "nat (i - j)"] by (simp add: pow2_def)
next
  case False
  then show ?thesis using pow2_add_nat [of i "nat (j - i)"] by (simp add: pow2_def)
qed

lemma ilog2_bounds:
  assumes "0 < q"
  shows "pow2 (ilog2 q) \<le> q" "q < pow2 (ilog2 q + 1)"
proof -
  obtain a b where ab: "quotient_of q = (a, b)" by fastforce
  then have q: "q = of_int a / of_int b" and b0: "0 < b" by (auto dest: quotient_of_div quotient_of_denom_pos)
  then have a0: "0 < a" using assms by (simp add: zero_less_divide_iff)
  let ?d = "bitlen a - bitlen b"
  note A = bitlen_bounds_rat [OF a0] and B = bitlen_bounds_rat [OF b0]
  have "q < pow2 (bitlen a) / pow2 (bitlen b - 1)"
    unfolding q using A(2) B(1) by (intro frac_less) (use a0 in auto)
  then have up: "q < pow2 (?d + 1)" by (simp add: pow2_diff [symmetric] algebra_simps)
  have "pow2 (bitlen a - 1) / pow2 (bitlen b) \<le> q"
    unfolding q using A(1) B b0 a0 by (intro frac_le) auto
  then have low: "pow2 (?d - 1) \<le> q" by (simp add: pow2_diff [symmetric] algebra_simps)
  show "pow2 (ilog2 q) \<le> q" "q < pow2 (ilog2 q + 1)"
    using up low by (auto simp: ilog2_def ab Let_def)
qed

lemma ilog2_eqI: "0 < q \<Longrightarrow> pow2 e \<le> q \<Longrightarrow> q < pow2 (e + 1) \<Longrightarrow> ilog2 q = e"
  using ilog2_unique ilog2_bounds by blast

lemma ilog2_double: "0 < q \<Longrightarrow> ilog2 (2 * q) = ilog2 q + 1"
  using ilog2_bounds [of q] pow2_Suc [of "ilog2 q"] pow2_Suc [of "ilog2 q + 1"]
  by (intro ilog2_eqI) simp_all

lemma round_even_of_int [simp]: "round_even (of_int n) = n"
  by (simp add: round_even_def)

text \<open>Scaling by two commutes with rounding: halving and doubling are exact.\<close>

lemma rnd53_double: "rnd53 (2 * q) = 2 * rnd53 q"
proof (cases "q = 0")
  case False
  then have "ilog2 \<bar>2 * q\<bar> = ilog2 \<bar>q\<bar> + 1" by (simp add: abs_mult ilog2_double)
  then show ?thesis using False pow2_Suc [of "ilog2 \<bar>q\<bar> - 52"]
    by (simp add: rnd53_def Let_def algebra_simps)
qed (simp add: rnd53_def)

lemma rnd53_half: "rnd53 (q / 2) = rnd53 q / 2"
  using rnd53_double [of "q / 2"] by simp

text \<open>Integers of at most 53 bits are represented exactly.\<close>

lemma rnd53_of_int:
  assumes "\<bar>n\<bar> < 2 ^ 53"
  shows "rnd53 (of_int n) = of_int n"
proof (cases "n = 0")
  case False
  let ?q = "\<bar>of_int n :: rat\<bar>"
  have "?q < pow2 53" using assms by (simp add: pow2_def flip: of_int_abs)
  then have "ilog2 ?q < 53" using ilog2_bounds(1) [of ?q] False pow2_mono [of 53 "ilog2 ?q"]
    by (cases "ilog2 ?q < 53") (auto simp: not_less)
  then have "pow2 (ilog2 ?q - 52) = 1 / 2 ^ nat (52 - ilog2 ?q)"
    by (auto simp: pow2_def)
  then have p: "pow2 (ilog2 ?q - 52) * 2 ^ nat (52 - ilog2 ?q) = 1"
    and "of_int n / pow2 (ilog2 ?q - 52) = of_int (n * 2 ^ nat (52 - ilog2 ?q))" by simp_all
  then have "rnd53 (of_int n) = of_int (n * 2 ^ nat (52 - ilog2 ?q)) * pow2 (ilog2 ?q - 52)"
    using False by (simp only: rnd53_def Let_def round_even_of_int of_int_eq_0_iff if_False)
  then show ?thesis using p by (simp add: mult.assoc mult.commute [of "2 ^ _"])
qed (simp add: rnd53_def)

section \<open>The type of doubles\<close>

datatype f64 = F64 (f64_val: rat)

instantiation f64 :: "{zero, one, plus, times, divide, linorder}"
begin

definition zero_f64 :: f64 where "0 = F64 0"
definition one_f64 :: f64 where "1 = F64 1"
definition plus_f64 :: "f64 \<Rightarrow> f64 \<Rightarrow> f64" where "x + y = F64 (rnd53 (f64_val x + f64_val y))"
definition times_f64 :: "f64 \<Rightarrow> f64 \<Rightarrow> f64" where "x * y = F64 (rnd53 (f64_val x * f64_val y))"
definition divide_f64 :: "f64 \<Rightarrow> f64 \<Rightarrow> f64" where "x div y = F64 (rnd53 (f64_val x / f64_val y))"
definition less_eq_f64 :: "f64 \<Rightarrow> f64 \<Rightarrow> bool" where "x \<le> y \<longleftrightarrow> f64_val x \<le> f64_val y"
definition less_f64 :: "f64 \<Rightarrow> f64 \<Rightarrow> bool" where "x < y \<longleftrightarrow> f64_val x < f64_val y"

instance
  by standard (auto simp: less_eq_f64_def less_f64_def f64.expand)

end

text \<open>A literal or an integer converted to \<open>double\<close>; conversion back truncates; \<open>round\<close>.\<close>

definition f64_of :: "rat \<Rightarrow> f64" where
  "f64_of q = F64 (rnd53 q)"

definition f64_of_int :: "int \<Rightarrow> f64" where
  "f64_of_int n = f64_of (of_int n)"

definition f64_trunc :: "f64 \<Rightarrow> int" where
  "f64_trunc x = (if 0 \<le> f64_val x then \<lfloor>f64_val x\<rfloor> else \<lceil>f64_val x\<rceil>)"

definition f64_round :: "f64 \<Rightarrow> f64" where
  "f64_round x = f64_of_int (if 0 \<le> f64_val x then \<lfloor>f64_val x + 1/2\<rfloor> else \<lceil>f64_val x - 1/2\<rceil>)"

lemmas f64_defs = zero_f64_def one_f64_def plus_f64_def times_f64_def divide_f64_def
  less_eq_f64_def less_f64_def f64_of_def f64_of_int_def f64_trunc_def f64_round_def

text \<open>The values a computation can produce: those that rounding leaves alone.\<close>

definition is_f64 :: "f64 \<Rightarrow> bool" where
  "is_f64 x \<longleftrightarrow> rnd53 (f64_val x) = f64_val x"

lemma rnd53_scale: "rnd53 (q * pow2 k) = rnd53 q * pow2 k"
proof (induction k rule: int_induct [of _ 0])
  case base
  then show ?case by (simp add: pow2_def)
next
  case (step1 i)
  then show ?case using rnd53_double [of "q * pow2 i"] by (simp add: pow2_Suc mult.left_commute)
next
  case (step2 i)
  have "pow2 i = 2 * pow2 (i - 1)" using pow2_Suc [of "i - 1"] by simp
  then show ?case using step2 rnd53_double [of "q * pow2 (i - 1)"] by (simp add: mult.left_commute)
qed

lemma round_even_abs_le:
  assumes "\<bar>x\<bar> < of_int n"
  shows "\<bar>round_even x\<bar> \<le> n"
proof -
  have "x < of_int n" "- of_int n < x" using assms by auto
  then have "\<lfloor>x\<rfloor> < n" "- n \<le> \<lfloor>x\<rfloor>" by (simp_all add: floor_less_iff le_floor_iff)
  then show ?thesis by (auto simp: round_even_def Let_def)
qed

lemma rnd53_of_int_le:
  assumes "\<bar>m\<bar> \<le> 2 ^ 53"
  shows "rnd53 (of_int m) = of_int m"
proof (cases "\<bar>m\<bar> < 2 ^ 53")
  case False
  then have "m = 2 ^ 53 \<or> m = - (2 ^ 53)" using assms by linarith
  then have "m = 2 * (m div 2)" "\<bar>m div 2\<bar> < 2 ^ 53" by auto
  then show ?thesis using rnd53_double [of "of_int (m div 2)"] rnd53_of_int [of "m div 2"]
    by (metis of_int_mult of_int_numeral)
qed (rule rnd53_of_int)

lemma rnd53_idem: "rnd53 (rnd53 q) = rnd53 q"
proof (cases "q = 0")
  case False
  let ?k = "ilog2 \<bar>q\<bar> - 52" let ?m = "round_even (q / pow2 ?k)"
  have r: "rnd53 q = of_int ?m * pow2 ?k" using False by (simp add: rnd53_def Let_def)
  have "\<bar>q\<bar> < 2 ^ 53 * pow2 ?k"
    using ilog2_bounds(2) [of "\<bar>q\<bar>"] False pow2_add_nat [of ?k 53] by (simp add: add.commute)
  then have "\<bar>q / pow2 ?k\<bar> < of_int (2 ^ 53)" by (simp add: abs_divide divide_less_eq)
  then have "\<bar>?m\<bar> \<le> 2 ^ 53" by (rule round_even_abs_le)
  then have "rnd53 (of_int ?m) = of_int ?m" by (rule rnd53_of_int_le)
  then show ?thesis using rnd53_scale [of "of_int ?m" ?k] r by simp
qed (simp add: rnd53_def)

lemma is_f64_ops [simp]:
  "is_f64 0" "is_f64 1" "is_f64 (x + y)" "is_f64 (x * y)" "is_f64 (x div y)" "is_f64 (f64_of q)"
  using rnd53_of_int [of 1] by (simp_all add: is_f64_def f64_defs rnd53_idem) (simp add: rnd53_def)

lemma f64_val_of_2 [simp]: "f64_val (f64_of 2) = 2"
  using rnd53_of_int [of 2] by (simp add: f64_of_def)

lemma f64_val_times_2 [simp]: "is_f64 x \<Longrightarrow> f64_val (x * f64_of 2) = 2 * f64_val x"
  using rnd53_double [of "f64_val x"] by (simp add: is_f64_def times_f64_def mult.commute)

lemma f64_val_div_2 [simp]: "is_f64 x \<Longrightarrow> f64_val (x div f64_of 2) = f64_val x / 2"
  using rnd53_half [of "f64_val x"] by (simp add: is_f64_def divide_f64_def)

lemma round_even_ge_floor: "\<lfloor>x\<rfloor> \<le> round_even x"
  by (simp add: round_even_def Let_def)

lemma rnd53_pos: "0 < q \<Longrightarrow> 0 < rnd53 q"
proof -
  assume q: "0 < q"
  let ?k = "ilog2 \<bar>q\<bar> - 52"
  have "2 ^ 52 * pow2 ?k \<le> q" using ilog2_bounds(1) [of q] q pow2_add_nat [of ?k 52] by simp
  then have "2 ^ 52 \<le> q / pow2 ?k" by (simp add: le_divide_eq)
  then have "1 \<le> q / pow2 ?k" by (rule order_trans [rotated]) simp
  then have "1 \<le> \<lfloor>q / pow2 ?k\<rfloor>" by (simp only: le_floor_iff of_int_1)
  then have "0 < round_even (q / pow2 ?k)" using round_even_ge_floor [of "q / pow2 ?k"] by linarith
  then show ?thesis using q by (simp add: rnd53_def Let_def)
qed

lemma f64_zero_add [simp]: "(0::f64) + 0 = 0" "(0::f64) * x = 0"
  by (simp_all add: f64_defs rnd53_def)

lemma f64_pos_ops: "0 < x \<Longrightarrow> 0 < y \<Longrightarrow> 0 < x * (y::f64)" "0 < q \<Longrightarrow> 0 < f64_of q"
  by (simp_all add: f64_defs rnd53_pos)

end
