(* ===== verification/Pool_Common.thy ===== *)
theory Pool_Common
  imports Pool_Prelude
begin

text \<open>
  The free functions of \<open>src/Common.h\<close> and \<open>src/Common.cc\<close>: the rounding of a
  difficulty up to a power of two, the string hash, and the byte swap to network order.
\<close>

section \<open>Difficulties are powers of two\<close>

text \<open>The loop of \<open>formatDifficulty\<close>; the counter \<open>i\<close> only grows.\<close>

partial_function (option) fd_loop :: "u64 \<Rightarrow> u64 \<Rightarrow> nat \<Rightarrow> nat option" where
  "fd_loop diff newDiff i =
     (if newDiff < diff then fd_loop diff (push_bit 1 newDiff) (i + 1) else Some i)"

definition formatDifficulty :: "u64 \<Rightarrow> u64 option" where
  "formatDifficulty diff =
     (if diff \<ge> 9223372036854775808 then Some 9223372036854775808
      else do {
        i \<leftarrow> fd_loop diff 1 0;
        if i \<le> 63 then Some (push_bit i 1) else None
      })"

definition is_pow2 :: "u64 \<Rightarrow> bool" where
  "is_pow2 d \<longleftrightarrow> (\<exists>n. unat d = 2 ^ n)"

lemma unat_pow2_u64:
  assumes "n \<le> 63"
  shows "unat (2 ^ n :: u64) = 2 ^ n"
proof -
  have "unat (2 ^ n :: u64) = unat (word_of_nat (2 ^ n) :: u64)" by simp
  also have "\<dots> = 2 ^ n mod 2 ^ 64" by (simp only: unat_of_nat) simp
  also have "\<dots> = 2 ^ n"
    using assms by (intro mod_less power_strict_increasing) auto
  finally show ?thesis .
qed

lemma unat_push_bit_1_u64: "n \<le> 63 \<Longrightarrow> unat (push_bit n 1 :: u64) = 2 ^ n"
  by (simp add: push_bit_eq_mult unat_pow2_u64)

lemma fd_loop_spec:
  assumes "i \<le> 63" "unat nd = 2 ^ i" "unat diff \<le> 2 ^ 63" "\<forall>m<i. 2 ^ m < unat diff"
  shows "\<exists>j\<le>63. fd_loop diff nd i = Some j \<and> unat diff \<le> 2 ^ j \<and> (\<forall>m<j. 2 ^ m < unat diff)"
  using assms
proof (induction "63 - i" arbitrary: i nd)
  case 0
  then have "i = 63" by simp
  then have "\<not> nd < diff" using 0 by (simp add: word_less_nat_alt)
  then show ?case using 0 \<open>i = 63\<close> by (subst fd_loop.simps) (auto simp: word_less_nat_alt)
next
  case (Suc x)
  show ?case
  proof (cases "nd < diff")
    case False
    then show ?thesis using Suc.prems by (subst fd_loop.simps) (auto simp: word_less_nat_alt)
  next
    case True
    have i: "i + 1 \<le> 63" "x = 63 - (i + 1)" using Suc.hyps(2) by auto
    have "nd = 2 ^ i" using Suc.prems(1,2) unat_pow2_u64 by (metis word_unat_eq_iff)
    then have nd: "unat (push_bit 1 nd) = 2 ^ (i + 1)"
      using unat_pow2_u64 [OF i(1)] by (simp add: push_bit_eq_mult mult.commute)
    have low: "\<forall>m<i + 1. 2 ^ m < unat diff"
      using Suc.prems(2,4) True by (auto simp: word_less_nat_alt less_Suc_eq)
    show ?thesis
      using Suc.hyps(1) [OF i(2) i(1) nd Suc.prems(3) low] True by (subst fd_loop.simps) simp
  qed
qed

lemma formatDifficulty_ok:
  "\<exists>n\<le>63. formatDifficulty d = Some (2 ^ n) \<and>
     (unat d \<le> 2 ^ n \<or> n = 63) \<and> (\<forall>m<n. 2 ^ m < unat d)"
proof (cases "d \<ge> 9223372036854775808")
  case True
  have "(9223372036854775808 :: u64) = 2 ^ 63" by simp
  moreover have "2 ^ m < unat d" if "m < 63" for m
  proof -
    have "(2::nat) ^ m < 2 ^ 63" using that by (rule power_strict_increasing) simp
    also have "\<dots> \<le> unat d" using True by (simp add: word_le_nat_alt)
    finally show ?thesis .
  qed
  ultimately show ?thesis using True by (auto simp: formatDifficulty_def intro!: exI [of _ 63])
next
  case False
  then have "unat d \<le> 2 ^ 63" by (simp add: word_le_nat_alt)
  then obtain j where j: "j \<le> 63" "fd_loop d 1 0 = Some j" "unat d \<le> 2 ^ j" "\<forall>m<j. 2 ^ m < unat d"
    using fd_loop_spec [of 0 1 d] by auto
  then have "formatDifficulty d = Some (2 ^ j)"
    using False by (simp add: formatDifficulty_def push_bit_eq_mult)
  then show ?thesis using j by blast
qed

text \<open>
  C24. \<open>formatDifficulty\<close> always returns, and returns the least power of two that is at least
  the difficulty asked for, capped at \<open>2^63\<close>.
\<close>

theorem formatDifficulty_least_pow2:
  "\<exists>n\<le>63. formatDifficulty d = Some (2 ^ n) \<and>
     (unat d \<le> 2 ^ n \<or> n = 63) \<and> (\<forall>m<n. 2 ^ m < unat d)"
  by (rule formatDifficulty_ok)

theorem formatDifficulty_least_pow2_witness: "formatDifficulty 100 = Some 128"
proof -
  obtain n where n: "formatDifficulty 100 = Some (2 ^ n)" "100 \<le> (2::nat) ^ n \<or> n = 63" "\<forall>m<n. 2 ^ m < (100::nat)"
    using formatDifficulty_least_pow2 [of 100] by auto
  have "\<not> 7 < n" using n(3) by (auto dest: spec [of _ 7])
  moreover have "\<not> n \<le> 6" using n(2) power_increasing [of n 6 "2::nat"] by auto
  ultimately have "n = 7" by simp
  then show ?thesis using n(1) by simp
qed

lemma formatDifficulty_is_pow2:
  assumes "formatDifficulty d = Some e"
  shows "is_pow2 e"
proof -
  have "is_pow2 (push_bit i 1)" if "i \<le> 63" for i
    using unat_push_bit_1_u64 [OF that] by (auto simp: is_pow2_def)
  moreover have "is_pow2 9223372036854775808"
    by (auto simp: is_pow2_def intro!: exI [of _ 63])
  ultimately show ?thesis
    using assms by (auto simp: formatDifficulty_def bind_eq_Some_conv split: if_splits)
qed

section \<open>The string hash\<close>

text \<open>\<open>djb2\<close> reads bytes up to the terminating zero.\<close>

definition djb2 :: "bytes \<Rightarrow> u32" where
  "djb2 str = foldl (\<lambda>hash c. (push_bit 5 hash + hash) + ucast c) 5381 (takeWhile (\<lambda>c. c \<noteq> 0) str)"

section \<open>Network byte order\<close>

text \<open>The three overloads of \<open>HToBe\<close> on a little-endian host.\<close>

definition HToBe16 :: "u16 \<Rightarrow> u16" where
  "HToBe16 v = drop_bit 8 v OR push_bit 8 v"

definition HToBe32 :: "u32 \<Rightarrow> u32" where
  "HToBe32 v = drop_bit 24 (v AND 0xff000000) OR drop_bit 8 (v AND 0x00ff0000) OR
     push_bit 8 (v AND 0x0000ff00) OR push_bit 24 (v AND 0x000000ff)"

definition HToBe64 :: "u64 \<Rightarrow> u64" where
  "HToBe64 v = drop_bit 56 (v AND 0xff00000000000000) OR drop_bit 40 (v AND 0x00ff000000000000) OR
     drop_bit 24 (v AND 0x0000ff0000000000) OR drop_bit 8 (v AND 0x000000ff00000000) OR
     push_bit 8 (v AND 0x00000000ff000000) OR push_bit 24 (v AND 0x0000000000ff0000) OR
     push_bit 40 (v AND 0x000000000000ff00) OR push_bit 56 (v AND 0x00000000000000ff)"

text \<open>The byte masks of the source, as shifted masks of eight bits.\<close>

lemma byte_masks_32:
  "(0xff000000 :: u32) = push_bit 24 (mask 8)" "(0x00ff0000 :: u32) = push_bit 16 (mask 8)"
  "(0x0000ff00 :: u32) = push_bit 8 (mask 8)" "(0x000000ff :: u32) = push_bit 0 (mask 8)"
  by (simp_all add: mask_eq_exp_minus_1 push_bit_eq_mult)

lemma byte_masks_64:
  "(0xff00000000000000 :: u64) = push_bit 56 (mask 8)" "(0x00ff000000000000 :: u64) = push_bit 48 (mask 8)"
  "(0x0000ff0000000000 :: u64) = push_bit 40 (mask 8)" "(0x000000ff00000000 :: u64) = push_bit 32 (mask 8)"
  "(0x00000000ff000000 :: u64) = push_bit 24 (mask 8)" "(0x0000000000ff0000 :: u64) = push_bit 16 (mask 8)"
  "(0x000000000000ff00 :: u64) = push_bit 8 (mask 8)" "(0x00000000000000ff :: u64) = push_bit 0 (mask 8)"
  by (simp_all add: mask_eq_exp_minus_1 push_bit_eq_mult)

text \<open>Bit \<open>i\<close> of byte \<open>j\<close> of the swapped word is bit \<open>i\<close> of the mirrored byte.\<close>

lemma bit_HToBe16:
  assumes "j < 2" "i < 8"
  shows "bit (HToBe16 v) (8 * j + i) = bit v (8 * (1 - j) + i)"
proof -
  consider "j = 0" | "j = 1" using assms(1) by linarith
  then show ?thesis using assms(2) by cases (auto simp: HToBe16_def bit_simps add.commute dest: bit_imp_le_length)
qed

lemma bit_HToBe32:
  assumes "j < 4" "i < 8"
  shows "bit (HToBe32 v) (8 * j + i) = bit v (8 * (3 - j) + i)"
proof -
  consider "j = 0" | "j = 1" | "j = 2" | "j = 3" using assms(1) by linarith
  then show ?thesis
    using assms(2) by cases (simp_all add: HToBe32_def byte_masks_32 bit_simps add.commute)
qed

lemma bit_HToBe64:
  assumes "j < 8" "i < 8"
  shows "bit (HToBe64 v) (8 * j + i) = bit v (8 * (7 - j) + i)"
proof -
  consider "j = 0" | "j = 1" | "j = 2" | "j = 3" | "j = 4" | "j = 5" | "j = 6" | "j = 7"
    using assms(1) by linarith
  then show ?thesis
    using assms(2) by cases (simp_all add: HToBe64_def byte_masks_64 bit_simps add.commute)
qed

lemma HToBe16_involution [simp]: "HToBe16 (HToBe16 v) = v"
proof (rule bit_word_eqI)
  fix n assume "n < LENGTH(16)"
  then show "bit (HToBe16 (HToBe16 v)) n = bit v n"
    using bit_HToBe16 [of "n div 8" "n mod 8" "HToBe16 v"] bit_HToBe16 [of "1 - n div 8" "n mod 8" v]
    by (simp add: less_mult_imp_div_less)
qed

lemma HToBe32_involution [simp]: "HToBe32 (HToBe32 v) = v"
proof (rule bit_word_eqI)
  fix n assume "n < LENGTH(32)"
  then show "bit (HToBe32 (HToBe32 v)) n = bit v n"
    using bit_HToBe32 [of "n div 8" "n mod 8" "HToBe32 v"] bit_HToBe32 [of "3 - n div 8" "n mod 8" v]
    by (simp add: less_mult_imp_div_less)
qed

lemma HToBe64_involution [simp]: "HToBe64 (HToBe64 v) = v"
proof (rule bit_word_eqI)
  fix n assume "n < LENGTH(64)"
  then show "bit (HToBe64 (HToBe64 v)) n = bit v n"
    using bit_HToBe64 [of "n div 8" "n mod 8" "HToBe64 v"] bit_HToBe64 [of "7 - n div 8" "n mod 8" v]
    by (simp add: less_mult_imp_div_less)
qed

end
