(* ===== verification/Diff_Controller.thy ===== *)
theory Diff_Controller
  imports Stats_Window Float64 Pool_Common
begin

text \<open>
  The difficulty controller of a miner, \<open>src/DiffController.h\<close> and
  \<open>src/DiffController.cc\<close>. Every \<open>time(nullptr)\<close> of the source is an argument. \<open>None\<close> is a
  fatal log, a failed \<open>assert\<close>, an access out of range or a loop that does not end.
\<close>

section \<open>The controller\<close>

record diff_controller =
  kMaxDiff :: u64
  kMinDiff :: u64
  kDiffWindow :: int
  kRecordSeconds :: int
  startTime :: int
  minDiff :: u64
  curDiff :: u64
  curHashRateLevel :: int
  sharesNum :: "f64 stats_window"
  shares :: "u64 stats_window"

definition setMinDiff :: "u64 \<Rightarrow> diff_controller \<Rightarrow> diff_controller" where
  "setMinDiff m d = d\<lparr>minDiff := (if m < kMinDiff d then kMinDiff d
     else if m > kMaxDiff d then kMaxDiff d else m)\<rparr>"

definition setCurDiff :: "u64 \<Rightarrow> diff_controller \<Rightarrow> diff_controller" where
  "setCurDiff c d = d\<lparr>curDiff := (if c < kMinDiff d then kMinDiff d
     else if c > kMaxDiff d then kMaxDiff d else c)\<rparr>"

definition resetCurDiff :: "u64 \<Rightarrow> diff_controller \<Rightarrow> diff_controller" where
  "resetCurDiff c d = (let d1 = setCurDiff c d in
     d1\<lparr>sharesNum := sw_mapMultiply (sharesNum d1) 0, shares := sw_mapMultiply (shares d1) 0\<rparr>)"

definition dc_new :: "u64 \<Rightarrow> u64 \<Rightarrow> u64 \<Rightarrow> u32 \<Rightarrow> u32 \<Rightarrow> diff_controller option" where
  "dc_new defaultDifficulty maxDifficulty minDifficulty shareAvgSeconds diffAdjustPeriod =
     (if uint shareAvgSeconds = 0 then None else do {
        num \<leftarrow> sw_new (uint diffAdjustPeriod sdiv uint shareAvgSeconds);
        shs \<leftarrow> sw_new (uint diffAdjustPeriod sdiv uint shareAvgSeconds);
        if maxDifficulty > 0x4000000000000000 then None
        else if minDifficulty < 1 then None
        else if minDifficulty > maxDifficulty then None
        else if uint diffAdjustPeriod < uint shareAvgSeconds then None
        else Some (resetCurDiff defaultDifficulty (setMinDiff minDifficulty
          \<lparr>kMaxDiff = maxDifficulty, kMinDiff = minDifficulty,
           kDiffWindow = uint diffAdjustPeriod, kRecordSeconds = uint shareAvgSeconds,
           startTime = 0, minDiff = 0, curDiff = 0, curHashRateLevel = 0,
           sharesNum = num, shares = shs\<rparr>))
      })"

text \<open>The copy constructor keeps the difficulties and starts with empty windows.\<close>

definition dc_copy :: "diff_controller \<Rightarrow> diff_controller option" where
  "dc_copy other =
     (if kRecordSeconds other = 0 then None else do {
        num \<leftarrow> sw_new (kDiffWindow other sdiv kRecordSeconds other);
        shs \<leftarrow> sw_new (kDiffWindow other sdiv kRecordSeconds other);
        Some (other\<lparr>startTime := 0, sharesNum := num, shares := shs\<rparr>)
      })"

definition addShare :: "int \<Rightarrow> u64 \<Rightarrow> diff_controller \<Rightarrow> diff_controller option" where
  "addShare now share d =
     (if kRecordSeconds d = 0 then None else do {
        let k = now sdiv kRecordSeconds d;
        (_, num) \<leftarrow> sw_insert (sharesNum d) k 1;
        (_, shs) \<leftarrow> sw_insert (shares d) k share;
        Some (d\<lparr>sharesNum := num, shares := shs\<rparr>)
      })"

definition isFullWindow :: "diff_controller \<Rightarrow> int \<Rightarrow> bool" where
  "isFullWindow d now \<longleftrightarrow> now \<ge> startTime d + kDiffWindow d"

section \<open>Hash rate levels\<close>

definition hashRateDown :: "int \<Rightarrow> int option" where
  "hashRateDown level = (if level \<ge> 8 then Some 512
     else if \<not> (level \<ge> 0 \<and> level \<le> 7) then None
     else vec_get [0, 4, 8, 16, 32, 64, 128, 256] level)"

definition hashRateUp :: "int \<Rightarrow> int option" where
  "hashRateUp level = (if \<not> (level \<ge> 0 \<and> level \<le> 7) then None
     else if level \<ge> 8 then Some 0x7fffffff
     else vec_get [4, 8, 16, 32, 64, 128, 256, 512] level)"

function level_reduce :: "f64 \<Rightarrow> int \<Rightarrow> int option" where
  "level_reduce hashRateT level =
     (if level > 0 then
        case hashRateDown level of
          None \<Rightarrow> None
        | Some down \<Rightarrow> if hashRateT \<le> f64_of_int down * f64_of (3/4)
                       then level_reduce hashRateT (level - 1) else Some level
      else Some level)"
  by pat_completeness auto
termination by (relation "measure (\<lambda>(h, l). nat l)") auto

function level_increase :: "f64 \<Rightarrow> int \<Rightarrow> int option" where
  "level_increase hashRateT level =
     (if level \<le> 7 then
        case hashRateUp level of
          None \<Rightarrow> None
        | Some up \<Rightarrow> if hashRateT \<ge> f64_of_int up * f64_of (3/2)
                     then level_increase hashRateT (level + 1) else Some level
      else Some level)"
  by pat_completeness auto
termination by (relation "measure (\<lambda>(h, l). nat (8 - l))") auto

declare level_reduce.simps [simp del] level_increase.simps [simp del]

definition adjustHashRateLevel :: "f64 \<Rightarrow> int \<Rightarrow> int option" where
  "adjustHashRateLevel hashRateT level = do {
     low \<leftarrow> if level > 0 then do { down \<leftarrow> hashRateDown level; Some (hashRateT < f64_of_int down) }
            else Some False;
     if low then level_reduce hashRateT level
     else do {
       high \<leftarrow> if level \<le> 7 then do { up \<leftarrow> hashRateUp level; Some (hashRateT > f64_of_int up) }
               else Some False;
       if high then level_increase hashRateT level else Some level
     }
   }"

text \<open>The expected number of shares grows with the level of the miner.\<close>

definition coefficients :: "f64 list" where
  "coefficients = [1, 1, 1, f64_of (12/10), f64_of (15/10), f64_of 2, f64_of 3, f64_of 4, f64_of 6]"

definition minerCoefficient :: "int \<Rightarrow> int \<Rightarrow> diff_controller \<Rightarrow> (f64 \<times> diff_controller) option" where
  "minerCoefficient now idx d =
     (if now \<le> startTime d then Some (1, d)
      else do {
        shs \<leftarrow> sw_sum1 (shares d) idx;
        let shareWindow = (if isFullWindow d now then kDiffWindow d else now - startTime d);
        let hashRateT = f64_of_int (uint shs) * f64_of (2 ^ 32) div f64_of_int shareWindow div f64_of (10 ^ 12);
        level \<leftarrow> adjustHashRateLevel hashRateT (curHashRateLevel d);
        if \<not> (level \<ge> 0 \<and> level \<le> 8) then None
        else do {
          c \<leftarrow> vec_get coefficients level;
          Some (c, d\<lparr>curHashRateLevel := level\<rparr>)
        }
      })"

section \<open>Recalculation\<close>

definition doubleDiff :: "diff_controller \<Rightarrow> diff_controller" where
  "doubleDiff d = (let d1 = setCurDiff (curDiff d * 2) d in
     d1\<lparr>sharesNum := sw_mapDivide (sharesNum d1) (f64_of 2)\<rparr>)"

definition halveDiff :: "diff_controller \<Rightarrow> diff_controller" where
  "halveDiff d = (let d1 = setCurDiff (curDiff d div 2) d in
     d1\<lparr>sharesNum := sw_mapMultiply (sharesNum d1) (f64_of 2)\<rparr>)"

partial_function (option) too_fast :: "int \<Rightarrow> f64 \<Rightarrow> diff_controller \<Rightarrow> diff_controller option" where
  "too_fast k expected d = do {
     s \<leftarrow> sw_sum1 (sharesNum d) k;
     if s > expected \<and> curDiff d < kMaxDiff d then too_fast k expected (doubleDiff d)
     else Some d
   }"

partial_function (option) too_slow :: "int \<Rightarrow> f64 \<Rightarrow> diff_controller \<Rightarrow> diff_controller option" where
  "too_slow k expected d = do {
     s \<leftarrow> sw_sum1 (sharesNum d) k;
     if s < expected * f64_of (40/100) \<and> curDiff d \<ge> minDiff d * 2
     then too_slow k expected (halveDiff d)
     else Some d
   }"

text \<open>
  \<open>_calcCurDiff\<close> reads the clock a second time when it sets \<open>startTime_\<close>. The cast to
  \<open>int32_t\<close> is reached only before the first full window, where its value fits.
\<close>

definition expectedCount :: "int \<Rightarrow> int \<Rightarrow> diff_controller \<Rightarrow> (f64 \<times> diff_controller) option" where
  "expectedCount now k d = do {
     let e0 = f64_round (f64_of_int (kDiffWindow d) div f64_of_int (kRecordSeconds d));
     (e1, d1) \<leftarrow> if isFullWindow d now
                 then do { (c, d1) \<leftarrow> minerCoefficient now k d; Some (e0 * c, d1) }
                 else Some (e0, d);
     Some (if e1 > f64_of_int (kDiffWindow d) then f64_of_int (kDiffWindow d) else e1, d1)
   }"

text \<open>The three branches that change the difficulty.\<close>

definition adjustDiff :: "int \<Rightarrow> int \<Rightarrow> f64 \<Rightarrow> f64 \<Rightarrow> diff_controller \<Rightarrow> (u64 \<times> diff_controller) option" where
  "adjustDiff now k sharesCount expected d =
     (if \<not> isFullWindow d now \<and> now \<ge> startTime d + 60 \<and>
         sharesCount \<le> f64_of_int (f64_trunc (f64_of_int (now - startTime d) div f64_of 60)) \<and>
         curDiff d \<ge> minDiff d * 2
      then (let d' = halveDiff d in Some (curDiff d', d'))
      else if sharesCount > expected * f64_of (140/100)
      then do { d' \<leftarrow> too_fast k expected d; Some (curDiff d', d') }
      else if isFullWindow d now \<and> curDiff d \<ge> minDiff d * 2
      then do {
        d' \<leftarrow> too_slow k expected d;
        if curDiff d' \<ge> minDiff d' then Some (curDiff d', d') else None
      }
      else Some (curDiff d, d))"

definition calcCurDiff0 :: "int \<Rightarrow> int \<Rightarrow> diff_controller \<Rightarrow> (u64 \<times> diff_controller) option" where
  "calcCurDiff0 now now2 d =
     (if kRecordSeconds d = 0 then None else do {
        let k = now sdiv kRecordSeconds d;
        sharesCount \<leftarrow> sw_sum1 (sharesNum d) k;
        (expected, d') \<leftarrow> expectedCount now k (if startTime d = 0 then d\<lparr>startTime := now2\<rparr> else d);
        adjustDiff now k sharesCount expected d'
      })"

definition calcCurDiff :: "int \<Rightarrow> int \<Rightarrow> diff_controller \<Rightarrow> (u64 \<times> diff_controller) option" where
  "calcCurDiff now now2 d = do {
     (diff, d') \<leftarrow> calcCurDiff0 now now2 d;
     Some (if diff < minDiff d' then minDiff d' else diff, d')
   }"

section \<open>The invariant\<close>

definition dc_inv :: "diff_controller \<Rightarrow> bool" where
  "dc_inv d \<longleftrightarrow>
     1 \<le> kMinDiff d \<and> kMinDiff d \<le> kMaxDiff d \<and> kMaxDiff d \<le> 0x4000000000000000 \<and>
     kMinDiff d \<le> minDiff d \<and> minDiff d \<le> kMaxDiff d \<and>
     kMinDiff d \<le> curDiff d \<and> curDiff d \<le> kMaxDiff d \<and>
     0 < kRecordSeconds d \<and> kRecordSeconds d \<le> kDiffWindow d \<and>
     0 \<le> curHashRateLevel d \<and> curHashRateLevel d \<le> 8 \<and>
     sw_wf (sharesNum d) \<and> windowSize (sharesNum d) = kDiffWindow d div kRecordSeconds d \<and>
     sw_wf (shares d) \<and> windowSize (shares d) = kDiffWindow d div kRecordSeconds d"

text \<open>The parts of the controller that only its constructor or \<open>setMinDiff\<close> writes.\<close>

definition dc_same :: "diff_controller \<Rightarrow> diff_controller \<Rightarrow> bool" where
  "dc_same d d' \<longleftrightarrow> kMaxDiff d' = kMaxDiff d \<and> kMinDiff d' = kMinDiff d \<and> minDiff d' = minDiff d \<and>
     kDiffWindow d' = kDiffWindow d \<and> kRecordSeconds d' = kRecordSeconds d"

text \<open>
  \<open>dc_exact\<close>: all difficulties are powers of two and every bucket holds a double. Then a
  change of difficulty rescales the history without rounding: the product of the difficulty
  and the number of shares of each bucket, \<open>dc_work\<close>, does not change.
\<close>

definition dc_exact :: "diff_controller \<Rightarrow> bool" where
  "dc_exact d \<longleftrightarrow> is_pow2 (kMaxDiff d) \<and> is_pow2 (kMinDiff d) \<and> is_pow2 (minDiff d) \<and>
     is_pow2 (curDiff d) \<and> (\<forall>x\<in>set (elements (sharesNum d)). is_f64 x)"

definition dc_work :: "diff_controller \<Rightarrow> rat list" where
  "dc_work d = map (\<lambda>x. of_nat (unat (curDiff d)) * f64_val x) (elements (sharesNum d))"

definition dc_adjusted :: "diff_controller \<Rightarrow> diff_controller \<Rightarrow> bool" where
  "dc_adjusted d d' \<longleftrightarrow> dc_inv d' \<and> dc_same d d' \<and> (dc_exact d \<longrightarrow> dc_exact d' \<and> dc_work d' = dc_work d)"

lemma dc_adjusted_refl: "dc_inv d \<Longrightarrow> dc_adjusted d d"
  by (simp add: dc_adjusted_def dc_same_def)

lemma dc_adjusted_trans: "dc_adjusted d e \<Longrightarrow> dc_adjusted e f \<Longrightarrow> dc_adjusted d f"
  by (auto simp: dc_adjusted_def dc_same_def)

lemma dc_inv_setMinDiff [simp]: "dc_inv d \<Longrightarrow> dc_inv (setMinDiff m d)"
  by (auto simp: dc_inv_def setMinDiff_def)

lemma dc_inv_setCurDiff [simp]: "dc_inv d \<Longrightarrow> dc_inv (setCurDiff c d)"
  by (auto simp: dc_inv_def setCurDiff_def)

lemma dc_inv_resetCurDiff [simp]: "dc_inv d \<Longrightarrow> dc_inv (resetCurDiff c d)"
  by (auto simp: dc_inv_def setCurDiff_def resetCurDiff_def Let_def)

lemma dc_inv_new:
  assumes "dc_new df mx mn sa da = Some d"
  shows "dc_inv d \<and> kDiffWindow d = uint da"
proof -
  have "uint sa \<noteq> 0" using assms by (auto simp: dc_new_def split: if_splits)
  then have r: "0 < uint sa" using uint_ge_0 [of sa] by linarith
  have le: "uint sa \<le> uint da" "mx \<le> 0x4000000000000000" "mn \<noteq> 0" "mn \<le> mx"
    using assms by (auto simp: dc_new_def bind_eq_Some_conv not_less split: if_splits)
  have m1: "1 \<le> mn" using le(3) by (simp add: word_le_nat_alt Suc_le_eq unat_gt_0)
  have q: "uint da sdiv uint sa = uint da div uint sa"
    by (simp add: sdiv_nonneg)
  have "0 < uint da div uint sa" using r le(1) by (simp add: pos_imp_zdiv_pos_iff)
  then show ?thesis using assms r le m1 q sw_new_wf [of "uint da div uint sa"]
    by (auto simp: dc_new_def dc_inv_def bind_eq_Some_conv setMinDiff_def setCurDiff_def
        resetCurDiff_def Let_def sw_new_def sw_wf_def sw_mapMultiply_def split: if_splits)
qed

lemma dc_inv_copy:
  assumes "dc_inv d"
  shows "\<exists>d'. dc_copy d = Some d' \<and> dc_inv d' \<and> dc_same d d'"
proof -
  have "0 < kDiffWindow d div kRecordSeconds d" using assms by (simp add: dc_inv_def pos_imp_zdiv_pos_iff)
  then show ?thesis using assms
    by (auto simp: dc_copy_def dc_inv_def dc_same_def sw_new_def sw_wf_def sdiv_nonneg)
qed

section \<open>Doubling and halving\<close>

lemma unat_double_u64: "x \<le> (0x4000000000000000 :: u64) \<Longrightarrow> unat (x * 2) = 2 * unat x"
  using unat_mult_lem [of x 2] by (simp add: word_le_nat_alt mult.commute)

lemma unat_half_u64: "unat (x div 2 :: u64) = unat x div 2"
  by (simp add: unat_div)

lemma is_pow2_ge_1: "is_pow2 d \<Longrightarrow> 1 \<le> unat d"
  by (auto simp: is_pow2_def)

lemma is_pow2_less_imp_double:
  assumes "is_pow2 a" "is_pow2 b" "unat a < unat b"
  shows "2 * unat a \<le> unat b"
proof -
  obtain m n where mn: "unat a = 2 ^ m" "unat b = 2 ^ n" using assms by (auto simp: is_pow2_def)
  then have "m < n" using assms(3) by simp
  then have "(2::nat) ^ Suc m \<le> 2 ^ n" by (intro power_increasing) auto
  then show ?thesis using mn by simp
qed

lemma is_pow2_half:
  assumes "is_pow2 a" "2 \<le> unat a"
  shows "is_pow2 (a div 2)" "2 * (unat a div 2) = unat a"
proof -
  obtain n where n: "unat a = 2 ^ n" using assms by (auto simp: is_pow2_def)
  then obtain m where "n = Suc m" using assms(2) by (cases n) auto
  then show "is_pow2 (a div 2)" "2 * (unat a div 2) = unat a"
    using n by (auto simp: is_pow2_def unat_half_u64)
qed

lemma is_pow2_double: "is_pow2 a \<Longrightarrow> a \<le> 0x4000000000000000 \<Longrightarrow> is_pow2 (a * 2)"
  by (auto simp: is_pow2_def unat_double_u64 intro: exI [of _ "Suc _"])

text \<open>The clamping of \<open>setCurDiff\<close> does nothing when difficulties are powers of two.\<close>

lemma doubleDiff_adjusted:
  assumes inv: "dc_inv d" and lt: "curDiff d < kMaxDiff d"
  shows "dc_adjusted d (doubleDiff d)" "unat (curDiff d) < unat (curDiff (doubleDiff d))"
proof -
  have u: "unat (curDiff d * 2) = 2 * unat (curDiff d)"
    using inv lt by (intro unat_double_u64) (auto simp: dc_inv_def)
  have pos: "1 \<le> unat (curDiff d)" "unat (kMinDiff d) \<le> unat (curDiff d)"
    using inv by (auto simp: dc_inv_def word_le_nat_alt)
  show lt': "unat (curDiff d) < unat (curDiff (doubleDiff d))"
    using u pos lt by (auto simp: doubleDiff_def setCurDiff_def Let_def word_less_nat_alt)
  have "dc_exact (doubleDiff d) \<and> dc_work (doubleDiff d) = dc_work d" if e: "dc_exact d"
  proof -
    have "2 * unat (curDiff d) \<le> unat (kMaxDiff d)"
      using e lt by (intro is_pow2_less_imp_double) (auto simp: dc_exact_def word_less_nat_alt)
    then have c: "curDiff (doubleDiff d) = curDiff d * 2"
      using u pos by (auto simp: doubleDiff_def setCurDiff_def Let_def word_less_nat_alt)
    have "is_pow2 (curDiff d * 2)"
      using e inv lt by (intro is_pow2_double) (auto simp: dc_exact_def dc_inv_def)
    then have "dc_exact (doubleDiff d)"
      using e c by (auto simp: dc_exact_def doubleDiff_def setCurDiff_def Let_def sw_mapDivide_def)
    moreover have "dc_work (doubleDiff d) = dc_work d"
      using e c u by (auto simp: dc_work_def dc_exact_def)
        (auto simp: doubleDiff_def setCurDiff_def Let_def sw_mapDivide_def)
    ultimately show ?thesis ..
  qed
  then show "dc_adjusted d (doubleDiff d)" using dc_inv_setCurDiff [OF inv, of "curDiff d * 2"]
    by (auto simp: dc_adjusted_def dc_same_def doubleDiff_def Let_def setCurDiff_def dc_inv_def)
qed

lemma halveDiff_adjusted:
  assumes inv: "dc_inv d" and ge: "curDiff d \<ge> minDiff d * 2"
  shows "dc_adjusted d (halveDiff d)" "unat (curDiff (halveDiff d)) < unat (curDiff d)"
    "curDiff (halveDiff d) \<ge> minDiff (halveDiff d)"
proof -
  have "unat (minDiff d * 2) = 2 * unat (minDiff d)"
    using inv by (intro unat_double_u64) (auto simp: dc_inv_def)
  then have u: "2 * unat (minDiff d) \<le> unat (curDiff d)" using ge by (simp add: word_le_nat_alt)
  have pos: "1 \<le> unat (minDiff d)" "unat (kMinDiff d) \<le> unat (minDiff d)"
    "unat (curDiff d) \<le> unat (kMaxDiff d)"
    using inv by (auto simp: dc_inv_def word_le_nat_alt)
  have c: "curDiff (halveDiff d) = curDiff d div 2"
    using u pos by (auto simp: halveDiff_def setCurDiff_def Let_def word_less_nat_alt unat_half_u64)
  show "unat (curDiff (halveDiff d)) < unat (curDiff d)" using c u pos by (simp add: unat_half_u64)
  have m: "minDiff (halveDiff d) = minDiff d" by (simp add: halveDiff_def setCurDiff_def Let_def)
  show "curDiff (halveDiff d) \<ge> minDiff (halveDiff d)"
    using c m u by (simp add: word_le_nat_alt unat_half_u64)
  have "dc_exact (halveDiff d) \<and> dc_work (halveDiff d) = dc_work d" if e: "dc_exact d"
  proof -
    have p: "is_pow2 (curDiff d div 2)" "2 * (unat (curDiff d) div 2) = unat (curDiff d)"
      using is_pow2_half [of "curDiff d"] e u pos by (auto simp: dc_exact_def)
    then have "dc_exact (halveDiff d)"
      using e c by (auto simp: dc_exact_def halveDiff_def setCurDiff_def Let_def sw_mapMultiply_def)
    moreover have "of_nat (unat (curDiff d)) = (2 * of_nat (unat (curDiff d) div 2) :: rat)"
      using p(2) by (metis of_nat_mult of_nat_numeral)
    then have "dc_work (halveDiff d) = dc_work d"
      using e c by (auto simp: dc_work_def dc_exact_def unat_half_u64)
        (auto simp: halveDiff_def setCurDiff_def Let_def sw_mapMultiply_def)
    ultimately show ?thesis ..
  qed
  then show "dc_adjusted d (halveDiff d)" using dc_inv_setCurDiff [OF inv, of "curDiff d div 2"]
    by (auto simp: dc_adjusted_def dc_same_def halveDiff_def Let_def setCurDiff_def dc_inv_def)
qed

section \<open>Every recalculation returns\<close>

text \<open>A time at which a whole window lies after the epoch.\<close>

definition dc_time :: "diff_controller \<Rightarrow> int \<Rightarrow> bool" where
  "dc_time d now \<longleftrightarrow> kDiffWindow d \<le> now"

lemma dc_windows_below:
  assumes "dc_inv d" "dc_time d now"
  shows "windowSize (sharesNum d) \<le> now div kRecordSeconds d" "0 \<le> now div kRecordSeconds d"
    "windowSize (shares d) \<le> now div kRecordSeconds d" "now sdiv kRecordSeconds d = now div kRecordSeconds d"
  using assms by (auto simp: dc_inv_def dc_time_def zdiv_mono1 pos_imp_zdiv_nonneg_iff)

lemma dc_adjusted_windowSize:
  "dc_inv d \<Longrightarrow> dc_adjusted d d' \<Longrightarrow> windowSize (sharesNum d') = windowSize (sharesNum d)"
  by (simp add: dc_adjusted_def dc_inv_def dc_same_def)

lemma too_fast_adjusted:
  assumes "dc_inv d" "windowSize (sharesNum d) \<le> k"
  shows "\<exists>d'. too_fast k ex d = Some d' \<and> dc_adjusted d d'"
  using assms
proof (induction "unat (kMaxDiff d) - unat (curDiff d)" arbitrary: d rule: less_induct)
  case less
  obtain s where s: "sw_sum1 (sharesNum d) k = Some s"
    using sw_sum1_total [of "sharesNum d" k] less.prems by (auto simp: dc_inv_def)
  show ?case
  proof (cases "s > ex \<and> curDiff d < kMaxDiff d")
    case False
    then show ?thesis using s less.prems by (subst too_fast.simps) (auto simp: dc_adjusted_refl)
  next
    case True
    note step = doubleDiff_adjusted [OF less.prems(1) conjunct2 [OF True]]
    let ?d = "doubleDiff d"
    have inv: "dc_inv ?d" and km: "kMaxDiff ?d = kMaxDiff d"
      using step(1) by (auto simp: dc_adjusted_def dc_same_def)
    have "unat (kMaxDiff ?d) - unat (curDiff ?d) < unat (kMaxDiff d) - unat (curDiff d)"
      using step(2) True km by (auto simp: word_less_nat_alt intro: diff_less_mono2)
    then obtain d' where "too_fast k ex ?d = Some d'" "dc_adjusted ?d d'"
      using less.hyps [of ?d] inv less.prems(2) dc_adjusted_windowSize [OF less.prems(1) step(1)] by auto
    then show ?thesis using s True dc_adjusted_trans [OF step(1)] by (subst too_fast.simps) auto
  qed
qed

lemma too_slow_adjusted:
  assumes "dc_inv d" "windowSize (sharesNum d) \<le> k" "curDiff d \<ge> minDiff d"
  shows "\<exists>d'. too_slow k ex d = Some d' \<and> dc_adjusted d d' \<and> curDiff d' \<ge> minDiff d'"
  using assms
proof (induction "unat (curDiff d)" arbitrary: d rule: less_induct)
  case less
  obtain s where s: "sw_sum1 (sharesNum d) k = Some s"
    using sw_sum1_total [of "sharesNum d" k] less.prems by (auto simp: dc_inv_def)
  show ?case
  proof (cases "s < ex * f64_of (40/100) \<and> curDiff d \<ge> minDiff d * 2")
    case False
    then show ?thesis using s less.prems by (subst too_slow.simps) (auto simp: dc_adjusted_refl)
  next
    case True
    note step = halveDiff_adjusted [OF less.prems(1) conjunct2 [OF True]]
    let ?d = "halveDiff d"
    have "dc_inv ?d" using step(1) by (simp add: dc_adjusted_def)
    then obtain d' where "too_slow k ex ?d = Some d'" "dc_adjusted ?d d'" "curDiff d' \<ge> minDiff d'"
      using less.hyps [OF step(2)] less.prems step(3) dc_adjusted_windowSize [OF less.prems(1) step(1)] by auto
    then show ?thesis using s True dc_adjusted_trans [OF step(1)] by (subst too_slow.simps) auto
  qed
qed

lemma level_reduce_ok: "0 \<le> l \<Longrightarrow> l \<le> 8 \<Longrightarrow> \<exists>l'. level_reduce h l = Some l' \<and> 0 \<le> l' \<and> l' \<le> l"
proof (induction h l rule: level_reduce.induct)
  case (1 h l)
  have "\<exists>x. hashRateDown l = Some x" using 1(2) by (auto simp: hashRateDown_def vec_get_def)
  then show ?case using 1 by (subst level_reduce.simps) fastforce
qed

lemma level_increase_ok: "0 \<le> l \<Longrightarrow> l \<le> 8 \<Longrightarrow> \<exists>l'. level_increase h l = Some l' \<and> l \<le> l' \<and> l' \<le> 8"
proof (induction h l rule: level_increase.induct)
  case (1 h l)
  have "l \<le> 7 \<Longrightarrow> \<exists>x. hashRateUp l = Some x" using 1(2) by (auto simp: hashRateUp_def vec_get_def)
  then show ?case using 1 by (subst level_increase.simps) fastforce
qed

lemma adjustHashRateLevel_ok:
  assumes "0 \<le> l" "l \<le> 8"
  shows "\<exists>l'. adjustHashRateLevel h l = Some l' \<and> 0 \<le> l' \<and> l' \<le> 8"
proof -
  have "\<exists>x. hashRateDown l = Some x" using assms by (auto simp: hashRateDown_def vec_get_def)
  moreover have "l \<le> 7 \<Longrightarrow> \<exists>x. hashRateUp l = Some x" using assms by (auto simp: hashRateUp_def vec_get_def)
  moreover note level_reduce_ok [OF assms, of h] level_increase_ok [OF assms, of h]
  ultimately show ?thesis using assms by (fastforce simp: adjustHashRateLevel_def)
qed

lemma minerCoefficient_ok:
  assumes "dc_inv d" "windowSize (shares d) \<le> k"
  shows "\<exists>c l. minerCoefficient now k d = Some (c, d\<lparr>curHashRateLevel := l\<rparr>) \<and> 0 \<le> l \<and> l \<le> 8"
proof (cases "now \<le> startTime d")
  case True
  then show ?thesis using assms
    by (auto simp: minerCoefficient_def dc_inv_def intro!: exI [of _ "curHashRateLevel d"])
next
  case False
  obtain s where "sw_sum1 (shares d) k = Some s"
    using sw_sum1_total [of "shares d" k] assms by (auto simp: dc_inv_def)
  moreover obtain l where "0 \<le> l" "l \<le> 8"
    "adjustHashRateLevel (f64_of_int (uint s) * f64_of (2 ^ 32) div
       f64_of_int (if isFullWindow d now then kDiffWindow d else now - startTime d) div f64_of (10 ^ 12))
       (curHashRateLevel d) = Some l"
    using adjustHashRateLevel_ok assms(1) unfolding dc_inv_def by blast
  moreover from this have "\<exists>c. vec_get coefficients l = Some c" by (simp add: vec_get_def coefficients_def)
  ultimately show ?thesis using False by (auto simp: minerCoefficient_def Let_def)
qed

text \<open>Setting the start time or the level changes neither the difficulty nor the history.\<close>

lemma dc_adjusted_bookkeeping:
  assumes "dc_inv d" "0 \<le> l" "l \<le> 8"
  shows "dc_adjusted d (d\<lparr>startTime := t\<rparr>)" "dc_adjusted d (d\<lparr>curHashRateLevel := l\<rparr>)"
  using assms by (auto simp: dc_adjusted_def dc_inv_def dc_same_def dc_exact_def dc_work_def)

lemma expectedCount_ok:
  assumes "dc_inv d" "windowSize (shares d) \<le> k"
  shows "\<exists>ex d'. expectedCount now k d = Some (ex, d') \<and> dc_adjusted d d'"
proof -
  obtain c l where "minerCoefficient now k d = Some (c, d\<lparr>curHashRateLevel := l\<rparr>)" "0 \<le> l" "l \<le> 8"
    using minerCoefficient_ok [OF assms] by blast
  then show ?thesis using dc_adjusted_bookkeeping [OF assms(1)] dc_adjusted_refl [OF assms(1)]
    by (auto simp: expectedCount_def Let_def)
qed

lemma adjustDiff_ok:
  assumes inv: "dc_inv d" and w: "windowSize (sharesNum d) \<le> k"
  shows "\<exists>d'. adjustDiff now k cnt ex d = Some (curDiff d', d') \<and> dc_adjusted d d'"
proof -
  define ok where "ok r \<longleftrightarrow> (\<exists>d'. r = Some (curDiff d', d') \<and> dc_adjusted d d')" for r
  have keep: "ok (Some (curDiff d, d))" using dc_adjusted_refl [OF inv] by (simp add: ok_def)
  have fast: "ok (do { d' \<leftarrow> too_fast k ex d; Some (curDiff d', d') })"
    using too_fast_adjusted [OF inv w, of ex] by (auto simp: ok_def)
  have halve: "ok (Some (curDiff (halveDiff d), halveDiff d))" if "curDiff d \<ge> minDiff d * 2"
    using halveDiff_adjusted(1) [OF inv that] by (simp add: ok_def)
  have slow: "ok (do { d' \<leftarrow> too_slow k ex d; if curDiff d' \<ge> minDiff d' then Some (curDiff d', d') else None })"
    if g: "curDiff d \<ge> minDiff d * 2"
  proof -
    have "unat (minDiff d * 2) = 2 * unat (minDiff d)"
      using inv by (intro unat_double_u64) (auto simp: dc_inv_def)
    then have "curDiff d \<ge> minDiff d" using g by (simp add: word_le_nat_alt)
    then show ?thesis using too_slow_adjusted [OF inv w, of ex] by (auto simp: ok_def)
  qed
  have "ok (adjustDiff now k cnt ex d)"
    unfolding adjustDiff_def Let_def using keep fast halve slow by (simp split: if_split)
  then show ?thesis by (simp add: ok_def)
qed

lemma calcCurDiff0_ok:
  assumes inv: "dc_inv d0" and t: "dc_time d0 now"
  shows "\<exists>d'. calcCurDiff0 now now2 d0 = Some (curDiff d', d') \<and> dc_adjusted d0 d'"
proof -
  let ?k = "now div kRecordSeconds d0"
  let ?d1 = "if startTime d0 = 0 then d0\<lparr>startTime := now2\<rparr> else d0"
  note k = dc_windows_below [OF inv t]
  obtain s where s: "sw_sum1 (sharesNum d0) ?k = Some s"
    using sw_sum1_total [of "sharesNum d0" ?k] inv k by (auto simp: dc_inv_def)
  have a1: "dc_adjusted d0 ?d1"
    using dc_adjusted_bookkeeping(1) [OF inv, of 0] dc_adjusted_refl [OF inv] by auto
  have "dc_inv ?d1" "windowSize (shares ?d1) \<le> ?k" using a1 k by (simp_all add: dc_adjusted_def)
  then obtain ex d where e: "expectedCount now ?k ?d1 = Some (ex, d)" "dc_adjusted ?d1 d"
    using expectedCount_ok [of ?d1 ?k now] by blast
  have a: "dc_adjusted d0 d" and inv1: "dc_inv d"
    using dc_adjusted_trans [OF a1 e(2)] by (simp_all add: dc_adjusted_def)
  obtain d' where d': "adjustDiff now ?k s ex d = Some (curDiff d', d')" "dc_adjusted d d'"
    using adjustDiff_ok [OF inv1, of ?k now s ex] dc_adjusted_windowSize [OF inv a] k by auto
  have "calcCurDiff0 now now2 d0 = Some (curDiff d', d')"
    unfolding calcCurDiff0_def Let_def k(4) s e(1) using d'(1) inv by (simp add: s e(1) dc_inv_def)
  then show ?thesis using dc_adjusted_trans [OF a d'(2)] by blast
qed

lemma calcCurDiff_ok:
  assumes "dc_inv d" "dc_time d now"
  shows "\<exists>d'. calcCurDiff now now2 d = Some (max (minDiff d') (curDiff d'), d') \<and> dc_adjusted d d'"
proof -
  obtain d' where d': "calcCurDiff0 now now2 d = Some (curDiff d', d')" "dc_adjusted d d'"
    using calcCurDiff0_ok [OF assms] by blast
  then show ?thesis by (intro exI [of _ d']) (auto simp: calcCurDiff_def max_def)
qed

lemma addShare_ok:
  assumes "dc_inv d" "dc_time d now"
  shows "\<exists>d'. addShare now s d = Some d' \<and> dc_inv d' \<and> dc_same d d' \<and> (dc_exact d \<longrightarrow> dc_exact d')"
proof -
  let ?k = "now div kRecordSeconds d"
  note k = dc_windows_below [OF assms]
  have wf: "sw_wf (sharesNum d)" "sw_wf (shares d)" using assms by (simp_all add: dc_inv_def)
  obtain b1 w1 where w1: "sw_insert (sharesNum d) ?k 1 = Some (b1, w1)" "sw_wf w1"
    "windowSize w1 = windowSize (sharesNum d)" using sw_insert_total [OF wf(1) k(2), of 1] by auto
  obtain b2 w2 where w2: "sw_insert (shares d) ?k s = Some (b2, w2)" "sw_wf w2"
    "windowSize w2 = windowSize (shares d)" using sw_insert_total [OF wf(2) k(2), of s] by auto
  have "dc_exact d \<Longrightarrow> dc_exact (d\<lparr>sharesNum := w1, shares := w2\<rparr>)"
    using sw_insert_elems [OF w1(1)] by (auto simp: dc_exact_def)
  then show ?thesis using assms k w1 w2
    by (auto simp: addShare_def Let_def dc_inv_def dc_same_def)
qed

section \<open>Runs of the controller\<close>

text \<open>The calls a session makes on its miner's controller.\<close>

datatype dc_event =
    AddShare int u64
  | SetMinDiff u64
  | ResetCurDiff u64
  | CalcCurDiff int int

fun dc_step :: "diff_controller \<Rightarrow> dc_event \<Rightarrow> diff_controller option" where
  "dc_step d (AddShare now s) = addShare now s d"
| "dc_step d (SetMinDiff m) = Some (setMinDiff m d)"
| "dc_step d (ResetCurDiff c) = Some (resetCurDiff c d)"
| "dc_step d (CalcCurDiff now now2) = map_option snd (calcCurDiff now now2 d)"

text \<open>The clock is past the first whole window after the epoch.\<close>

fun dc_ok :: "int \<Rightarrow> dc_event \<Rightarrow> bool" where
  "dc_ok w (AddShare now s) = (w \<le> now)"
| "dc_ok w (SetMinDiff m) = True"
| "dc_ok w (ResetCurDiff c) = True"
| "dc_ok w (CalcCurDiff now now2) = (w \<le> now)"

text \<open>Every difficulty the session sets has gone through \<open>formatDifficulty\<close>.\<close>

fun dc_formatted :: "dc_event \<Rightarrow> bool" where
  "dc_formatted (SetMinDiff m) = is_pow2 m"
| "dc_formatted (ResetCurDiff c) = is_pow2 c"
| "dc_formatted _ = True"

lemma dc_exact_set [simp]:
  "dc_exact d \<Longrightarrow> is_pow2 m \<Longrightarrow> dc_exact (setMinDiff m d)"
  "dc_exact d \<Longrightarrow> is_pow2 m \<Longrightarrow> dc_exact (resetCurDiff m d)"
  by (auto simp: dc_exact_def setMinDiff_def setCurDiff_def resetCurDiff_def Let_def sw_mapMultiply_def)

lemma dc_same_set [simp]: "kDiffWindow (setMinDiff m d) = kDiffWindow d"
  "kDiffWindow (resetCurDiff m d) = kDiffWindow d"
  "kMaxDiff (setMinDiff m d) = kMaxDiff d" "kMaxDiff (resetCurDiff m d) = kMaxDiff d"
  by (auto simp: setMinDiff_def setCurDiff_def resetCurDiff_def Let_def)

lemma dc_step_ok:
  assumes "dc_inv d" "kDiffWindow d = w" "kMaxDiff d = mx" "dc_ok w e"
  shows "\<exists>d'. dc_step d e = Some d' \<and> dc_inv d' \<and> kDiffWindow d' = w \<and> kMaxDiff d' = mx \<and>
           (dc_formatted e \<longrightarrow> dc_exact d \<longrightarrow> dc_exact d')"
proof (cases e)
  case (AddShare now s)
  then show ?thesis using addShare_ok [OF assms(1), of now s] assms by (auto simp: dc_time_def dc_same_def)
next
  case (CalcCurDiff now now2)
  then show ?thesis using calcCurDiff_ok [OF assms(1), of now now2] assms
    by (auto simp: dc_time_def dc_same_def dc_adjusted_def)
qed (use assms in auto)

interpretation dc: event_handler dc_step "\<lambda>d. dc_inv d \<and> kDiffWindow d = w \<and> kMaxDiff d = mx" "dc_ok w" for w mx
  by unfold_locales (use dc_step_ok in blast)

interpretation dcx: event_handler dc_step "\<lambda>d. dc_inv d \<and> kDiffWindow d = w \<and> kMaxDiff d = mx \<and> dc_exact d"
    "\<lambda>e. dc_ok w e \<and> dc_formatted e" for w mx
  by unfold_locales (use dc_step_ok in blast)

lemma dc_exact_new:
  assumes "dc_new df mx mn sa da = Some d" "is_pow2 df" "is_pow2 mx" "is_pow2 mn"
  shows "dc_exact d"
  using assms by (auto simp: dc_new_def bind_eq_Some_conv dc_exact_def setMinDiff_def setCurDiff_def
      resetCurDiff_def Let_def sw_mapMultiply_def split: if_splits)

lemma kMaxDiff_new: "dc_new df mx mn sa da = Some d \<Longrightarrow> kMaxDiff d = mx"
  by (auto simp: dc_new_def bind_eq_Some_conv split: if_splits)

text \<open>
  C9. Whatever shares arrive, whatever difficulties the miner suggests and whenever a job is
  sent, after the construction of a controller every call returns: no access leaves a window,
  no assertion fails, no loop runs forever. The difficulty it then gives a miner lies between
  the worker's minimum and the pool's maximum.
\<close>

theorem dc_run_returns:
  assumes "dc_new df mx mn sa da = Some d" "list_all (dc_ok (uint da)) es" "uint da \<le> now"
  shows "\<exists>d' diff d''. run dc_step d es = Some d' \<and> calcCurDiff now now2 d' = Some (diff, d'') \<and>
           minDiff d' \<le> diff \<and> diff \<le> mx"
proof -
  obtain d' where d': "run dc_step d es = Some d'" "dc_inv d'" "kDiffWindow d' = uint da" "kMaxDiff d' = mx"
    using dc.run_ok [of d "uint da" mx es] dc_inv_new [OF assms(1)] kMaxDiff_new [OF assms(1)] assms(2) by blast
  obtain d'' where "calcCurDiff now now2 d' = Some (max (minDiff d'') (curDiff d''), d'')" "dc_adjusted d' d''"
    using calcCurDiff_ok [OF d'(2), of now now2] d'(3) assms(3) by (auto simp: dc_time_def)
  then show ?thesis using d' by (auto simp: dc_adjusted_def dc_same_def dc_inv_def)
qed

theorem dc_run_returns_witness:
  "\<exists>d d' diff d''. dc_new 64 1024 2 10 60 = Some d \<and>
     run dc_step d [AddShare 1000 64, SetMinDiff 8, CalcCurDiff 1010 1010, ResetCurDiff 4096] = Some d' \<and>
     calcCurDiff 2000 2000 d' = Some (diff, d'') \<and> minDiff d' \<le> diff \<and> diff \<le> 1024"
proof -
  obtain d where d: "dc_new 64 1024 2 10 60 = Some d" by (simp add: dc_new_def sw_new_def)
  show ?thesis
    using dc_run_returns [OF d, of "[AddShare 1000 64, SetMinDiff 8, CalcCurDiff 1010 1010, ResetCurDiff 4096]" 2000 2000] d
    by auto
qed

text \<open>
  C10. When the configured and the suggested difficulties have gone through
  \<open>formatDifficulty\<close>, every difficulty the controller gives out is a power of two, and a
  recalculation changes no miner's estimated work: in every bucket the product of the
  difficulty and the recorded number of shares is what it was before, without rounding.
\<close>

theorem dc_run_conserves_work:
  assumes "dc_new df mx mn sa da = Some d" "is_pow2 df" "is_pow2 mx" "is_pow2 mn"
    "list_all (\<lambda>e. dc_ok (uint da) e \<and> dc_formatted e) es" "uint da \<le> now"
  shows "\<exists>d' diff d''. run dc_step d es = Some d' \<and> calcCurDiff now now2 d' = Some (diff, d'') \<and>
           is_pow2 diff \<and> dc_work d'' = dc_work d'"
proof -
  obtain d' where d': "run dc_step d es = Some d'" "dc_inv d'" "kDiffWindow d' = uint da" "dc_exact d'"
    using dcx.run_ok [of d "uint da" mx es] dc_inv_new [OF assms(1)] kMaxDiff_new [OF assms(1)]
      dc_exact_new [OF assms(1-4)] assms(5) by blast
  obtain d'' where "calcCurDiff now now2 d' = Some (max (minDiff d'') (curDiff d''), d'')" "dc_adjusted d' d''"
    using calcCurDiff_ok [OF d'(2), of now now2] d'(3) assms(6) by (auto simp: dc_time_def)
  then show ?thesis using d' by (auto simp: dc_adjusted_def dc_exact_def max_def)
qed

theorem dc_run_conserves_work_witness:
  "\<exists>d d' diff d''. dc_new 64 1024 2 10 60 = Some d \<and>
     run dc_step d [AddShare 1000 64, SetMinDiff 8, CalcCurDiff 1010 1010] = Some d' \<and>
     calcCurDiff 2000 2000 d' = Some (diff, d'') \<and> is_pow2 diff \<and> dc_work d'' = dc_work d'"
proof -
  obtain d where d: "dc_new 64 1024 2 10 60 = Some d" by (simp add: dc_new_def sw_new_def)
  have p: "is_pow2 64" "is_pow2 1024" "is_pow2 2" "is_pow2 8" unfolding is_pow2_def
    by (rule exI [of _ 6], simp) (rule exI [of _ 10], simp, rule exI [of _ 1], simp, rule exI [of _ 3], simp)
  show ?thesis
    using dc_run_conserves_work [OF d p(1-3), of "[AddShare 1000 64, SetMinDiff 8, CalcCurDiff 1010 1010]" 2000 2000] d p
    by auto
qed

section \<open>Why the maximum is capped\<close>

text \<open>
  The constructor refuses a maximum above \<open>2^62\<close>. Its comment explains that with \<open>2^63\<close> the
  doubled minimum wraps to zero and the loop for slow miners does not end.
\<close>

lemma sw_sum_loop_zero:
  "set (elements w) \<subseteq> {0::f64} \<Longrightarrow> sw_sum_loop w b e 0 = Some s \<Longrightarrow> s = 0"
proof (induction w b e "0::f64" rule: sw_sum_loop.induct)
  case (1 w b e)
  show ?case
  proof (cases "b > e")
    case True
    then obtain x where x: "vec_get (elements w) (b smod windowSize w) = Some x"
      using 1(3) by (auto simp: sw_sum_loop.simps [of w b] split: option.splits)
    then have "x \<in> set (elements w)" by (auto simp: vec_get_def split: if_splits)
    then have "x = 0" using 1(2) by blast
    then show ?thesis using 1 True x by (simp add: sw_sum_loop.simps [of w b])
  qed (use 1(3) in \<open>simp add: sw_sum_loop.simps [of w b]\<close>)
qed

definition dc_at_2_63 :: "diff_controller \<Rightarrow> bool" where
  "dc_at_2_63 d \<longleftrightarrow> kMinDiff d = 0x8000000000000000 \<and> kMaxDiff d = 0x8000000000000000 \<and>
     minDiff d = 0x8000000000000000 \<and> curDiff d = 0x8000000000000000 \<and> set (elements (sharesNum d)) \<subseteq> {0}"

lemma halveDiff_at_2_63: "dc_at_2_63 d \<Longrightarrow> dc_at_2_63 (halveDiff d)"
  by (auto simp: dc_at_2_63_def halveDiff_def setCurDiff_def Let_def sw_mapMultiply_def)

text \<open>
  Without the cap the comment is right: a controller whose minimum, maximum and current
  difficulty are \<open>2^63\<close> and that has seen no share never leaves the loop.
\<close>

theorem too_slow_diverges_at_2_63:
  assumes "dc_at_2_63 d" "0 < ex"
  shows "too_slow k ex d = None"
proof -
  have "dc_at_2_63 d \<longrightarrow> 0 < ex \<longrightarrow> False" if t: "too_slow k ex d = Some r" for d k ex r
  proof (rule too_slow.raw_induct [OF _ t, where P = "\<lambda>k ex d r. dc_at_2_63 d \<longrightarrow> 0 < ex \<longrightarrow> False"],
      intro impI, goal_cases)
    case (1 ts k ex d r)
    obtain s where s: "sw_sum1 (sharesNum d) k = Some s" using 1(2) by (auto simp: bind_eq_Some_conv)
    then have "s = 0" using 1(3) sw_sum_loop_zero [of "sharesNum d"]
      by (auto simp: dc_at_2_63_def sw_sum1_def sw_sum_def Let_def split: if_splits)
    moreover have "0 < ex * f64_of (40/100)" using 1(4) by (intro f64_pos_ops) auto
    ultimately have "ts k ex (halveDiff d) = Some r"
      using 1(2,3) s by (auto simp: dc_at_2_63_def)
    then show ?case using 1 halveDiff_at_2_63 by blast
  qed
  then show ?thesis using assms by (cases "too_slow k ex d") auto
qed

theorem too_slow_diverges_at_2_63_witness:
  "too_slow 100 (f64_of 30)
     \<lparr>kMaxDiff = 0x8000000000000000, kMinDiff = 0x8000000000000000, kDiffWindow = 300, kRecordSeconds = 10,
      startTime = 1, minDiff = 0x8000000000000000, curDiff = 0x8000000000000000, curHashRateLevel = 0,
      sharesNum = \<lparr>maxRingIdx = -1, windowSize = 30, elements = replicate 30 0\<rparr>,
      shares = \<lparr>maxRingIdx = -1, windowSize = 30, elements = replicate 30 0\<rparr>\<rparr> = None"
  by (rule too_slow_diverges_at_2_63) (auto simp: dc_at_2_63_def f64_pos_ops)

end
