(* ===== verification/Arith_Uint256.thy ===== *)
theory Arith_Uint256
  imports Float64
begin

text \<open>
  \<open>base_uint<256>\<close> and \<open>arith_uint256\<close> of \<open>tools/common/arith_uint256.{h,cpp}\<close>: a number is the
  array \<open>pn\<close> of eight 32-bit limbs, least significant first, and every operator is the loop over
  the limbs that the code has, with its 64-bit carry. The lemmas show that the loops compute the
  operations on natural numbers modulo \<open>2^256\<close>, through the value \<open>au_val\<close> of the limbs; the
  division loop ends with the quotient, and \<open>GetCompact\<close> with \<open>SetCompact\<close> form a round trip.
\<close>

section \<open>Limbs\<close>

type_synonym base_uint = "u32 list"

abbreviation WIDTH :: nat where "WIDTH \<equiv> 8"

fun au_val :: "base_uint \<Rightarrow> nat" where
  "au_val [] = 0"
| "au_val (x # xs) = unat x + 2 ^ 32 * au_val xs"

definition au_zero :: base_uint where
  "au_zero = replicate WIDTH 0"

definition au_of_u64 :: "u64 \<Rightarrow> base_uint" where
  "au_of_u64 b = [ucast b, ucast (drop_bit 32 b)] @ replicate (WIDTH - 2) 0"

definition au_isZero :: "base_uint \<Rightarrow> bool" where
  "au_isZero a \<longleftrightarrow> list_all (\<lambda>p. p = 0) a"

definition au_not :: "base_uint \<Rightarrow> base_uint" where
  "au_not a = map (\<lambda>p. NOT p) a"

definition au_xor :: "base_uint \<Rightarrow> base_uint \<Rightarrow> base_uint" where
  "au_xor a b = map2 (XOR) a b"

definition au_and :: "base_uint \<Rightarrow> base_uint \<Rightarrow> base_uint" where
  "au_and a b = map2 (AND) a b"

definition au_or :: "base_uint \<Rightarrow> base_uint \<Rightarrow> base_uint" where
  "au_or a b = map2 (OR) a b"

section \<open>Addition and subtraction\<close>

fun au_inc :: "base_uint \<Rightarrow> base_uint" where
  "au_inc [] = []"
| "au_inc (p # ps) = (if p + 1 = 0 then (p + 1) # au_inc ps else (p + 1) # ps)"

fun au_dec :: "base_uint \<Rightarrow> base_uint" where
  "au_dec [] = []"
| "au_dec (p # ps) = (if p - 1 = - 1 then (p - 1) # au_dec ps else (p - 1) # ps)"

definition au_neg :: "base_uint \<Rightarrow> base_uint" where
  "au_neg a = au_inc (au_not a)"

fun au_add_loop :: "u64 \<Rightarrow> base_uint \<Rightarrow> base_uint \<Rightarrow> base_uint" where
  "au_add_loop carry (p # ps) (b # bs) =
     (let n = carry + ucast p + ucast b
      in ucast (n AND 0xffffffff) # au_add_loop (drop_bit 32 n) ps bs)"
| "au_add_loop carry ps bs = []"

definition au_add :: "base_uint \<Rightarrow> base_uint \<Rightarrow> base_uint" where
  "au_add a b = au_add_loop 0 a b"

definition au_sub :: "base_uint \<Rightarrow> base_uint \<Rightarrow> base_uint" where
  "au_sub a b = au_add a (au_neg b)"

section \<open>Shifts\<close>

definition au_shl_step :: "base_uint \<Rightarrow> nat \<Rightarrow> nat \<Rightarrow> nat \<Rightarrow> base_uint \<Rightarrow> base_uint" where
  "au_shl_step a k s i pn =
     (let pn' = if i + k + 1 < WIDTH \<and> s \<noteq> 0
                then pn[i + k + 1 := pn ! (i + k + 1) OR drop_bit (32 - s) (a ! i)] else pn
      in if i + k < WIDTH then pn'[i + k := pn' ! (i + k) OR push_bit s (a ! i)] else pn')"

definition au_shl :: "base_uint \<Rightarrow> nat \<Rightarrow> base_uint" where
  "au_shl a shift = fold (au_shl_step a (shift div 32) (shift mod 32)) [0..<WIDTH] au_zero"

definition au_shr_step :: "base_uint \<Rightarrow> nat \<Rightarrow> nat \<Rightarrow> nat \<Rightarrow> base_uint \<Rightarrow> base_uint" where
  "au_shr_step a k s i pn =
     (let pn' = if k + 1 \<le> i \<and> s \<noteq> 0
                then pn[i - k - 1 := pn ! (i - k - 1) OR push_bit (32 - s) (a ! i)] else pn
      in if k \<le> i then pn'[i - k := pn' ! (i - k) OR drop_bit s (a ! i)] else pn')"

definition au_shr :: "base_uint \<Rightarrow> nat \<Rightarrow> base_uint" where
  "au_shr a shift = fold (au_shr_step a (shift div 32) (shift mod 32)) [0..<WIDTH] au_zero"

section \<open>Multiplication\<close>

fun au_mul32_loop :: "u64 \<Rightarrow> u32 \<Rightarrow> base_uint \<Rightarrow> base_uint" where
  "au_mul32_loop carry b32 [] = []"
| "au_mul32_loop carry b32 (p # ps) =
     (let n = carry + ucast b32 * ucast p
      in ucast (n AND 0xffffffff) # au_mul32_loop (drop_bit 32 n) b32 ps)"

definition au_mul32 :: "base_uint \<Rightarrow> u32 \<Rightarrow> base_uint" where
  "au_mul32 a b32 = au_mul32_loop 0 b32 a"

text \<open>The inner loop of \<open>*=\<close> works on the limbs of the result from \<open>pn[j]\<close> on.\<close>

fun au_mul_row :: "u64 \<Rightarrow> u32 \<Rightarrow> base_uint \<Rightarrow> base_uint \<Rightarrow> base_uint" where
  "au_mul_row carry aj (p # ps) (b # bs) =
     (let n = carry + ucast p + ucast aj * ucast b
      in ucast (n AND 0xffffffff) # au_mul_row (drop_bit 32 n) aj ps bs)"
| "au_mul_row carry aj ps bs = ps"

definition au_mul :: "base_uint \<Rightarrow> base_uint \<Rightarrow> base_uint" where
  "au_mul a b = fold (\<lambda>j pn. take j pn @ au_mul_row 0 (a ! j) (drop j pn) b) [0..<WIDTH] au_zero"

section \<open>Comparison, bits\<close>

text \<open>\<open>CompareTo\<close> reads the limbs from the most significant one; \<open>Suc i\<close> stands for \<open>i\<close> of the loop.\<close>

fun au_cmp_loop :: "base_uint \<Rightarrow> base_uint \<Rightarrow> nat \<Rightarrow> int" where
  "au_cmp_loop a b 0 = 0"
| "au_cmp_loop a b (Suc i) =
     (if a ! i < b ! i then - 1 else if b ! i < a ! i then 1 else au_cmp_loop a b i)"

definition CompareTo :: "base_uint \<Rightarrow> base_uint \<Rightarrow> int" where
  "CompareTo a b = au_cmp_loop a b WIDTH"

definition EqualTo :: "base_uint \<Rightarrow> u64 \<Rightarrow> bool" where
  "EqualTo a b \<longleftrightarrow> list_all (\<lambda>p. p = 0) (drop 2 a) \<and> ucast (a ! 1) = drop_bit 32 b \<and>
     ucast (a ! 0) = b AND 0xffffffff"

fun au_nbits :: "u32 \<Rightarrow> nat \<Rightarrow> nat" where
  "au_nbits p 0 = 1"
| "au_nbits p (Suc n) = (if p AND push_bit (Suc n) 1 \<noteq> 0 then Suc n + 1 else au_nbits p n)"

fun au_bits_loop :: "base_uint \<Rightarrow> nat \<Rightarrow> nat" where
  "au_bits_loop a 0 = 0"
| "au_bits_loop a (Suc pos) = (if a ! pos \<noteq> 0 then 32 * pos + au_nbits (a ! pos) 31 else au_bits_loop a pos)"

definition au_bits :: "base_uint \<Rightarrow> nat" where
  "au_bits a = au_bits_loop a WIDTH"

definition GetLow64 :: "base_uint \<Rightarrow> u64" where
  "GetLow64 a = ucast (a ! 0) OR push_bit 32 (ucast (a ! 1))"

definition getdouble :: "base_uint \<Rightarrow> f64" where
  "getdouble a = fst (foldl (\<lambda>(ret, fact) p. (ret + fact * f64_of_int (uint p), fact * f64_of 4294967296)) (0, 1) a)"

section \<open>Division\<close>

text \<open>\<open>Suc n\<close> passes are left when \<open>shift\<close> is \<open>n\<close>. The state is \<open>num\<close>, \<open>div\<close> and the quotient \<open>pn\<close>.\<close>

fun au_div_loop :: "nat \<Rightarrow> base_uint \<Rightarrow> base_uint \<Rightarrow> base_uint \<Rightarrow> base_uint" where
  "au_div_loop 0 num dv pn = pn"
| "au_div_loop (Suc shift) num dv pn =
     (let ge = CompareTo num dv \<ge> 0;
          num' = if ge then au_sub num dv else num;
          pn' = if ge then pn[shift div 32 := pn ! (shift div 32) OR push_bit (shift mod 32) 1] else pn
      in au_div_loop shift num' (au_shr dv 1) pn')"

text \<open>\<^term>\<open>None\<close> is the exception \<open>uint_error("Division by zero")\<close>.\<close>

definition au_div :: "base_uint \<Rightarrow> base_uint \<Rightarrow> base_uint option" where
  "au_div a b =
     (let num_bits = au_bits a; div_bits = au_bits b
      in if div_bits = 0 then None
         else if div_bits > num_bits then Some au_zero
         else let shift = num_bits - div_bits
              in Some (au_div_loop (Suc shift) a (au_shl b shift) au_zero))"

section \<open>The compact form\<close>

definition SetCompact :: "u32 \<Rightarrow> base_uint \<times> bool \<times> bool" where
  "SetCompact nCompact =
     (let nSize = unat (drop_bit 24 nCompact);
          w = nCompact AND 0x007fffff;
          nWord = if nSize \<le> 3 then drop_bit (8 * (3 - nSize)) w else w;
          r = if nSize \<le> 3 then au_of_u64 (ucast nWord) else au_shl (au_of_u64 (ucast nWord)) (8 * (nSize - 3))
      in (r, nWord \<noteq> 0 \<and> nCompact AND 0x00800000 \<noteq> 0,
          nWord \<noteq> 0 \<and> (nSize > 34 \<or> nWord > 0xff \<and> nSize > 33 \<or> nWord > 0xffff \<and> nSize > 32)))"

definition compact_value :: "u32 \<Rightarrow> base_uint" where
  "compact_value nCompact = fst (SetCompact nCompact)"

text \<open>\<open>GetCompact\<close>; \<^term>\<open>None\<close> stands for a failed \<open>assert\<close>.\<close>

definition GetCompact :: "bool \<Rightarrow> base_uint \<Rightarrow> u32 option" where
  "GetCompact fNegative a =
     (let nSize = (au_bits a + 7) div 8;
          nCompact = if nSize \<le> 3 then ucast (push_bit (8 * (3 - nSize)) (GetLow64 a))
                     else ucast (GetLow64 (au_shr a (8 * (nSize - 3)))) :: u32;
          big = nCompact AND 0x00800000 \<noteq> 0;
          nCompact' = if big then drop_bit 8 nCompact else nCompact;
          nSize' = if big then nSize + 1 else nSize
      in if nCompact' AND NOT 0x007fffff \<noteq> 0 \<or> nSize' \<ge> 256 then None
         else let c = nCompact' OR push_bit 24 (of_nat nSize')
              in Some (c OR (if fNegative \<and> c AND 0x007fffff \<noteq> 0 then 0x00800000 else 0)))"

section \<open>The byte form\<close>

definition WriteLE32 :: "u32 \<Rightarrow> bytes" where
  "WriteLE32 x = [ucast x, ucast (drop_bit 8 x), ucast (drop_bit 16 x), ucast (drop_bit 24 x)]"

definition ReadLE32 :: "bytes \<Rightarrow> u32" where
  "ReadLE32 p = ucast (p ! 0) OR push_bit 8 (ucast (p ! 1)) OR push_bit 16 (ucast (p ! 2)) OR push_bit 24 (ucast (p ! 3))"

definition ArithToUint256 :: "base_uint \<Rightarrow> bytes" where
  "ArithToUint256 a = concat (map WriteLE32 a)"

definition UintToArith256 :: "bytes \<Rightarrow> base_uint" where
  "UintToArith256 d = map (\<lambda>x. ReadLE32 (drop (x * 4) d)) [0..<WIDTH]"

section \<open>Values of limbs\<close>

lemma au_val_less: "au_val a < 2 ^ (32 * length a)"
proof (induction a)
  case (Cons x xs)
  have "unat x < 2 ^ 32" using unsigned_less [of x, where 'a = nat] by simp
  moreover have "au_val xs + 1 \<le> 2 ^ (32 * length xs)" using Cons by simp
  then have "2 ^ 32 * (au_val xs + 1) \<le> 2 ^ 32 * (2::nat) ^ (32 * length xs)" by (rule mult_le_mono2)
  ultimately show ?case by (simp add: power_add)
qed simp

lemma au_val_append: "au_val (a @ b) = au_val a + 2 ^ (32 * length a) * au_val b"
  by (induction a) (simp_all add: power_add algebra_simps)

lemma au_val_replicate_0 [simp]: "au_val (replicate n 0) = 0"
  by (induction n) simp_all

lemma au_zero_simps [simp]: "au_val au_zero = 0" "length au_zero = WIDTH"
  by (simp_all only: au_zero_def au_val_replicate_0 length_replicate)

lemma au_zero_nth [simp]: "m < WIDTH \<Longrightarrow> au_zero ! m = 0"
  unfolding au_zero_def by (rule nth_replicate)

lemma limb_mod:
  fixes x :: nat
  assumes "x < k"
  shows "x + k * (y mod m) = (x + k * y) mod (k * m)"
  using assms by (simp add: mod_mult2_eq)

lemma limb_divmod: "x < k \<Longrightarrow> (x + k * y) div k = (y::nat)" "x < k \<Longrightarrow> (x + k * y) mod k = (x::nat)"
  by simp_all

lemma limb_of_u64:
  "unat (ucast (n AND 0xffffffff :: u64) :: u32) = unat n mod 2 ^ 32"
  "unat (drop_bit 32 n :: u64) = unat n div 2 ^ 32"
proof -
  have "n AND 0xffffffff = take_bit 32 n" by (simp add: take_bit_eq_mask mask_eq_exp_minus_1)
  then show "unat (ucast (n AND 0xffffffff :: u64) :: u32) = unat n mod 2 ^ 32"
    by (simp add: unsigned_ucast_eq unsigned_take_bit_eq take_bit_nat_def)
  show "unat (drop_bit 32 n :: u64) = unat n div 2 ^ 32"
    by (simp add: drop_bit_eq_div unat_div)
qed

lemma limb_bound: "unat (x :: u32) \<le> 4294967295"
  using unsigned_less [of x, where 'a = nat] by simp

lemma unat_limb_u64 [simp]: "unat (ucast (x :: u32) :: u64) = unat x"
  by (simp add: unsigned_ucast_eq take_bit_nat_eq_self limb_bound order.strict_trans1 [OF limb_bound])

section \<open>The operators on values\<close>

lemma au_add_loop_val:
  assumes "length a = length b" "unat c < 2 ^ 32"
  shows "length (au_add_loop c a b) = length b \<and>
     au_val (au_add_loop c a b) = (unat c + au_val a + au_val b) mod 2 ^ (32 * length b)"
  using assms
proof (induction c a b rule: au_add_loop.induct)
  case (1 c p ps b bs)
  let ?n = "c + ucast p + ucast b :: u64"
  have n: "unat ?n = unat c + unat p + unat b"
    using 1(3) limb_bound [of p] limb_bound [of b] by (simp add: unat_word_ariths)
  have "unat (drop_bit 32 ?n) < 2 ^ 32"
    using n 1(3) limb_bound [of p] limb_bound [of b] by (simp add: limb_of_u64)
  then have ih: "length (au_add_loop (drop_bit 32 ?n) ps bs) = length bs"
    "au_val (au_add_loop (drop_bit 32 ?n) ps bs) = (unat (drop_bit 32 ?n) + au_val ps + au_val bs) mod 2 ^ (32 * length bs)"
    using 1 by auto
  have "unat ?n mod 2 ^ 32 + 2 ^ 32 * (unat ?n div 2 ^ 32 + au_val ps + au_val bs) =
      unat c + au_val (p # ps) + au_val (b # bs)"
    using n by (simp add: algebra_simps)
  then show ?case using ih(1)
    by (simp add: Let_def ih(2) limb_of_u64 limb_mod power_add del: power_numeral)
qed simp_all

lemma limb_inc: "unat (p + 1 :: u32) = (unat p + 1) mod 2 ^ 32"
  by (simp add: unat_word_ariths)

lemma limb_inc_0: "p + 1 = (0 :: u32) \<longleftrightarrow> unat p = 4294967295"
proof -
  have "unat (p + 1) = 0 \<longleftrightarrow> unat p = 4294967295"
    using limb_inc [of p] limb_bound [of p] by (auto dest: dvd_imp_le)
  then show ?thesis by (simp only: word_unat_eq_iff unsigned_0)
qed

lemma au_inc_val: "length (au_inc a) = length a \<and> au_val (au_inc a) = (au_val a + 1) mod 2 ^ (32 * length a)"
proof (induction a)
  case (Cons p ps)
  show ?case
  proof (cases "p + 1 = 0")
    case True
    have "(2::nat) ^ 32 * ((au_val ps + 1) mod 2 ^ (32 * length ps)) = (0 + 2 ^ 32 * (au_val ps + 1)) mod (2 ^ 32 * 2 ^ (32 * length ps))"
      by (subst limb_mod [symmetric]) simp_all
    then show ?thesis using Cons True limb_inc_0 [of p] by (simp add: power_add)
  next
    case False
    then have "unat (p + 1) = unat p + 1"
      using limb_inc [of p] limb_inc_0 [of p] limb_bound [of p] by (simp add: mod_less)
    then show ?thesis using False au_val_less [of "(p + 1) # ps"] by (simp add: power_add)
  qed
qed simp

lemma au_not_val: "length (au_not a) = length a \<and> au_val (au_not a) + au_val a + 1 = 2 ^ (32 * length a)"
proof (induction a)
  case (Cons p ps)
  have "unat (NOT p) + unat p = 4294967295"
  proof -
    have "unat (- 1 - p) = unat (- 1 :: u32) - unat p" by (rule unat_sub) simp
    moreover have "NOT p = - 1 - p" by (simp add: not_eq_complement)
    ultimately show ?thesis using limb_bound [of p] by (simp only: unsigned_minus_1_eq_mask mask_eq_exp_minus_1) simp
  qed
  then show ?case using Cons by (simp add: au_not_def power_add algebra_simps)
qed (simp add: au_not_def)

lemma au_neg_val: "length (au_neg a) = length a \<and> au_val (au_neg a) = (2 ^ (32 * length a) - au_val a) mod 2 ^ (32 * length a)"
proof -
  have "au_val (au_not a) + 1 = 2 ^ (32 * length a) - au_val a" using au_not_val [of a] by linarith
  then show ?thesis using au_inc_val [of "au_not a"] au_not_val [of a] by (simp add: au_neg_def)
qed

lemma au_add_val:
  assumes "length a = length b"
  shows "length (au_add a b) = length b" "au_val (au_add a b) = (au_val a + au_val b) mod 2 ^ (32 * length b)"
  using au_add_loop_val [of a b 0] assms by (simp_all add: au_add_def)

lemma au_sub_mod:
  assumes "length a = length b"
  shows "length (au_sub a b) = length b"
    "au_val (au_sub a b) = (au_val a + (2 ^ (32 * length b) - au_val b)) mod 2 ^ (32 * length b)"
proof -
  have l: "length a = length (au_neg b)" using assms au_neg_val by simp
  show "length (au_sub a b) = length b" using au_add_val(1) [OF l] au_neg_val by (simp add: au_sub_def)
  show "au_val (au_sub a b) = (au_val a + (2 ^ (32 * length b) - au_val b)) mod 2 ^ (32 * length b)"
    using au_add_val(2) [OF l] au_neg_val [of b] by (simp add: au_sub_def mod_add_right_eq)
qed

lemma au_sub_val:
  assumes "length a = length b" "au_val b \<le> au_val a"
  shows "length (au_sub a b) = length b" "au_val (au_sub a b) = au_val a - au_val b"
proof -
  show "length (au_sub a b) = length b" using au_sub_mod(1) [OF assms(1)] .
  have "au_val a + (2 ^ (32 * length b) - au_val b) = au_val a - au_val b + 2 ^ (32 * length b)"
    using assms(2) au_val_less [of b] by linarith
  also have "\<dots> mod 2 ^ (32 * length b) = au_val a - au_val b"
    using au_val_less [of a] assms(1) by (simp add: less_imp_diff_less)
  finally show "au_val (au_sub a b) = au_val a - au_val b" using au_sub_mod(2) [OF assms(1)] by simp
qed

lemma au_mul32_loop_val:
  assumes "unat c < 2 ^ 32"
  shows "length (au_mul32_loop c b a) = length a \<and>
     au_val (au_mul32_loop c b a) = (unat c + unat b * au_val a) mod 2 ^ (32 * length a)"
  using assms
proof (induction a arbitrary: c)
  case (Cons p ps)
  let ?n = "c + ucast b * ucast p :: u64"
  have le: "unat b * unat p \<le> 4294967295 * 4294967295" by (intro mult_le_mono limb_bound)
  then have n: "unat ?n = unat c + unat b * unat p"
    using Cons(2) by (simp add: unat_word_ariths)
  have "unat (drop_bit 32 ?n) < 2 ^ 32"
    using n Cons(2) le by (simp add: limb_of_u64)
  note ih = Cons(1) [OF this]
  have "unat ?n mod 2 ^ 32 + 2 ^ 32 * (unat ?n div 2 ^ 32 + unat b * au_val ps) = unat c + unat b * au_val (p # ps)"
    using n by (simp add: algebra_simps)
  then show ?case using ih
    by (simp add: Let_def limb_of_u64 limb_mod power_add del: power_numeral)
qed simp

lemma au_mul32_val: "au_val (au_mul32 a b) = (unat b * au_val a) mod 2 ^ (32 * length a)"
  using au_mul32_loop_val [of 0 b a] by (simp add: au_mul32_def)

lemma au_mul_row_val:
  assumes "length ps \<le> length bs" "unat c < 2 ^ 32"
  shows "length (au_mul_row c aj ps bs) = length ps \<and>
     au_val (au_mul_row c aj ps bs) = (unat c + au_val ps + unat aj * au_val bs) mod 2 ^ (32 * length ps)"
  using assms
proof (induction c aj ps bs rule: au_mul_row.induct)
  case (1 c aj p ps b bs)
  let ?n = "c + ucast p + ucast aj * ucast b :: u64"
  have le: "unat aj * unat b \<le> 4294967295 * 4294967295" by (intro mult_le_mono limb_bound)
  then have n: "unat ?n = unat c + unat p + unat aj * unat b"
    using 1(3) limb_bound [of p] by (simp add: unat_word_ariths)
  have "unat (drop_bit 32 ?n) < 2 ^ 32"
    using n 1(3) le limb_bound [of p] by (simp add: limb_of_u64)
  then have ih: "length (au_mul_row (drop_bit 32 ?n) aj ps bs) = length ps"
    "au_val (au_mul_row (drop_bit 32 ?n) aj ps bs) =
       (unat (drop_bit 32 ?n) + au_val ps + unat aj * au_val bs) mod 2 ^ (32 * length ps)"
    using 1 by auto
  have "unat ?n mod 2 ^ 32 + 2 ^ 32 * (unat ?n div 2 ^ 32 + au_val ps + unat aj * au_val bs) =
      unat c + au_val (p # ps) + unat aj * au_val (b # bs)"
    using n by (simp add: algebra_simps)
  then show ?case using ih(1)
    by (simp add: Let_def ih(2) limb_of_u64 limb_mod power_add del: power_numeral)
qed simp_all

lemma au_val_take_Suc:
  "j < length a \<Longrightarrow> au_val (take (Suc j) a) = au_val (take j a) + 2 ^ (32 * j) * unat (a ! j)"
  by (simp add: take_Suc_conv_app_nth au_val_append)

lemma au_mul_val:
  assumes "length a = WIDTH" "length b = WIDTH"
  shows "length (au_mul a b) = WIDTH \<and> au_val (au_mul a b) = (au_val a * au_val b) mod 2 ^ 256"
proof -
  let ?f = "\<lambda>j pn. take j pn @ au_mul_row 0 (a ! j) (drop j pn) b"
  have "length (fold ?f [0..<n] au_zero) = WIDTH \<and>
      au_val (fold ?f [0..<n] au_zero) = (au_val (take n a) * au_val b) mod 2 ^ 256" if "n \<le> WIDTH" for n
    using that
  proof (induction n)
    case (Suc n)
    let ?pn = "fold ?f [0..<n] au_zero"
    have ih: "length ?pn = WIDTH" "au_val ?pn = (au_val (take n a) * au_val b) mod 2 ^ 256" using Suc by auto
    have r: "length (au_mul_row 0 (a ! n) (drop n ?pn) b) = WIDTH - n"
      "au_val (au_mul_row 0 (a ! n) (drop n ?pn) b) =
        (au_val (drop n ?pn) + unat (a ! n) * au_val b) mod 2 ^ (32 * (WIDTH - n))"
      using au_mul_row_val [of "drop n ?pn" b 0 "a ! n"] ih(1) assms(2) by auto
    have split: "au_val (take n ?pn) + 2 ^ (32 * n) * au_val (drop n ?pn) = au_val ?pn"
      using au_val_append [of "take n ?pn" "drop n ?pn"] ih(1) Suc.prems by simp
    have "au_val (?f n ?pn) = au_val (take n ?pn) + 2 ^ (32 * n) * ((au_val (drop n ?pn) + unat (a ! n) * au_val b) mod 2 ^ (32 * (WIDTH - n)))"
      using ih(1) Suc.prems r(2) by (simp add: au_val_append)
    also have "\<dots> = (au_val (take n ?pn) + 2 ^ (32 * n) * (au_val (drop n ?pn) + unat (a ! n) * au_val b)) mod (2 ^ (32 * n) * 2 ^ (32 * (WIDTH - n)))"
      using au_val_less [of "take n ?pn"] ih(1) Suc.prems by (intro limb_mod) simp
    also have "(2::nat) ^ (32 * n) * 2 ^ (32 * (WIDTH - n)) = 2 ^ 256"
      using Suc.prems by (simp only: power_add [symmetric]) (simp add: algebra_simps)
    also have "au_val (take n ?pn) + 2 ^ (32 * n) * (au_val (drop n ?pn) + unat (a ! n) * au_val b) =
        au_val ?pn + 2 ^ (32 * n) * unat (a ! n) * au_val b"
      using split by (simp add: algebra_simps)
    also have "\<dots> mod 2 ^ 256 = (au_val (take (Suc n) a) * au_val b) mod 2 ^ 256"
      using ih(2) Suc.prems assms(1) by (simp add: au_val_take_Suc mod_add_right_eq algebra_simps)
    finally show ?case using ih(1) r(1) Suc.prems by simp
  qed simp
  from this [of WIDTH] show ?thesis using assms(1) by (simp add: au_mul_def)
qed

section \<open>Bits\<close>

lemma bit_au_val: "bit (au_val a) n \<longleftrightarrow> n < 32 * length a \<and> bit (a ! (n div 32)) (n mod 32)"
proof (induction a arbitrary: n)
  case (Cons p ps)
  have "au_val (p # ps) = unat p OR push_bit 32 (au_val ps)"
  proof -
    have "unat p + push_bit 32 (au_val ps) = unat p OR push_bit 32 (au_val ps)"
      by (rule disjunctive_add) (auto simp: bit_push_bit_iff bit_unsigned_iff dest: bit_imp_le_length)
    then show ?thesis by (simp add: push_bit_eq_mult)
  qed
  then have "bit (au_val (p # ps)) n \<longleftrightarrow> (if n < 32 then bit p n else bit (au_val ps) (n - 32))"
    by (auto simp: bit_or_iff bit_push_bit_iff bit_unsigned_iff dest: bit_imp_le_length)
  moreover have "n \<ge> 32 \<Longrightarrow> (n - 32) div 32 = n div 32 - 1 \<and> (n - 32) mod 32 = n mod 32 \<and> n div 32 \<noteq> 0"
    by (simp add: le_div_geq le_mod_geq)
  ultimately show ?case using Cons [of "n - 32"] by (auto simp: nth_Cons')
qed simp

lemma au_eq_bits:
  assumes "\<And>m j. m < WIDTH \<Longrightarrow> j < 32 \<Longrightarrow> bit (a ! m) j \<longleftrightarrow> bit v (32 * m + j)" "length a = WIDTH"
  shows "au_val a = take_bit 256 v"
proof (rule bit_eqI)
  fix n
  show "bit (au_val a) n \<longleftrightarrow> bit (take_bit 256 v) n"
    using assms(1) [of "n div 32" "n mod 32"] assms(2) by (auto simp: bit_au_val bit_take_bit_iff)
qed

lemma au_shl_fold:
  assumes "n \<le> WIDTH"
  shows "length (fold (au_shl_step a k s) [0..<n] au_zero) = WIDTH \<and>
    (\<forall>m<WIDTH. fold (au_shl_step a k s) [0..<n] au_zero ! m =
       (if k + 1 \<le> m \<and> m - k - 1 < n \<and> s \<noteq> 0 then drop_bit (32 - s) (a ! (m - k - 1)) else 0) OR
       (if k \<le> m \<and> m - k < n then push_bit s (a ! (m - k)) else 0))"
  using assms
proof (induction n)
  case 0
  then show ?case by simp
next
  case (Suc n)
  let ?pn = "fold (au_shl_step a k s) [0..<n] au_zero"
  have l: "length ?pn = WIDTH" and nth: "\<And>m. m < WIDTH \<Longrightarrow> ?pn ! m =
       (if k + 1 \<le> m \<and> m - k - 1 < n \<and> s \<noteq> 0 then drop_bit (32 - s) (a ! (m - k - 1)) else 0) OR
       (if k \<le> m \<and> m - k < n then push_bit s (a ! (m - k)) else 0)"
    using Suc by auto
  have "fold (au_shl_step a k s) [0..<Suc n] au_zero = au_shl_step a k s n ?pn" by simp
  moreover have "length (au_shl_step a k s n ?pn) = WIDTH" using l by (simp add: au_shl_step_def Let_def)
  moreover have "au_shl_step a k s n ?pn ! m =
       (if k + 1 \<le> m \<and> m - k - 1 < Suc n \<and> s \<noteq> 0 then drop_bit (32 - s) (a ! (m - k - 1)) else 0) OR
       (if k \<le> m \<and> m - k < Suc n then push_bit s (a ! (m - k)) else 0)" if m: "m < WIDTH" for m
  proof -
    consider "m = n + k" | "m = n + k + 1" | "m \<noteq> n + k" "m \<noteq> n + k + 1" by blast
    then show ?thesis
      by cases (use m l nth [OF m] in \<open>auto simp: au_shl_step_def Let_def nth_list_update or.assoc or.commute\<close>)
  qed
  ultimately show ?case by auto
qed

lemma bit_au_val_limb:
  assumes "length a = WIDTH" "r < 32"
  shows "bit (au_val a) (32 * d + r) \<longleftrightarrow> d < WIDTH \<and> bit (a ! d) r"
proof -
  have "(32 * d + r) div 32 = d" "(32 * d + r) mod 32 = r" "32 * d + r < 256 \<longleftrightarrow> d < WIDTH"
    using assms(2) by auto
  then show ?thesis using assms(1) by (simp only: bit_au_val) simp
qed

lemma bit_shifted:
  assumes "length a = WIDTH" "m < WIDTH" "j < 32" "n = 32 * k + s" "s < 32"
  shows "bit (push_bit n (au_val a)) (32 * m + j) \<longleftrightarrow>
    (if j < s then k + 1 \<le> m \<and> bit (a ! (m - k - 1)) (32 - s + j) else k \<le> m \<and> bit (a ! (m - k)) (j - s))"
proof (cases "j < s")
  case True
  show ?thesis
  proof (cases "k + 1 \<le> m")
    case le: True
    then obtain d where d: "m = k + 1 + d" using le_Suc_ex by blast
    then have e: "32 * m + j - n = 32 * d + (32 - s + j)" "n \<le> 32 * m + j" "32 - s + j < 32" "d < WIDTH" using assms True by auto
    have "bit (push_bit n (au_val a)) (32 * m + j) \<longleftrightarrow> bit (au_val a) (32 * d + (32 - s + j))"
      using e(1,2) by (simp only: bit_push_bit_iff) simp
    then show ?thesis using True d bit_au_val_limb [OF assms(1) e(3), of d] e(4) by simp
  qed (use assms True in \<open>auto simp: bit_push_bit_iff\<close>)
next
  case False
  show ?thesis
  proof (cases "k \<le> m")
    case le: True
    then obtain d where d: "m = k + d" using le_Suc_ex by blast
    then have e: "32 * m + j - n = 32 * d + (j - s)" "n \<le> 32 * m + j" "j - s < 32" "d < WIDTH" using assms False by auto
    have "bit (push_bit n (au_val a)) (32 * m + j) \<longleftrightarrow> bit (au_val a) (32 * d + (j - s))"
      using e(1,2) by (simp only: bit_push_bit_iff) simp
    then show ?thesis using False d bit_au_val_limb [OF assms(1) e(3), of d] e(4) by simp
  qed (use assms False in \<open>auto simp: bit_push_bit_iff\<close>)
qed

lemma au_shl_val:
  assumes "length a = WIDTH"
  shows "length (au_shl a n) = WIDTH \<and> au_val (au_shl a n) = (au_val a * 2 ^ n) mod 2 ^ 256"
proof -
  have l: "length (au_shl a n) = WIDTH" using au_shl_fold [of WIDTH] by (simp add: au_shl_def)
  have "bit (au_shl a n ! m) j \<longleftrightarrow> bit (push_bit n (au_val a)) (32 * m + j)" if "m < WIDTH" "j < 32" for m j
  proof -
    have "au_shl a n ! m =
       (if n div 32 + 1 \<le> m \<and> n mod 32 \<noteq> 0 then drop_bit (32 - n mod 32) (a ! (m - n div 32 - 1)) else 0) OR
       (if n div 32 \<le> m then push_bit (n mod 32) (a ! (m - n div 32)) else 0)"
      using au_shl_fold [of WIDTH a "n div 32" "n mod 32"] that(1) unfolding au_shl_def by (simp add: less_imp_diff_less)
    then show ?thesis
      using bit_shifted [OF assms that, of n "n div 32" "n mod 32"] that(2)
      by (auto simp: bit_or_iff bit_drop_bit_eq bit_push_bit_iff dest: bit_imp_le_length)
  qed
  from au_eq_bits [OF this l] show ?thesis using l by (simp add: push_bit_eq_mult take_bit_eq_mod)
qed

lemma au_shr_fold:
  assumes "n \<le> WIDTH"
  shows "length (fold (au_shr_step a k s) [0..<n] au_zero) = WIDTH \<and>
    (\<forall>m<WIDTH. fold (au_shr_step a k s) [0..<n] au_zero ! m =
       (if m + k + 1 < n \<and> s \<noteq> 0 then push_bit (32 - s) (a ! (m + k + 1)) else 0) OR
       (if m + k < n then drop_bit s (a ! (m + k)) else 0))"
  using assms
proof (induction n)
  case 0
  then show ?case by simp
next
  case (Suc n)
  let ?pn = "fold (au_shr_step a k s) [0..<n] au_zero"
  have l: "length ?pn = WIDTH" and nth: "\<And>m. m < WIDTH \<Longrightarrow> ?pn ! m =
       (if m + k + 1 < n \<and> s \<noteq> 0 then push_bit (32 - s) (a ! (m + k + 1)) else 0) OR
       (if m + k < n then drop_bit s (a ! (m + k)) else 0)"
    using Suc by auto
  have "fold (au_shr_step a k s) [0..<Suc n] au_zero = au_shr_step a k s n ?pn" by simp
  moreover have "length (au_shr_step a k s n ?pn) = WIDTH" using l by (simp add: au_shr_step_def Let_def)
  moreover have "au_shr_step a k s n ?pn ! m =
       (if m + k + 1 < Suc n \<and> s \<noteq> 0 then push_bit (32 - s) (a ! (m + k + 1)) else 0) OR
       (if m + k < Suc n then drop_bit s (a ! (m + k)) else 0)" if m: "m < WIDTH" for m
  proof -
    have d: "k \<le> n \<Longrightarrow> n - k = m \<longleftrightarrow> n = m + k" "k + 1 \<le> n \<Longrightarrow> n - k - 1 = m \<longleftrightarrow> n = m + k + 1" by auto
    consider "n = m + k" | "n = m + k + 1" | "n \<noteq> m + k" "n \<noteq> m + k + 1" by blast
    then show ?thesis
    proof cases
      case 3
      then have "au_shr_step a k s n ?pn ! m = ?pn ! m" using d by (auto simp: au_shr_step_def Let_def)
      then show ?thesis using 3 nth [OF m] by (auto simp: less_Suc_eq)
    qed (use m l nth [OF m] Suc.prems in \<open>auto simp: au_shr_step_def Let_def nth_list_update or.assoc or.commute\<close>)
  qed
  ultimately show ?case by auto
qed

lemma bit_shifted_down:
  assumes "length a = WIDTH" "m < WIDTH" "j < 32" "n = 32 * k + s" "s < 32"
  shows "bit (drop_bit n (au_val a)) (32 * m + j) \<longleftrightarrow>
    (if j + s < 32 then m + k < WIDTH \<and> bit (a ! (m + k)) (j + s) else m + k + 1 < WIDTH \<and> bit (a ! (m + k + 1)) (j + s - 32))"
proof (cases "j + s < 32")
  case True
  have "n + (32 * m + j) = 32 * (m + k) + (j + s)" using assms by simp
  then show ?thesis using True bit_au_val_limb [OF assms(1) True, of "m + k"] by (simp only: bit_drop_bit_eq comp_def) simp
next
  case False
  have "n + (32 * m + j) = 32 * (m + k + 1) + (j + s - 32)" using assms False by auto
  moreover have "j + s - 32 < 32" using assms by simp
  ultimately show ?thesis using False bit_au_val_limb [OF assms(1), of "j + s - 32" "m + k + 1"]
    by (simp only: bit_drop_bit_eq comp_def) simp
qed

lemma au_shr_val:
  assumes "length a = WIDTH"
  shows "length (au_shr a n) = WIDTH \<and> au_val (au_shr a n) = au_val a div 2 ^ n"
proof -
  have l: "length (au_shr a n) = WIDTH" using au_shr_fold [of WIDTH] by (simp add: au_shr_def)
  have "bit (au_shr a n ! m) j \<longleftrightarrow> bit (drop_bit n (au_val a)) (32 * m + j)" if "m < WIDTH" "j < 32" for m j
  proof -
    have "au_shr a n ! m =
       (if m + n div 32 + 1 < WIDTH \<and> n mod 32 \<noteq> 0 then push_bit (32 - n mod 32) (a ! (m + n div 32 + 1)) else 0) OR
       (if m + n div 32 < WIDTH then drop_bit (n mod 32) (a ! (m + n div 32)) else 0)"
      using au_shr_fold [of WIDTH a "n div 32" "n mod 32"] that(1) unfolding au_shr_def by simp
    moreover have "32 - n mod 32 \<le> j \<Longrightarrow> j - (32 - n mod 32) = j + n mod 32 - 32" by simp
    ultimately show ?thesis
      using bit_shifted_down [OF assms that, of n "n div 32" "n mod 32"] that(2)
      by (auto simp: bit_or_iff bit_drop_bit_eq bit_push_bit_iff add.commute dest: bit_imp_le_length)
  qed
  from au_eq_bits [OF this l] have "au_val (au_shr a n) = take_bit 256 (au_val a div 2 ^ n)" by (simp add: drop_bit_eq_div)
  moreover have "au_val a div 2 ^ n < 2 ^ 256"
    by (rule le_less_trans [OF div_le_dividend]) (use au_val_less [of a] assms in simp)
  ultimately show ?thesis using l by (simp add: take_bit_nat_eq_self)
qed

section \<open>Comparison and size\<close>

lemma au_cmp_loop_sgn:
  assumes "n \<le> length a" "n \<le> length b"
  shows "au_cmp_loop a b n = sgn (int (au_val (take n a)) - int (au_val (take n b)))"
  using assms
proof (induction n)
  case (Suc n)
  let ?x = "au_val (take n a)" and ?y = "au_val (take n b)" and ?K = "(2::nat) ^ (32 * n)"
  have v: "au_val (take (Suc n) a) = ?x + ?K * unat (a ! n)" "au_val (take (Suc n) b) = ?y + ?K * unat (b ! n)"
    using Suc.prems by (simp_all add: au_val_take_Suc)
  have x: "?x < ?K" "?y < ?K" using au_val_less [of "take n a"] au_val_less [of "take n b"] Suc.prems by auto
  have lt: "x + ?K * p < y + ?K * q" if "p < q" "x < ?K" for x y p q :: nat
  proof -
    have "x + ?K * p < ?K * (p + 1)" using that by simp
    also have "\<dots> \<le> ?K * q" using that by (intro mult_le_mono2) simp
    finally show ?thesis by simp
  qed
  consider "a ! n < b ! n" | "b ! n < a ! n" | "a ! n = b ! n" by fastforce
  then show ?case
  proof cases
    case 1
    then have "au_val (take (Suc n) a) < au_val (take (Suc n) b)"
      using lt [of "unat (a ! n)" "unat (b ! n)" ?x ?y] x v by (simp add: word_less_nat_alt)
    then show ?thesis using 1 by (simp add: sgn_if)
  next
    case 2
    then have "au_val (take (Suc n) b) < au_val (take (Suc n) a)"
      using lt [of "unat (b ! n)" "unat (a ! n)" ?y ?x] x v by (simp add: word_less_nat_alt)
    then show ?thesis using 2 by (simp add: sgn_if less_not_sym)
  next
    case 3
    then show ?thesis using Suc v by simp
  qed
qed simp

lemma CompareTo_val:
  assumes "length a = WIDTH" "length b = WIDTH"
  shows "CompareTo a b = sgn (int (au_val a) - int (au_val b))"
  using au_cmp_loop_sgn [of WIDTH a b] assms by (simp add: CompareTo_def)

lemma CompareTo_ge:
  assumes "length a = WIDTH" "length b = WIDTH"
  shows "CompareTo a b \<ge> 0 \<longleftrightarrow> au_val b \<le> au_val a"
  using CompareTo_val [OF assms] by (auto simp: sgn_if)

lemma bit_nat_ge: "bit (x::nat) n \<Longrightarrow> 2 ^ n \<le> x"
  by (rule ccontr) (auto simp: not_le bit_take_bit_iff dest!: take_bit_nat_eq_self [THEN arg_cong [of _ _ "\<lambda>y. bit y n"]])

lemma not_bit_nat_less:
  assumes "\<not> bit (x::nat) n" "x < 2 ^ Suc n"
  shows "x < 2 ^ n"
proof -
  have "x = take_bit (Suc n) x" using assms(2) by (simp add: take_bit_nat_eq_self)
  then have "x = take_bit n x" using assms(1) by (simp only: take_bit_Suc_from_most) simp
  then show ?thesis by (metis take_bit_nat_less_exp)
qed

lemma au_nbits_bounds:
  assumes "p \<noteq> 0" "unat p < 2 ^ Suc n" "n \<le> 31"
  shows "1 \<le> au_nbits p n \<and> 2 ^ (au_nbits p n - 1) \<le> unat p \<and> unat p < 2 ^ au_nbits p n"
  using assms
proof (induction n)
  case 0
  have "unat p \<noteq> 0" using 0(1) by (simp add: unat_eq_0)
  then show ?case using 0 by simp
next
  case (Suc n)
  have b: "p AND push_bit (Suc n) 1 \<noteq> 0 \<longleftrightarrow> bit (unat p) (Suc n)"
    using and_exp_eq_0_iff_not_bit [of p "Suc n"] Suc.prems(3) by (simp add: bit_unsigned_iff push_bit_eq_mult)
  show ?case
  proof (cases "bit (unat p) (Suc n)")
    case True
    then show ?thesis using b bit_nat_ge [OF True] Suc.prems(2) by simp
  next
    case False
    then show ?thesis using b not_bit_nat_less [OF False Suc.prems(2)] Suc by simp
  qed
qed

lemma au_bits_loop_bounds:
  assumes "n \<le> length a"
  shows "au_val (take n a) < 2 ^ au_bits_loop a n \<and> (au_bits_loop a n \<noteq> 0 \<longrightarrow> 2 ^ (au_bits_loop a n - 1) \<le> au_val (take n a))"
  using assms
proof (induction n)
  case (Suc n)
  let ?x = "au_val (take n a)" and ?K = "(2::nat) ^ (32 * n)" and ?k = "au_nbits (a ! n) 31"
  have v: "au_val (take (Suc n) a) = ?x + ?K * unat (a ! n)" using Suc.prems by (simp add: au_val_take_Suc)
  show ?case
  proof (cases "a ! n = 0")
    case True
    then show ?thesis using Suc v by simp
  next
    case False
    have "unat (a ! n) < 2 ^ Suc 31" using limb_bound [of "a ! n"] by simp
    note k = au_nbits_bounds [OF False this]
    have "?x < ?K" using au_val_less [of "take n a"] Suc.prems by simp
    then have "?x + ?K * unat (a ! n) < ?K * (unat (a ! n) + 1)" by simp
    also have "\<dots> \<le> ?K * 2 ^ ?k" using k by (intro mult_le_mono2) simp
    finally have hi: "au_val (take (Suc n) a) < 2 ^ (32 * n + ?k)" using v by (simp add: power_add)
    have "?K * 2 ^ (?k - 1) \<le> ?K * unat (a ! n)" using k by (intro mult_le_mono2) simp
    then have "2 ^ (32 * n + ?k - 1) \<le> au_val (take (Suc n) a)" using v k by (simp add: power_add [symmetric])
    then show ?thesis using hi False by simp
  qed
qed simp

lemma au_bits_bounds:
  assumes "length a = WIDTH"
  shows "au_val a < 2 ^ au_bits a" "au_bits a \<noteq> 0 \<Longrightarrow> 2 ^ (au_bits a - 1) \<le> au_val a"
    "au_bits a \<le> 256" "au_bits a = 0 \<longleftrightarrow> au_val a = 0"
proof -
  show 1: "au_val a < 2 ^ au_bits a" and 2: "au_bits a \<noteq> 0 \<Longrightarrow> 2 ^ (au_bits a - 1) \<le> au_val a"
    using au_bits_loop_bounds [of WIDTH a] assms by (auto simp: au_bits_def)
  have "0 < (2::nat) ^ (au_bits a - 1)" by simp
  then have "au_bits a \<noteq> 0 \<Longrightarrow> 0 < au_val a" using 2 by (meson less_le_trans)
  then show "au_bits a = 0 \<longleftrightarrow> au_val a = 0" using 1 by (cases "au_bits a = 0") auto
  have "(2::nat) ^ (au_bits a - 1) < 2 ^ 256" if "au_bits a \<noteq> 0"
    using 2 [OF that] au_val_less [of a] assms by simp
  then show "au_bits a \<le> 256" using power_strict_increasing_iff [of "2::nat" "au_bits a - 1" 256] by fastforce
qed

section \<open>The quotient\<close>

lemma au_set_bit:
  assumes "length a = WIDTH" "m < 256" "\<not> bit (au_val a) m"
  shows "length (a[m div 32 := a ! (m div 32) OR push_bit (m mod 32) 1]) = WIDTH"
    "au_val (a[m div 32 := a ! (m div 32) OR push_bit (m mod 32) 1]) = au_val a + 2 ^ m"
proof -
  let ?a = "a[m div 32 := a ! (m div 32) OR push_bit (m mod 32) 1]"
  show l: "length ?a = WIDTH" using assms(1) by simp
  have "au_val ?a = au_val a OR 2 ^ m"
  proof (rule bit_eqI)
    fix n
    have nm: "n = m" if "n div 32 = m div 32" "n mod 32 = m mod 32" using that by (metis div_mult_mod_eq)
    show "bit (au_val ?a) n \<longleftrightarrow> bit (au_val a OR 2 ^ m) n"
    proof (cases "n < 256 \<and> n div 32 = m div 32")
      case True
      then have "bit (au_val ?a) n \<longleftrightarrow> bit (a ! (m div 32)) (n mod 32) \<or> n mod 32 = m mod 32"
        using assms(1) by (auto simp: bit_au_val bit_or_iff bit_exp_iff)
      then show ?thesis using True nm assms(1) by (auto simp: bit_au_val bit_or_iff bit_exp_iff)
    next
      case False
      then have "bit (au_val ?a) n \<longleftrightarrow> bit (au_val a) n" using assms(1) by (auto simp: bit_au_val)
      moreover have "n \<noteq> m" using False assms(2) by auto
      ultimately show ?thesis by (simp add: bit_or_iff bit_exp_iff)
    qed
  qed
  also have "\<dots> = au_val a + 2 ^ m"
    using assms(3) by (intro disjunctive_add [symmetric]) (auto simp: bit_exp_iff)
  finally show "au_val ?a = au_val a + 2 ^ m" .
qed

lemma au_div_loop_val:
  assumes "length num = WIDTH" "length dv = WIDTH" "length pn = WIDTH" "n \<le> 256" "0 < d"
    "0 < n \<Longrightarrow> au_val dv = d * 2 ^ (n - 1)" "au_val num < d * 2 ^ n" "2 ^ n dvd au_val pn"
  shows "length (au_div_loop n num dv pn) = WIDTH \<and> au_val (au_div_loop n num dv pn) = au_val pn + au_val num div d"
  using assms
proof (induction n arbitrary: num dv pn)
  case (Suc n)
  note len = Suc.prems(1-3)
  have dv: "au_val dv = d * 2 ^ n" using Suc.prems(6) by simp
  have dv': "length (au_shr dv 1) = WIDTH" "0 < n \<Longrightarrow> au_val (au_shr dv 1) = d * 2 ^ (n - 1)"
    using au_shr_val [OF len(2), of 1] dv by (auto simp: gr0_conv_Suc)
  have dvd: "2 ^ n dvd au_val pn" using Suc.prems(8) by (auto intro: dvd_mult_right)
  have nb: "\<not> bit (au_val pn) n"
  proof -
    obtain k where "au_val pn = 2 ^ n * (2 * k)" using Suc.prems(8) by (auto simp: dvd_def)
    then show ?thesis by (simp add: bit_iff_odd)
  qed
  show ?case
  proof (cases "d * 2 ^ n \<le> au_val num")
    case True
    then have ge: "CompareTo num dv \<ge> 0" using CompareTo_ge [OF len(1,2)] dv by simp
    have sub: "length (au_sub num dv) = WIDTH" "au_val (au_sub num dv) = au_val num - d * 2 ^ n"
      using au_sub_val [of num dv] len True dv by auto
    let ?pn = "pn[n div 32 := pn ! (n div 32) OR push_bit (n mod 32) 1]"
    have pn: "length ?pn = WIDTH" "au_val ?pn = au_val pn + 2 ^ n"
      using au_set_bit [OF len(3) _ nb] Suc.prems(4) by auto
    have "length (au_div_loop n (au_sub num dv) (au_shr dv 1) ?pn) = WIDTH \<and>
        au_val (au_div_loop n (au_sub num dv) (au_shr dv 1) ?pn) = au_val ?pn + au_val (au_sub num dv) div d"
    proof (rule Suc.IH [OF sub(1) dv'(1) pn(1) _ Suc.prems(5) dv'(2)])
      show "au_val (au_sub num dv) < d * 2 ^ n" using sub(2) Suc.prems(7) True by simp
      show "2 ^ n dvd au_val ?pn" unfolding pn(2) by (rule dvd_add [OF dvd dvd_refl])
    qed (use Suc.prems(4) in simp_all)
    moreover have "au_val num div d = 2 ^ n + (au_val num - d * 2 ^ n) div d"
    proof -
      obtain r where "au_val num = d * 2 ^ n + r" using True le_Suc_ex by blast
      then show ?thesis using Suc.prems(5) by simp
    qed
    ultimately show ?thesis using ge sub pn by (simp add: Let_def)
  next
    case False
    then have "\<not> CompareTo num dv \<ge> 0" using CompareTo_ge [OF len(1,2)] dv by simp
    moreover have "length (au_div_loop n num (au_shr dv 1) pn) = WIDTH \<and>
        au_val (au_div_loop n num (au_shr dv 1) pn) = au_val pn + au_val num div d"
      by (rule Suc.IH [OF len(1) dv'(1) len(3) _ Suc.prems(5) dv'(2) _ dvd]) (use Suc.prems(4) False in simp_all)
    ultimately show ?thesis by (simp add: Let_def)
  qed
qed simp

lemma au_div_val:
  assumes "length a = WIDTH" "length b = WIDTH" "au_val b \<noteq> 0"
  shows "\<exists>q. au_div a b = Some q \<and> length q = WIDTH \<and> au_val q = au_val a div au_val b"
proof (cases "au_bits a < au_bits b")
  case True
  have "au_val a < 2 ^ au_bits a" using au_bits_bounds(1) [OF assms(1)] .
  also have "\<dots> \<le> 2 ^ (au_bits b - 1)" using True by (intro power_increasing) auto
  also have "\<dots> \<le> au_val b" using True by (intro au_bits_bounds(2) [OF assms(2)]) simp
  finally show ?thesis using True by (simp add: au_div_def)
next
  case False
  let ?s = "au_bits a - au_bits b"
  have db: "au_bits b \<noteq> 0" using au_bits_bounds(4) [OF assms(2)] assms(3) by simp
  have "au_val b * 2 ^ ?s < 2 ^ au_bits b * 2 ^ ?s" using au_bits_bounds(1) [OF assms(2)] by simp
  also have "\<dots> = 2 ^ au_bits a" using False by (simp flip: power_add)
  also have "\<dots> \<le> 2 ^ 256" using au_bits_bounds(3) [OF assms(1)] by (intro power_increasing) auto
  finally have sh: "length (au_shl b ?s) = WIDTH" "au_val (au_shl b ?s) = au_val b * 2 ^ ?s"
    using au_shl_val [OF assms(2), of ?s] by auto
  have "au_val a < 2 ^ au_bits a" using au_bits_bounds(1) [OF assms(1)] .
  also have "\<dots> = 2 ^ (au_bits b - 1) * 2 ^ Suc ?s" using db False by (simp flip: power_add power_Suc)
  also have "\<dots> \<le> au_val b * 2 ^ Suc ?s" using au_bits_bounds(2) [OF assms(2) db] by (intro mult_le_mono1)
  finally have "length (au_div_loop (Suc ?s) a (au_shl b ?s) au_zero) = WIDTH \<and>
      au_val (au_div_loop (Suc ?s) a (au_shl b ?s) au_zero) = au_val au_zero + au_val a div au_val b"
    using sh assms au_bits_bounds(3) [OF assms(1)] db by (intro au_div_loop_val) auto
  then show ?thesis using db False unfolding au_div_def by (simp add: Let_def del: au_div_loop.simps)
qed

lemma au_div_zero:
  assumes "length b = WIDTH" "au_val b = 0"
  shows "au_div a b = None"
  using au_bits_bounds(4) [OF assms(1)] assms(2) by (simp add: au_div_def Let_def)

section \<open>Conversions\<close>

lemma unat_join32: "unat (ucast (x :: u32) OR push_bit 32 (ucast (y :: u32)) :: u64) = unat x + 2 ^ 32 * unat y"
proof -
  have "ucast x + push_bit 32 (ucast y) = (ucast x OR push_bit 32 (ucast y) :: u64)"
    by (rule disjunctive_add) (auto simp: bit_push_bit_iff bit_ucast_iff dest: bit_imp_le_length)
  moreover have "unat (push_bit 32 (ucast y) :: u64) = 2 ^ 32 * unat y"
    using limb_bound [of y] by (simp add: push_bit_eq_mult unat_word_ariths)
  then have "unat (ucast x + push_bit 32 (ucast y) :: u64) = unat x + 2 ^ 32 * unat y"
    using limb_bound [of x] limb_bound [of y] by (subst unat_add_lem [THEN iffD1]) simp_all
  ultimately show ?thesis by simp
qed

lemma GetLow64_val:
  assumes "length a = WIDTH"
  shows "unat (GetLow64 a) = au_val a mod 2 ^ 64"
proof -
  obtain x y r where a: "a = x # y # r" using assms by (auto simp: length_Suc_conv numeral_eq_Suc)
  have "unat x + 2 ^ 32 * unat y < 2 ^ 64" using limb_bound [of x] limb_bound [of y] by simp
  then show ?thesis using limb_mod [of "unat x + 2 ^ 32 * unat y" "2 ^ 64" "au_val r" 1]
    by (simp add: a GetLow64_def unat_join32 algebra_simps)
qed

lemma au_of_u64_val [simp]: "au_val (au_of_u64 b) = unat b" "length (au_of_u64 b) = WIDTH"
proof -
  have "unat (ucast b :: u32) = unat b mod 2 ^ 32" by (simp add: unsigned_ucast_eq take_bit_eq_mod)
  moreover have "unat (ucast (drop_bit 32 b) :: u32) = unat b div 2 ^ 32"
    using unsigned_less [of b, where 'a = nat]
    by (simp add: unsigned_ucast_eq limb_of_u64 take_bit_nat_eq_self)
  ultimately show "au_val (au_of_u64 b) = unat b"
    by (simp only: au_of_u64_def au_val_append au_val.simps au_val_replicate_0) simp
qed (simp add: au_of_u64_def)

lemma au_isZero_val: "au_isZero a \<longleftrightarrow> au_val a = 0"
  by (induction a) (auto simp: au_isZero_def unat_eq_0)

lemma EqualTo_val:
  assumes "length a = WIDTH"
  shows "EqualTo a b \<longleftrightarrow> au_val a = unat b"
proof -
  obtain x y r where a: "a = x # y # r" using assms by (auto simp: length_Suc_conv numeral_eq_Suc)
  have l: "unat (b AND 0xffffffff) = unat b mod 2 ^ 32"
  proof -
    have "b AND 0xffffffff = take_bit 32 b" by (simp add: take_bit_eq_mask mask_eq_exp_minus_1)
    then show ?thesis by (simp add: unsigned_take_bit_eq take_bit_nat_def)
  qed
  have "EqualTo a b \<longleftrightarrow> au_val r = 0 \<and> unat y = unat b div 2 ^ 32 \<and> unat x = unat b mod 2 ^ 32"
    using au_isZero_val [of r] l by (simp add: EqualTo_def a au_isZero_def word_unat_eq_iff limb_of_u64(2))
  also have "\<dots> \<longleftrightarrow> au_val a = unat b"
  proof
    assume v: "au_val a = unat b"
    then have b: "unat b = unat x + 2 ^ 32 * (unat y + 2 ^ 32 * au_val r)" by (simp add: a)
    have x: "unat x < 2 ^ 32" using limb_bound [of x] by simp
    then have q: "unat b div 2 ^ 32 = unat y + 2 ^ 32 * au_val r" "unat b mod 2 ^ 32 = unat x"
      using limb_divmod [OF x, of "unat y + 2 ^ 32 * au_val r"] b by simp_all
    have "unat b < 2 ^ 64" using unsigned_less [of b, where 'a = nat] by simp
    then have "au_val r = 0" using b by simp
    then show "au_val r = 0 \<and> unat y = unat b div 2 ^ 32 \<and> unat x = unat b mod 2 ^ 32" using q by simp
  qed (simp add: a)
  finally show ?thesis .
qed

lemma compact_test_sign: "(m :: u32) AND 0x00800000 \<noteq> 0 \<longleftrightarrow> bit m 23"
proof -
  have "(0x00800000 :: u32) = 2 ^ 23" by simp
  then show ?thesis using and_exp_eq_0_iff_not_bit [of m 23] by (simp only:) blast
qed

lemma compact_mantissa: "(m :: u32) AND 0x007fffff = take_bit 23 m"
  by (simp add: take_bit_eq_mask mask_eq_exp_minus_1)

lemma compact_assert: "(m :: u32) AND NOT 0x007fffff \<noteq> 0 \<longleftrightarrow> \<not> unat m < 2 ^ 23"
proof -
  have "m AND NOT (mask 23) = 0 \<longleftrightarrow> take_bit 23 m = m"
    by (auto simp: bit_eq_iff bit_and_iff bit_not_iff bit_mask_iff bit_take_bit_iff)
  also have "\<dots> \<longleftrightarrow> unat m < 2 ^ 23"
    by (simp add: word_unat_eq_iff unsigned_take_bit_eq take_bit_nat_eq_self_iff)
  finally show ?thesis by (simp add: mask_eq_exp_minus_1)
qed

lemma bit_small_word:
  assumes "unat (m :: u32) < 2 ^ n" "bit m k"
  shows "k < n"
proof -
  have "k < 32" using bit_imp_le_length [OF assms(2)] by simp
  then have "bit (unat m) k" using assms(2) by (simp add: bit_unsigned_iff)
  from le_less_trans [OF bit_nat_ge [OF this] assms(1)] show ?thesis by (rule power_less_imp_less_exp [rotated]) simp
qed

lemma compact_pack:
  fixes m :: u32
  assumes "unat m < 2 ^ 23" "n < 256"
  shows "drop_bit 24 (m OR push_bit 24 (of_nat n)) = of_nat n" "take_bit 23 (m OR push_bit 24 (of_nat n)) = m"
    "\<not> bit (m OR push_bit 24 (of_nat n)) 23"
proof -
  note m = bit_small_word [OF assms(1)]
  have "unat (of_nat n :: u32) < 2 ^ 8" using assms(2) by (simp add: unat_of_nat)
  note n = bit_small_word [OF this]
  show "drop_bit 24 (m OR push_bit 24 (of_nat n)) = of_nat n"
    by (rule bit_word_eqI) (auto simp: bit_drop_bit_eq bit_or_iff bit_push_bit_iff dest: m n)
  show "take_bit 23 (m OR push_bit 24 (of_nat n)) = m"
    by (rule bit_word_eqI) (auto simp: bit_take_bit_iff bit_or_iff bit_push_bit_iff dest: m n)
  show "\<not> bit (m OR push_bit 24 (of_nat n)) 23"
    by (auto simp: bit_or_iff bit_push_bit_iff dest: m)
qed


lemma unat_drop_limb: "unat (drop_bit k (m :: u32)) = unat m div 2 ^ k"
proof -
  have "take_bit 32 (unat m) = unat m" using limb_bound [of m] by (intro take_bit_nat_eq_self) simp
  then have "unat (drop_bit k m) = drop_bit k (unat m)" by (simp add: unsigned_drop_bit_eq)
  then show ?thesis by (simp only: drop_bit_eq_div)
qed

lemma pow_256: "(2::nat) ^ (8 * k) = 256 ^ k"
  by (simp add: power_mult)

lemma compact_value_pack:
  fixes m :: u32
  assumes "unat m < 2 ^ 23" "n < 256"
  shows "au_val (compact_value (m OR push_bit 24 (of_nat n))) =
    (if n \<le> 3 then unat m div 256 ^ (3 - n) else unat m * 256 ^ (n - 3) mod 2 ^ 256)"
proof -
  let ?c = "m OR push_bit 24 (of_nat n)"
  have n: "unat (of_nat n :: u32) = n" using assms(2) by (simp add: unat_of_nat)
  have "compact_value ?c = (if n \<le> 3 then au_of_u64 (ucast (drop_bit (8 * (3 - n)) m)) else au_shl (au_of_u64 (ucast m)) (8 * (n - 3)))"
    unfolding compact_value_def SetCompact_def Let_def compact_mantissa compact_pack [OF assms] n by (simp only: fst_conv if_True if_False split: if_split) blast
  moreover have "au_val (au_shl (au_of_u64 (ucast m)) (8 * (n - 3))) = unat m * 256 ^ (n - 3) mod 2 ^ 256"
    by (simp only: au_shl_val au_of_u64_val unat_limb_u64 pow_256)
  moreover have "au_val (au_of_u64 (ucast (drop_bit (8 * (3 - n)) m))) = unat m div 256 ^ (3 - n)"
    by (simp only: au_of_u64_val unat_limb_u64 unat_drop_limb pow_256)
  ultimately show ?thesis by presburger
qed

lemma mantissa_of:
  assumes "length a = WIDTH" "n = (au_bits a + 7) div 8"
  shows "n \<le> 32" "au_val a < 256 ^ n" "0 < n \<Longrightarrow> 256 ^ (n - 1) \<le> au_val a"
proof -
  show "n \<le> 32" using au_bits_bounds(3) [OF assms(1)] assms(2) by simp
  have "au_val a < 2 ^ au_bits a" using au_bits_bounds(1) [OF assms(1)] .
  also have "\<dots> \<le> 2 ^ (8 * n)" using assms(2) by (intro power_increasing) auto
  finally show "au_val a < 256 ^ n" by (simp only: pow_256)
  assume "0 < n"
  then have "256 ^ (n - 1) \<le> (2::nat) ^ (au_bits a - 1)"
    unfolding pow_256 [symmetric] using assms(2) by (intro power_increasing) auto
  also have "\<dots> \<le> au_val a" using \<open>0 < n\<close> assms(2) by (intro au_bits_bounds(2) [OF assms(1)]) auto
  finally show "256 ^ (n - 1) \<le> au_val a" .
qed

definition compact_word :: "base_uint \<Rightarrow> nat \<Rightarrow> u32" where
  "compact_word a nSize = (if nSize \<le> 3 then ucast (push_bit (8 * (3 - nSize)) (GetLow64 a))
                     else ucast (GetLow64 (au_shr a (8 * (nSize - 3)))))"

lemma compact_word_val:
  assumes "length a = WIDTH" "n = (au_bits a + 7) div 8"
  shows "unat (compact_word a n) = (if n \<le> 3 then au_val a * 256 ^ (3 - n) else au_val a div 256 ^ (n - 3))"
    "unat (compact_word a n) < 2 ^ 24" "3 < n \<Longrightarrow> 2 ^ 16 \<le> unat (compact_word a n)"
proof -
  note v = mantissa_of [OF assms]
  have low: "unat (ucast (x :: u64) :: u32) = unat x" if "unat x < 2 ^ 24" for x
    using that by (simp add: unsigned_ucast_eq take_bit_nat_eq_self)
  have "unat (compact_word a n) = (if n \<le> 3 then au_val a * 256 ^ (3 - n) else au_val a div 256 ^ (n - 3)) \<and>
      unat (compact_word a n) < 2 ^ 24 \<and> (3 < n \<longrightarrow> 2 ^ 16 \<le> unat (compact_word a n))"
  proof (cases "n \<le> 3")
    case True
    have "au_val a * 256 ^ (3 - n) < 256 ^ n * 256 ^ (3 - n)" using v(2) by simp
    also have "\<dots> = 256 ^ 3" using True by (simp only: power_add [symmetric]) simp
    finally have lt: "au_val a * 256 ^ (3 - n) < 2 ^ 24" by simp
    have "au_val a * 1 \<le> au_val a * 256 ^ (3 - n)" by (rule mult_le_mono2) simp
    then have "au_val a < 2 ^ 24" using lt by linarith
    then have "unat (GetLow64 a) = au_val a" using GetLow64_val [OF assms(1)] by simp
    then have "unat (push_bit (8 * (3 - n)) (GetLow64 a)) = au_val a * 256 ^ (3 - n)"
    proof -
      have "unat (push_bit (8 * (3 - n)) (GetLow64 a)) = take_bit 64 (push_bit (8 * (3 - n)) (unat (GetLow64 a)))"
        by (simp add: unsigned_push_bit_eq)
      also have "push_bit (8 * (3 - n)) (unat (GetLow64 a)) = au_val a * 256 ^ (3 - n)"
        using \<open>unat (GetLow64 a) = au_val a\<close> by (simp only: push_bit_eq_mult pow_256)
      finally show ?thesis using lt by (simp add: take_bit_nat_eq_self)
    qed
    then show ?thesis using True lt low by (simp add: compact_word_def)
  next
    case False
    have "au_val a < 256 ^ 3 * 256 ^ (n - 3)" using v(2) False by (simp only: power_add [symmetric]) simp
    then have lt: "au_val a div 256 ^ (n - 3) < 2 ^ 24" by (simp add: less_mult_imp_div_less)
    have "256 ^ 2 * 256 ^ (n - 3) \<le> au_val a"
      using v(3) False by (simp only: power_add [symmetric]) (simp add: numeral_eq_Suc Suc_diff_Suc)
    then have ge: "2 ^ 16 \<le> au_val a div 256 ^ (n - 3)" by (simp add: less_eq_div_iff_mult_less_eq)
    have "unat (GetLow64 (au_shr a (8 * (n - 3)))) = au_val a div 256 ^ (n - 3)"
      using GetLow64_val [of "au_shr a (8 * (n - 3))"] au_shr_val [OF assms(1), of "8 * (n - 3)"] lt
      by (simp only: pow_256) simp
    then show ?thesis using False lt ge low by (simp add: compact_word_def)
  qed
  then show "unat (compact_word a n) = (if n \<le> 3 then au_val a * 256 ^ (3 - n) else au_val a div 256 ^ (n - 3))"
    "unat (compact_word a n) < 2 ^ 24" "3 < n \<Longrightarrow> 2 ^ 16 \<le> unat (compact_word a n)" by blast+
qed

lemma GetCompact_eq:
  assumes "length a = WIDTH" "n = (au_bits a + 7) div 8" "w = compact_word a n" "big \<longleftrightarrow> 2 ^ 23 \<le> unat w"
  shows "GetCompact False a = Some ((if big then drop_bit 8 w else w) OR push_bit 24 (of_nat (if big then n + 1 else n)))"
    "unat (if big then drop_bit 8 w else w) < 2 ^ 23" "(if big then n + 1 else n) \<le> 33"
proof -
  have lt: "unat w < 2 ^ 24" using compact_word_val(2) [OF assms(1,2)] assms(3) by simp
  have "bit w 23 \<longleftrightarrow> bit (unat w) 23" by (simp add: bit_unsigned_iff)
  also have "\<dots> \<longleftrightarrow> big" using bit_nat_ge [of "unat w" 23] not_bit_nat_less [of "unat w" 23] lt assms(4) by fastforce
  finally have b: "bit w 23 \<longleftrightarrow> big" .
  show u: "unat (if big then drop_bit 8 w else w) < 2 ^ 23"
    using lt assms(4) by (auto simp: unat_drop_limb less_mult_imp_div_less)
  show n: "(if big then n + 1 else n) \<le> 33" using mantissa_of(1) [OF assms(1,2)] by simp
  have "GetCompact False a =
     (let nCompact' = if bit w 23 then drop_bit 8 w else w; nSize' = if bit w 23 then n + 1 else n
      in if \<not> unat nCompact' < 2 ^ 23 \<or> nSize' \<ge> 256 then None else Some (nCompact' OR push_bit 24 (of_nat nSize')))"
    by (simp only: GetCompact_def Let_def compact_test_sign compact_assert assms(2,3) compact_word_def simp_thms if_False or.right_neutral)
  then show "GetCompact False a = Some ((if big then drop_bit 8 w else w) OR push_bit 24 (of_nat (if big then n + 1 else n)))"
    using u n by (simp only: b Let_def) (simp split: if_splits)
qed

text \<open>
  C28. \<open>GetCompact\<close> never fails an assertion, and \<open>SetCompact\<close> on its result gives the number
  rounded down with a relative error of at most \<open>2^-15\<close>; numbers below \<open>2^23\<close> come back exactly.
\<close>

theorem compact_round_trip:
  assumes "length a = WIDTH"
  shows "\<exists>c w. GetCompact False a = Some c \<and> au_val (compact_value c) = w \<and> w \<le> au_val a \<and>
     2 ^ 15 * (au_val a - w) \<le> w \<and> (au_val a < 2 ^ 23 \<longrightarrow> w = au_val a)"
proof -
  define n where "n = (au_bits a + 7) div 8"
  define m where "m = compact_word a n"
  define big where "big \<longleftrightarrow> 2 ^ 23 \<le> unat m"
  define k where "k = (if big then n + 1 else n)"
  define x where "x = (if big then drop_bit 8 m else m)"
  note mw = compact_word_val [OF assms n_def, folded m_def]
  have c: "GetCompact False a = Some (x OR push_bit 24 (of_nat k))" "unat x < 2 ^ 23" "k \<le> 33"
    using GetCompact_eq [OF assms n_def m_def big_def] unfolding x_def k_def by auto
  have w: "au_val (compact_value (x OR push_bit 24 (of_nat k))) =
      (if k \<le> 3 then unat x div 256 ^ (3 - k) else unat x * 256 ^ (k - 3) mod 2 ^ 256)"
    using compact_value_pack [OF c(2), of k] c(3) by simp
  show ?thesis
  proof (cases "k \<le> 3")
    case True
    then have n: "n \<le> 3" by (auto simp: k_def split: if_splits)
    have "unat x div 256 ^ (3 - k) = au_val a"
    proof (cases big)
      case big: True
      then have "3 - n = Suc (3 - k)" using True by (simp add: k_def)
      then have "unat m = au_val a * 256 ^ (3 - k) * 256" using mw(1) n by simp
      then show ?thesis using big by (simp add: x_def unat_drop_limb)
    qed (use mw(1) n in \<open>simp add: x_def k_def\<close>)
    then show ?thesis using c(1) w True by auto
  next
    case False
    then have n: "3 \<le> n" by (auto simp: k_def split: if_splits)
    then have m: "unat m = au_val a div 256 ^ (n - 3)" using mw(1) by (cases "n = 3") auto
    have x: "unat x = au_val a div 256 ^ (k - 3)" "2 ^ 15 \<le> unat x"
    proof -
      have "unat x = au_val a div 256 ^ (k - 3) \<and> 2 ^ 15 \<le> unat x"
      proof (cases big)
        case True
        have "k - 3 = Suc (n - 3)" using True n by (simp add: k_def)
        then have "256 ^ (k - 3) = (256::nat) ^ (n - 3) * 256" by simp
        moreover have "2 ^ 15 \<le> unat m div 2 ^ 8" using True by (simp add: big_def less_eq_div_iff_mult_less_eq)
        ultimately show ?thesis using True m by (simp add: x_def unat_drop_limb div_mult2_eq)
      qed (use mw(3) m False in \<open>auto simp: x_def k_def\<close>)
      then show "unat x = au_val a div 256 ^ (k - 3)" "2 ^ 15 \<le> unat x" by blast+
    qed
    let ?K = "256 ^ (k - 3) :: nat"
    have dm: "au_val a = unat x * ?K + au_val a mod ?K" unfolding x(1) by (rule div_mult_mod_eq [symmetric])
    have "au_val a < 2 ^ 256" using au_val_less [of a] assms by simp
    then have "unat x * ?K < 2 ^ 256" using dm by linarith
    then have w': "au_val (compact_value (x OR push_bit 24 (of_nat k))) = unat x * ?K" using w False by simp
    have "au_val a mod ?K < ?K" by simp
    then have "2 ^ 15 * (au_val a mod ?K) \<le> 2 ^ 15 * ?K" by simp
    also have "\<dots> \<le> unat x * ?K" using x(2) by (rule mult_le_mono1)
    finally have err: "2 ^ 15 * (au_val a - unat x * ?K) \<le> unat x * ?K" using dm by simp
    have "2 ^ 15 * 256 ^ 1 \<le> unat x * ?K"
      using x(2) False by (intro mult_le_mono power_increasing) auto
    then have "\<not> au_val a < 2 ^ 23" using dm by simp
    then show ?thesis using c(1) w' err dm by (intro exI [of _ "x OR push_bit 24 (of_nat k)"] exI [of _ "unat x * ?K"]) simp
  qed
qed

theorem compact_round_trip_witness:
  "\<exists>c. GetCompact False (au_of_u64 100) = Some c \<and> au_val (compact_value c) = 100"
  using compact_round_trip [of "au_of_u64 100"] by (auto simp: unat_word_ariths)


section \<open>Bytes\<close>

lemma ReadLE32_WriteLE32: "ReadLE32 (WriteLE32 x @ r) = x"
proof (rule bit_word_eqI)
  fix n assume "n < LENGTH(32)"
  then have n: "n < 32" by simp
  have "bit (ReadLE32 (WriteLE32 x @ r)) n \<longleftrightarrow>
      n < 8 \<and> bit x n \<or> (8 \<le> n \<and> n < 16 \<and> bit x (8 + (n - 8))) \<or> (16 \<le> n \<and> n < 24 \<and> bit x (16 + (n - 16))) \<or> (24 \<le> n \<and> bit x (24 + (n - 24)))"
    using n by (auto simp: ReadLE32_def WriteLE32_def bit_or_iff bit_push_bit_iff bit_ucast_iff bit_drop_bit_eq)
  then show "bit (ReadLE32 (WriteLE32 x @ r)) n \<longleftrightarrow> bit x n" using n by auto
qed

lemma UintToArith256_ArithToUint256:
  assumes "length a = WIDTH"
  shows "UintToArith256 (ArithToUint256 a) = a"
proof (rule nth_equalityI)
  have w: "length (WriteLE32 x) = 4" for x by (simp add: WriteLE32_def)
  have d: "drop (i * 4) (concat (map WriteLE32 b)) = concat (map WriteLE32 (drop i b))" for i b
  proof (induction i arbitrary: b)
    case (Suc i)
    then show ?case by (cases b) (simp_all add: w)
  qed simp
  fix i assume "i < length (UintToArith256 (ArithToUint256 a))"
  then have i: "i < WIDTH" by (simp add: UintToArith256_def)
  then have "drop i a = a ! i # drop (Suc i) a" using assms by (simp add: Cons_nth_drop_Suc)
  then show "UintToArith256 (ArithToUint256 a) ! i = a ! i"
    using i by (simp add: UintToArith256_def ArithToUint256_def d ReadLE32_WriteLE32 del: upt_Suc)
qed (simp add: UintToArith256_def assms)

section \<open>The abstract arithmetic\<close>

text \<open>
  C12. The limb loops implement arithmetic modulo \<open>2^256\<close>: sums, differences, products and shifts
  have the values of the abstract operations, \<open>CompareTo\<close> gives the order of the values, and
  division returns the quotient, or throws exactly when the divisor is zero.
\<close>

theorem base_uint_refines:
  assumes "length a = WIDTH" "length b = WIDTH"
  shows "au_val (au_add a b) = (au_val a + au_val b) mod 2 ^ 256 \<and>
    au_val (au_sub a b) = (au_val a + (2 ^ 256 - au_val b)) mod 2 ^ 256 \<and>
    au_val (au_mul a b) = (au_val a * au_val b) mod 2 ^ 256 \<and>
    au_val (au_mul32 a c) = (unat c * au_val a) mod 2 ^ 256 \<and>
    au_val (au_shl a n) = (au_val a * 2 ^ n) mod 2 ^ 256 \<and> au_val (au_shr a n) = au_val a div 2 ^ n \<and>
    CompareTo a b = sgn (int (au_val a) - int (au_val b)) \<and>
    (case au_div a b of None \<Rightarrow> au_val b = 0 | Some q \<Rightarrow> au_val b \<noteq> 0 \<and> au_val q = au_val a div au_val b)"
proof -
  have "case au_div a b of None \<Rightarrow> au_val b = 0 | Some q \<Rightarrow> au_val b \<noteq> 0 \<and> au_val q = au_val a div au_val b"
  proof (cases "au_val b = 0")
    case False
    then show ?thesis using au_div_val [OF assms False] by auto
  qed (use au_div_zero [OF assms(2)] in simp)
  then show ?thesis
    using au_add_val(2) [of a b] au_sub_mod(2) [of a b] au_mul_val [OF assms] au_mul32_val [of a c]
      au_shl_val [OF assms(1), of n] au_shr_val [OF assms(1), of n] CompareTo_val [OF assms] assms
    by simp
qed

theorem base_uint_refines_witness:
  "case au_div (au_of_u64 1000) (au_of_u64 7) of None \<Rightarrow> False | Some q \<Rightarrow> au_val q = 142"
  using base_uint_refines [of "au_of_u64 1000" "au_of_u64 7" 0 0] by (auto split: option.splits)

end
