(* ===== verification/Pool_Utils.thy ===== *)
theory Pool_Utils
  imports Pool_Prelude
begin

text \<open>
  The helpers of \<open>src/Utils.h\<close> and \<open>src/Utils.cc\<close>: hex strings, name filters, the
  alphanumeric rank, the map with bounded history and the generator of job ids. A C string
  is the list of its characters before the terminating zero.
\<close>

section \<open>Characters\<close>

definition ord :: "char \<Rightarrow> nat" where
  "ord c = of_char c"

definition isspace :: "char \<Rightarrow> bool" where
  "isspace c \<longleftrightarrow> ord c = 32 \<or> (9 \<le> ord c \<and> ord c \<le> 13)"

definition tolower :: "char \<Rightarrow> char" where
  "tolower c = (if 65 \<le> ord c \<and> ord c \<le> 90 then char_of (ord c + 32) else c)"

definition is_alnum :: "char \<Rightarrow> bool" where
  "is_alnum c \<longleftrightarrow> (97 \<le> ord c \<and> ord c \<le> 122) \<or> (65 \<le> ord c \<and> ord c \<le> 90) \<or> (48 \<le> ord c \<and> ord c \<le> 57)"

text \<open>\<open>std::to_string\<close> of an unsigned number.\<close>

function to_string :: "nat \<Rightarrow> string" where
  "to_string n = (if n < 10 then [char_of (48 + n)] else to_string (n div 10) @ [char_of (48 + n mod 10)])"
  by pat_completeness auto
termination by (relation "measure id") auto

declare to_string.simps [simp del]

section \<open>Hex strings\<close>

definition hexchars :: string where
  "hexchars = ''0123456789abcdef''"

definition hex2bin_char :: "char \<Rightarrow> int" where
  "hex2bin_char c =
     (if 48 \<le> ord c \<and> ord c \<le> 57 then int (ord c) - 48
      else if 97 \<le> ord c \<and> ord c \<le> 102 then int (ord c) - 97 + 10
      else if 65 \<le> ord c \<and> ord c \<le> 70 then int (ord c) - 65 + 10
      else -1)"

text \<open>The byte \<open>(h << 4) | l\<close> that two characters stand for.\<close>

definition hex_byte :: "char \<Rightarrow> char \<Rightarrow> u8" where
  "hex_byte h l = push_bit 4 (word_of_int (hex2bin_char h)) OR word_of_int (hex2bin_char l)"

fun hex_pairs :: "string \<Rightarrow> bytes" where
  "hex_pairs (h # l # s) = hex_byte h l # hex_pairs s"
| "hex_pairs _ = []"

definition hex_skip :: "string \<Rightarrow> string" where
  "hex_skip s = (let t = dropWhile isspace s in
     if t \<noteq> [] \<and> hd t = CHR ''0'' \<and> tl t \<noteq> [] \<and> tolower (t ! 1) = CHR ''x'' then drop 2 t else t)"

text \<open>
  The overload with a size, whose second loop stops at that offset, and the one that refuses
  an odd number of digits.
\<close>

definition Hex2Bin_n :: "string \<Rightarrow> nat \<Rightarrow> bool \<times> bytes" where
  "Hex2Bin_n s sz = (let t = hex_skip s in (True, hex_pairs (take (sz - (length s - length t)) t)))"

definition Hex2Bin :: "string \<Rightarrow> bool \<times> bytes" where
  "Hex2Bin s = (let t = hex_skip s in if length t mod 2 = 1 then (False, []) else (True, hex_pairs t))"

text \<open>
  \<open>Hex2BinReverse\<close> walks down from the last character; a string of spaces only takes it
  below the first one.
\<close>

fun hex_pairs_rev :: "string \<Rightarrow> bytes" where
  "hex_pairs_rev (l # h # s) = (if l = CHR ''x'' then [] else hex_byte h l # hex_pairs_rev s)"
| "hex_pairs_rev _ = []"

definition Hex2BinReverse :: "string \<Rightarrow> nat \<Rightarrow> (bool \<times> bytes) option" where
  "Hex2BinReverse s sz = (let t = dropWhile isspace (rev (take sz s)) in
     if t = [] then None else Some (True, hex_pairs_rev t))"

definition Bin2Hex :: "bytes \<Rightarrow> string" where
  "Bin2Hex bs = concat (map (\<lambda>b. [hexchars ! unat (drop_bit 4 b), hexchars ! unat (b AND 0xf)]) bs)"

definition Bin2HexR :: "bytes \<Rightarrow> string" where
  "Bin2HexR bs = Bin2Hex (map (\<lambda>i. bs ! (length bs - 1 - i)) [0..<length bs])"

definition has_hex_prefix :: "string \<Rightarrow> bool" where
  "has_hex_prefix s \<longleftrightarrow> length s \<ge> 2 \<and> s ! 0 = CHR ''0'' \<and> (s ! 1 = CHR ''x'' \<or> s ! 1 = CHR ''X'')"

definition HexStripPrefix :: "string \<Rightarrow> string" where
  "HexStripPrefix s = (if has_hex_prefix s then drop 2 s else s)"

definition HexAddPrefix :: "string \<Rightarrow> string" where
  "HexAddPrefix s = (if s = [] then s else if has_hex_prefix s then s else ''0x'' @ s)"

section \<open>Names\<close>

definition filterTableName :: "string \<Rightarrow> string" where
  "filterTableName s = filter (\<lambda>c. is_alnum c \<or> c = CHR ''_'') s"

definition isNiceHashAgent :: "string \<Rightarrow> bool" where
  "isNiceHashAgent clientAgent =
     (if length clientAgent < 9 then False else take 9 (map tolower clientAgent) = ''nicehash/'')"

text \<open>The rank table: letters of either case 0 to 25, digits 26 to 35, everything else 36.\<close>

definition kAlphaNumRankTable :: "char \<Rightarrow> nat" where
  "kAlphaNumRankTable c =
     (if 48 \<le> ord c \<and> ord c \<le> 57 then ord c - 48 + 26
      else if 65 \<le> ord c \<and> ord c \<le> 90 then ord c - 65
      else if 97 \<le> ord c \<and> ord c \<le> 122 then ord c - 97
      else 36)"

definition getAlphaNumRank :: "string \<Rightarrow> nat \<Rightarrow> u64" where
  "getAlphaNumRank str significand =
     (let strSize = (if length str > significand then significand else length str);
          r = foldl (\<lambda>r c. r * 37 + of_nat (kAlphaNumRankTable c)) 0 (take strSize str)
      in foldl (\<lambda>r _. r * 37) r [strSize..<significand])"

section \<open>Hex round trips\<close>

lemma hex_digit: "n < 16 \<Longrightarrow> hex2bin_char (hexchars ! n) = int n"
proof -
  have "list_all (\<lambda>n. hex2bin_char (hexchars ! n) = int n) [0..<16]"
    by (simp add: upt_conv_Cons hexchars_def hex2bin_char_def ord_def)
  then show "n < 16 \<Longrightarrow> ?thesis" by (simp add: list_all_iff)
qed

lemma nibbles_less: "unat (drop_bit 4 (b :: u8)) < 16" "unat (b AND 0xf :: u8) < 16"
proof -
  have "unat (drop_bit 4 b) = unat b div 16" by (simp add: drop_bit_eq_div unat_div)
  then show "unat (drop_bit 4 b) < 16" using unsigned_less [of b, where 'a = nat] by simp
  have "b AND 0xf = take_bit 4 b" by (simp add: take_bit_eq_mask mask_eq_exp_minus_1)
  then show "unat (b AND 0xf) < 16" using take_bit_nat_less_exp [of 4 "unat b"] by (simp add: unsigned_take_bit_eq)
qed

lemma hex_byte_nibbles: "hex_byte (hexchars ! unat (drop_bit 4 b)) (hexchars ! unat (b AND 0xf)) = b"
proof -
  have "b AND 0xf = take_bit 4 b" by (simp add: take_bit_eq_mask mask_eq_exp_minus_1)
  moreover have "push_bit 4 (drop_bit 4 b) OR take_bit 4 b = b"
    by (rule bit_word_eqI) (auto simp: bit_simps)
  ultimately show ?thesis using nibbles_less [of b] by (simp add: hex_byte_def hex_digit)
qed

lemma Bin2Hex_Nil [simp]: "Bin2Hex [] = []"
  by (simp add: Bin2Hex_def)

lemma Bin2Hex_Cons [simp]:
  "Bin2Hex (b # bs) = hexchars ! unat (drop_bit 4 b) # hexchars ! unat (b AND 0xf) # Bin2Hex bs"
  by (simp add: Bin2Hex_def)

lemma Bin2Hex_append [simp]: "Bin2Hex (as @ bs) = Bin2Hex as @ Bin2Hex bs"
  by (simp add: Bin2Hex_def)

lemma length_Bin2Hex [simp]: "length (Bin2Hex bs) = 2 * length bs"
  by (induction bs) auto

lemma hexchars_props: "c \<in> set hexchars \<Longrightarrow> \<not> isspace c \<and> tolower c = c \<and> c \<noteq> CHR ''x''"
  by (auto simp: hexchars_def isspace_def tolower_def ord_def)

lemma nibble_in_hexchars: "n < 16 \<Longrightarrow> hexchars ! n \<in> set hexchars"
  by (rule nth_mem) (simp add: hexchars_def)

lemma set_Bin2Hex: "set (Bin2Hex bs) \<subseteq> set hexchars"
  by (induction bs) (auto intro: nibble_in_hexchars nibbles_less)

lemma hex_skip_Bin2Hex [simp]: "hex_skip (Bin2Hex bs) = Bin2Hex bs"
proof (cases bs)
  case (Cons b bs')
  note props = hexchars_props [OF nibble_in_hexchars [OF nibbles_less(1) [of b]]]
    hexchars_props [OF nibble_in_hexchars [OF nibbles_less(2) [of b]]]
  then show ?thesis using Cons by (simp add: hex_skip_def Let_def)
qed (simp add: hex_skip_def)

lemma hex_pairs_Bin2Hex [simp]: "hex_pairs (Bin2Hex bs) = bs"
  by (induction bs) (simp_all add: hex_byte_nibbles)

lemma Bin2HexR_rev: "Bin2HexR bs = Bin2Hex (rev bs)"
proof -
  have "map (\<lambda>i. bs ! (length bs - 1 - i)) [0..<length bs] = rev bs"
    by (rule nth_equalityI) (simp_all add: rev_nth)
  then show ?thesis by (simp add: Bin2HexR_def)
qed

lemma hex_pairs_rev_Bin2Hex: "hex_pairs_rev (rev (Bin2Hex bs)) = rev bs"
proof (induction bs rule: rev_induct)
  case (snoc b bs)
  then show ?case using hexchars_props [OF nibble_in_hexchars [OF nibbles_less(2) [of b]]]
    by (simp add: hex_byte_nibbles)
qed simp

lemma Hex2BinReverse_Bin2Hex:
  assumes "bs \<noteq> []"
  shows "Hex2BinReverse (Bin2Hex bs) (2 * length bs) = Some (True, rev bs)"
proof -
  obtain b bs' where b: "bs = bs' @ [b]" using assms by (meson rev_exhaust)
  have "dropWhile isspace (rev (Bin2Hex bs)) = rev (Bin2Hex bs)"
    using hexchars_props [OF nibble_in_hexchars [OF nibbles_less(2) [of b]]] by (simp add: b)
  then show ?thesis using hex_pairs_rev_Bin2Hex [of bs] assms
    by (auto simp: Hex2BinReverse_def Let_def)
qed

text \<open>
  C25. Hex output is read back to the bytes it was made from: by both overloads of
  \<open>Hex2Bin\<close> from \<open>Bin2Hex\<close>, and by \<open>Hex2BinReverse\<close> from \<open>Bin2HexR\<close>.
\<close>

theorem hex_round_trip:
  "Hex2Bin (Bin2Hex bs) = (True, bs) \<and> Hex2Bin_n (Bin2Hex bs) (2 * length bs) = (True, bs) \<and>
     Hex2BinReverse (Bin2HexR (b # bs)) (2 * length (b # bs)) = Some (True, b # bs)"
proof -
  have "Hex2BinReverse (Bin2Hex (rev (b # bs))) (2 * length (rev (b # bs))) = Some (True, rev (rev (b # bs)))"
    by (rule Hex2BinReverse_Bin2Hex) simp
  then show ?thesis by (simp add: Hex2Bin_def Hex2Bin_n_def Let_def Bin2HexR_rev)
qed

lemma HexStripPrefix_AddPrefix: "\<not> has_hex_prefix s \<Longrightarrow> HexStripPrefix (HexAddPrefix s) = s"
  by (auto simp: HexStripPrefix_def HexAddPrefix_def has_hex_prefix_def)

section \<open>The rank of a name\<close>

text \<open>The rank is the number whose base-37 digits are the ranks of the characters.\<close>

definition rank_digits :: "string \<Rightarrow> nat \<Rightarrow> nat list" where
  "rank_digits str n = map kAlphaNumRankTable (take n str) @ replicate (n - length str) 0"

definition base37 :: "nat list \<Rightarrow> nat" where
  "base37 = foldl (\<lambda>r d. r * 37 + d) 0"

lemma rank_table_less: "kAlphaNumRankTable c < 37"
  by (auto simp: kAlphaNumRankTable_def)

lemma base37_snoc [simp]: "base37 [] = 0" "base37 (ds @ [d]) = base37 ds * 37 + d"
  by (simp_all add: base37_def)

lemma base37_append: "base37 (as @ bs) = base37 as * 37 ^ length bs + base37 bs"
proof (induction bs rule: rev_induct)
  case (snoc b bs)
  then show ?case using base37_snoc(2) [of "as @ bs" b] by (simp add: algebra_simps)
qed simp

lemma base37_less: "(\<And>d. d \<in> set ds \<Longrightarrow> d < 37) \<Longrightarrow> base37 ds < 37 ^ length ds"
proof (induction ds rule: rev_induct)
  case (snoc d ds)
  then have "base37 ds < 37 ^ length ds" "d < 37" by simp_all
  then have "base37 ds * 37 + d < 37 * 37 ^ length ds" by linarith
  then show ?case by simp
qed simp

lemma rank_digits_props: "length (rank_digits s n) = n" "d \<in> set (rank_digits s n) \<Longrightarrow> d < 37"
  by (auto simp: rank_digits_def rank_table_less split: if_splits)

lemma rank_foldl_word:
  "foldl (\<lambda>r d. r * 37 + of_nat d) (of_nat a :: u64) ds = of_nat (foldl (\<lambda>r d. r * 37 + d) a ds)"
proof (induction ds arbitrary: a)
  case (Cons d ds)
  have "of_nat a * 37 + of_nat d = (of_nat (a * 37 + d) :: u64)" by simp
  then show ?case using Cons [of "a * 37 + d"] by (simp only: foldl_Cons)
qed simp

lemma rank_foldl_pad:
  "foldl (\<lambda>r _. r * 37) (r :: u64) xs = foldl (\<lambda>r d. r * 37 + of_nat d) r (replicate (length xs) 0)"
  by (induction xs arbitrary: r) simp_all

lemma getAlphaNumRank_base37: "getAlphaNumRank s n = of_nat (base37 (rank_digits s n))"
proof -
  have m: "(if length s > n then n else length s) = min (length s) n" by (simp add: min_def)
  have d: "rank_digits s n = map kAlphaNumRankTable (take (min (length s) n) s) @
      replicate (length [min (length s) n..<n]) 0"
    by (auto simp: rank_digits_def min_def)
  show ?thesis
    using rank_foldl_word [of 0 "rank_digits s n"]
    unfolding getAlphaNumRank_def Let_def m rank_foldl_pad d base37_def by (simp add: foldl_map)
qed

text \<open>
  The rank of a worker name does not wrap, and with the default nine significant
  characters stays below \<open>2^52\<close>, so it is exact as a \<open>double\<close>. It orders names by their
  characters: where two names first differ within the significant part, the lower character
  gives the lower rank.
\<close>

theorem getAlphaNumRank_orders:
  assumes "rank_digits s 9 = p @ a # q" "rank_digits t 9 = p @ b # r" "a < b"
  shows "getAlphaNumRank s 9 < getAlphaNumRank t 9 \<and> unat (getAlphaNumRank t 9) < 2 ^ 52"
proof -
  have lt: "base37 (rank_digits x 9) < 37 ^ 9" for x
    using base37_less [of "rank_digits x 9"] rank_digits_props(1) [of x 9] rank_digits_props(2) by metis
  have u: "unat (getAlphaNumRank x 9) = base37 (rank_digits x 9)" for x
    using lt [of x] by (simp add: getAlphaNumRank_base37 unat_of_nat)
  have l: "length q = length r" using assms rank_digits_props(1) [of s 9] rank_digits_props(1) [of t 9] by simp
  have "base37 q < 37 ^ length q"
    using assms(1) rank_digits_props(2) [of _ s 9] by (intro base37_less) auto
  then have "base37 (a # q) < 37 ^ length q * (a + 1)"
    using base37_append [of "[a]" q] by (simp add: base37_def)
  also have "\<dots> \<le> 37 ^ length r * b" using assms(3) unfolding l by (intro mult_le_mono2) simp
  also have "\<dots> \<le> base37 (b # r)" using base37_append [of "[b]" r] by (simp add: base37_def)
  finally have "base37 (a # q) < base37 (b # r)" .
  then have "base37 (rank_digits s 9) < base37 (rank_digits t 9)"
    using base37_append [of p "a # q"] base37_append [of p "b # r"] assms(1,2) l by simp
  then show ?thesis using u [of s] u [of t] lt [of t] by (simp add: word_less_nat_alt)
qed

theorem getAlphaNumRank_orders_witness:
  "getAlphaNumRank ''antminer'' 9 < getAlphaNumRank ''Avalon'' 9 \<and> unat (getAlphaNumRank ''Avalon'' 9) < 2 ^ 52"
  by (rule getAlphaNumRank_orders [of _ "[0]" 13 "[19, 12, 8, 13, 4, 17, 0]" _ 21 "[0, 11, 14, 13, 0, 0, 0]"])
    (simp_all add: rank_digits_def kAlphaNumRankTable_def ord_def numeral_3_eq_3)

section \<open>SeqMap\<close>

text \<open>
  A map that remembers the order in which its keys were first used. The \<open>operator[]\<close> that
  creates a missing entry is \<open>sm_ref\<close>; an assignment through it is \<open>sm_set\<close>.
\<close>

record ('k, 'v) seq_map =
  sm_map :: "'k \<rightharpoonup> 'v"
  sm_queue :: "'k list"

definition sm_ref :: "'v \<Rightarrow> 'k \<Rightarrow> ('k, 'v) seq_map \<Rightarrow> 'v \<times> ('k, 'v) seq_map" where
  "sm_ref dflt k m = (case sm_map m k of
       None \<Rightarrow> (dflt, m\<lparr>sm_map := (sm_map m)(k \<mapsto> dflt), sm_queue := sm_queue m @ [k]\<rparr>)
     | Some v \<Rightarrow> (v, m))"

definition sm_set :: "'v \<Rightarrow> 'k \<Rightarrow> 'v \<Rightarrow> ('k, 'v) seq_map \<Rightarrow> ('k, 'v) seq_map" where
  "sm_set dflt k v m = (let m1 = snd (sm_ref dflt k m) in m1\<lparr>sm_map := (sm_map m1)(k \<mapsto> v)\<rparr>)"

text \<open>\<open>clear\<close> with a deletion callback: the deleted values are returned in order.\<close>

function sm_clear :: "nat \<Rightarrow> ('k, 'v) seq_map \<Rightarrow> 'v list \<times> ('k, 'v) seq_map" where
  "sm_clear maxSize m =
     (if length (sm_queue m) > maxSize then
        let k = hd (sm_queue m); m1 = m\<lparr>sm_queue := tl (sm_queue m)\<rparr>
        in case sm_map m k of
             None \<Rightarrow> sm_clear maxSize m1
           | Some v \<Rightarrow> (let (vs, m2) = sm_clear maxSize (m1\<lparr>sm_map := (sm_map m)(k := None)\<rparr>) in (v # vs, m2))
      else ([], m))"
  by pat_completeness auto
termination
  by (relation "measure (\<lambda>(n, m). length (sm_queue m))") auto

declare sm_clear.simps [simp del]

definition sm_inv :: "('k, 'v) seq_map \<Rightarrow> bool" where
  "sm_inv m \<longleftrightarrow> distinct (sm_queue m) \<and> dom (sm_map m) = set (sm_queue m)"

lemma sm_inv_set: "sm_inv m \<Longrightarrow> sm_inv (sm_set d k v m)"
  by (auto simp: sm_inv_def sm_set_def sm_ref_def Let_def split: option.splits)

text \<open>
  \<open>SeqMap::clear\<close> keeps exactly the \<open>maxSize\<close> keys first used most recently, with their
  values, and hands every other value to the callback, the oldest first.
\<close>

theorem sm_clear_keeps_newest:
  assumes "sm_inv m"
  shows "sm_clear maxSize m =
     (map (\<lambda>k. the (sm_map m k)) (take (length (sm_queue m) - maxSize) (sm_queue m)),
      m\<lparr>sm_map := sm_map m |` set (drop (length (sm_queue m) - maxSize) (sm_queue m)),
        sm_queue := drop (length (sm_queue m) - maxSize) (sm_queue m)\<rparr>)"
  using assms
proof (induction maxSize m rule: sm_clear.induct)
  case (1 maxSize m)
  show ?case
  proof (cases "length (sm_queue m) > maxSize")
    case False
    have "sm_map m |` set (sm_queue m) = sm_map m"
    proof
      fix k
      show "(sm_map m |` set (sm_queue m)) k = sm_map m k"
        using 1(3) by (cases "sm_map m k") (auto simp: sm_inv_def restrict_map_def)
    qed
    then show ?thesis using False by (simp add: sm_clear.simps [of maxSize m])
  next
    case True
    then obtain k q where q: "sm_queue m = k # q" by (cases "sm_queue m") auto
    obtain v where v: "sm_map m k = Some v" using 1(3) q by (auto simp: sm_inv_def)
    let ?m = "m\<lparr>sm_queue := q, sm_map := (sm_map m)(k := None)\<rparr>"
    have inv: "sm_inv ?m" using 1(3) q by (auto simp: sm_inv_def)
    have n: "length (sm_queue m) - maxSize = Suc (length q - maxSize)" using True q by simp
    have k: "k \<notin> set q" using 1(3) q by (simp add: sm_inv_def)
    have ih: "sm_clear maxSize ?m =
       (map (\<lambda>j. the (((sm_map m)(k := None)) j)) (take (length q - maxSize) q),
        m\<lparr>sm_map := (sm_map m)(k := None) |` set (drop (length q - maxSize) q), sm_queue := drop (length q - maxSize) q\<rparr>)"
      using 1(2) [OF True _ _ _ inv] q v by (simp del: restrict_fun_upd fun_upd_apply)
    have "map (\<lambda>j. the (((sm_map m)(k := None)) j)) (take (length q - maxSize) q) =
        map (\<lambda>j. the (sm_map m j)) (take (length q - maxSize) q)"
      using k by (auto dest: in_set_takeD)
    moreover have "(sm_map m)(k := None) |` set (drop (length q - maxSize) q) =
        sm_map m |` set (drop (length q - maxSize) q)"
      using k by (auto simp: restrict_map_def fun_eq_iff dest: in_set_dropD)
    ultimately show ?thesis
      using True q v ih n by (simp add: sm_clear.simps [of maxSize m] Let_def)
  qed
qed

theorem sm_clear_keeps_newest_witness:
  "fst (sm_clear 1 (sm_set 0 ''b'' (2::nat) (sm_set 0 ''a'' 1 \<lparr>sm_map = Map.empty, sm_queue = []\<rparr>))) = [1]"
proof -
  let ?m = "sm_set 0 ''b'' (2::nat) (sm_set 0 ''a'' 1 \<lparr>sm_map = Map.empty, sm_queue = []\<rparr>)"
  have "sm_inv ?m" by (intro sm_inv_set) (simp add: sm_inv_def)
  from sm_clear_keeps_newest [OF this, of 1] show ?thesis by (simp add: sm_set_def sm_ref_def)
qed

section \<open>Job ids\<close>

record id_generator =
  lastTimestamp :: u32
  lastIdLow :: u32

definition ig_new :: "u8 \<Rightarrow> id_generator" where
  "ig_new serverId = \<lparr>lastTimestamp = 0, lastIdLow = ucast serverId\<rparr>"

text \<open>\<open>next\<close>, given the time it reads.\<close>

definition ig_next :: "u32 \<Rightarrow> id_generator \<Rightarrow> u64 \<times> id_generator" where
  "ig_next t g =
     (let g' = (if t \<le> lastTimestamp g then g\<lparr>lastIdLow := lastIdLow g + 0x00000100\<rparr>
                else g\<lparr>lastIdLow := lastIdLow g AND 0x000000FF, lastTimestamp := t\<rparr>)
      in (push_bit 32 (ucast t) OR ucast (lastIdLow g'), g'))"

definition jobId2Time :: "u64 \<Rightarrow> u32" where
  "jobId2Time jobId = ucast (drop_bit 32 jobId AND 0x00000000FFFFFFFF)"

fun ig_run :: "id_generator \<Rightarrow> u32 list \<Rightarrow> u64 list" where
  "ig_run g [] = []"
| "ig_run g (t # ts) = (let (i, g') = ig_next t g in i # ig_run g' ts)"

lemma unat_ucast_small:
  "unat (ucast (t :: u32) :: u64) = unat t" "unat (ucast (b :: u8) :: u32) = unat b"
  using unsigned_less [of t, where 'a = nat] unsigned_less [of b, where 'a = nat]
  by (simp_all add: unsigned_ucast_eq take_bit_nat_eq_self)

lemma unat_low_byte: "unat (l AND 0xFF :: u32) = unat l mod 256"
proof -
  have "l AND 0xFF = take_bit 8 l" by (simp add: take_bit_eq_mask mask_eq_exp_minus_1)
  then show ?thesis by (simp add: unsigned_take_bit_eq take_bit_eq_mod unat_mod)
qed

lemma id_parts:
  "unat (push_bit 32 (ucast (t :: u32)) OR ucast (l :: u32) :: u64) = unat t * 2 ^ 32 + unat l"
proof -
  have "(push_bit 32 (ucast t) OR ucast l :: u64) = push_bit 32 (ucast t) + ucast l"
    by (rule disjunctive_add [symmetric]) (auto simp: bit_simps dest: bit_imp_le_length)
  moreover have "unat (push_bit 32 (ucast t) :: u64) = unat t * 2 ^ 32"
    using unsigned_less [of t, where 'a = nat]
    by (simp add: push_bit_eq_mult unat_mult_lem [THEN iffD1] unat_ucast_small mult.commute)
  ultimately show ?thesis using unsigned_less [of t, where 'a = nat] unsigned_less [of l, where 'a = nat]
    by (simp add: unat_add_lem [THEN iffD1] unat_ucast_small)
qed

text \<open>The low half is the server id plus a counter in its upper 24 bits.\<close>

definition ig_inv :: "u8 \<Rightarrow> nat \<Rightarrow> id_generator \<Rightarrow> bool" where
  "ig_inv sid c g \<longleftrightarrow> (\<exists>k\<le>c. unat (lastIdLow g) = unat sid + 256 * k)"

lemma ig_next_inv:
  assumes "ig_inv sid c g" "Suc c < 2 ^ 24" "ig_next t g = (i, g')"
  shows "ig_inv sid (Suc c) g' \<and> unat i = unat t * 2 ^ 32 + unat (lastIdLow g') \<and>
    (if t \<le> lastTimestamp g then unat (lastIdLow g') = unat (lastIdLow g) + 256 \<and> lastTimestamp g' = lastTimestamp g
     else unat (lastIdLow g') = unat sid \<and> lastTimestamp g' = t)"
proof -
  obtain k where k: "k \<le> c" "unat (lastIdLow g) = unat sid + 256 * k" using assms(1) by (auto simp: ig_inv_def)
  have s: "unat sid < 256" using unsigned_less [of sid, where 'a = nat] by simp
  have "unat (lastIdLow g + 0x100) = unat (lastIdLow g) + 256"
    using k s assms(2) by (subst unat_add_lem [THEN iffD1]) simp_all
  moreover note unat_low_byte [of "lastIdLow g"]
  moreover have "(unat sid + 256 * k) mod 256 = unat sid" using s by simp
  ultimately show ?thesis using assms(3) k id_parts [of t]
    by (auto simp: ig_next_def Let_def ig_inv_def intro: exI [of _ "Suc k"] exI [of _ 0] split: if_splits)
qed

lemma ig_run_increasing:
  assumes "ig_inv sid c g" "c + length ts < 2 ^ 24" "sorted ts" "\<forall>t\<in>set ts. lastTimestamp g \<le> t"
  shows "sorted_wrt (<) (ig_run g ts) \<and>
    (\<forall>i\<in>set (ig_run g ts). unat (lastTimestamp g) * 2 ^ 32 + unat (lastIdLow g) < unat i)"
  using assms
proof (induction ts arbitrary: g c)
  case (Cons t ts)
  obtain i g' where n: "ig_next t g = (i, g')" by fastforce
  have g': "ig_inv sid (Suc c) g'" "unat i = unat t * 2 ^ 32 + unat (lastIdLow g')"
    "if t \<le> lastTimestamp g then unat (lastIdLow g') = unat (lastIdLow g) + 256 \<and> lastTimestamp g' = lastTimestamp g
     else unat (lastIdLow g') = unat sid \<and> lastTimestamp g' = t"
    using ig_next_inv [OF Cons.prems(1) _ n] Cons.prems(2) by auto
  have t: "lastTimestamp g' = t" "lastTimestamp g \<le> t" using g'(3) Cons.prems(4) by (auto split: if_splits)
  have ih: "sorted_wrt (<) (ig_run g' ts)" "\<forall>j\<in>set (ig_run g' ts). unat t * 2 ^ 32 + unat (lastIdLow g') < unat j"
    using Cons.IH [OF g'(1)] Cons.prems t by auto
  have "unat (lastTimestamp g) * 2 ^ 32 + unat (lastIdLow g) < unat i"
  proof (cases "t \<le> lastTimestamp g")
    case True
    then have "lastTimestamp g = t" using t by simp
    then show ?thesis using g' True by simp
  next
    case False
    then have "unat (lastTimestamp g) + 1 \<le> unat t" by (simp add: word_le_nat_alt)
    then have "(unat (lastTimestamp g) + 1) * 2 ^ 32 \<le> unat t * 2 ^ 32" by (rule mult_le_mono1)
    then show ?thesis using g'(2) unsigned_less [of "lastIdLow g", where 'a = nat] by simp
  qed
  moreover have "\<forall>j\<in>set (ig_run g' ts). i < j \<and> unat i < unat j" using ih(2) g'(2) by (simp add: word_less_nat_alt)
  ultimately show ?case using ih(1) n by (auto intro: less_trans)
qed simp

text \<open>
  C26. As long as the clock does not go back and fewer than \<open>2^24\<close> ids are made, the ids of a
  generator strictly increase; so no two jobs share an id.
\<close>

theorem ig_run_monotonic:
  assumes "sorted ts" "length ts < 2 ^ 24"
  shows "sorted_wrt (<) (ig_run (ig_new sid) ts) \<and> distinct (ig_run (ig_new sid) ts)"
proof -
  have "ig_inv sid 0 (ig_new sid)" by (simp add: ig_inv_def ig_new_def unat_ucast_small)
  then have "sorted_wrt (<) (ig_run (ig_new sid) ts)"
    using ig_run_increasing [of sid 0 "ig_new sid" ts] assms by (simp add: ig_new_def)
  then show ?thesis using strict_sorted_iff by blast
qed

theorem ig_run_monotonic_witness:
  "distinct (ig_run (ig_new 7) [10, 10, 11])"
  using ig_run_monotonic [of "[10, 10, 11]" 7] by simp

text \<open>
  The comment in \<open>next\<close> promises a monotonic id. When the clock steps back the returned
  id carries the earlier time, below ids already returned, and the same id can be returned twice.
\<close>

theorem ig_next_repeats_id:
  "\<not> distinct (ig_run (ig_new sid) [10, 10, 11, 10])"
proof -
  let ?x = "ucast sid AND 0xFF :: u32"
  have x: "unat ?x < 256" by (simp add: unat_low_byte)
  then have "unat (?x + 0x100) = unat ?x + 256" by (subst unat_add_lem [THEN iffD1]) simp_all
  then have "(?x + 0x100) AND 0xFF = ?x" using x by (simp only: word_unat_eq_iff unat_low_byte) simp
  then show ?thesis by (simp add: ig_next_def ig_new_def Let_def)
qed

end
