(* ===== verification/Str_Encodings.thy ===== *)
theory Str_Encodings
  imports Pool_Utils
begin

text \<open>
  \<open>tools/common/utilstrencodings.{h,cpp}\<close>: the string encodings the log tools share. The Base64
  and Base32 coders are the state machines of the code, with their \<open>mode\<close> and their \<open>left\<close> bits; a
  C string is the list of its characters before the terminating zero, which reads as \<open>nul\<close>.
  The round trips of both coders, of hex strings and of decimal numbers are proved, and that
  the comparison in constant time decides equality.
\<close>

section \<open>C strings\<close>

definition nul :: char where "nul = CHR 0x00"

definition c_str :: "string \<Rightarrow> string" where
  "c_str s = takeWhile (\<lambda>c. c \<noteq> nul) s"

definition peek :: "string \<Rightarrow> nat \<Rightarrow> char" where
  "peek p k = (if k < length p then p ! k else nul)"

definition isdigit :: "char \<Rightarrow> bool" where
  "isdigit c \<longleftrightarrow> 48 \<le> ord c \<and> ord c \<le> 57"

definition dec_value :: "string \<Rightarrow> nat" where
  "dec_value ds = foldl (\<lambda>v c. v * 10 + (ord c - 48)) 0 ds"

text \<open>
  \<open>strtol\<close> and \<open>strtoll\<close> in base 10, both 64 bits wide: the value, the rest of the string and
  whether \<open>errno\<close> is set. Without a digit nothing is consumed.
\<close>

definition strtoll10 :: "string \<Rightarrow> int \<times> string \<times> bool" where
  "strtoll10 s =
     (let t = dropWhile isspace s;
          neg = (t \<noteq> [] \<and> hd t = CHR ''-'');
          u = (if t \<noteq> [] \<and> (hd t = CHR ''-'' \<or> hd t = CHR ''+'') then tl t else t);
          d = takeWhile isdigit u;
          v = (if neg then - int (dec_value d) else int (dec_value d));
          r = dropWhile isdigit u
      in if d = [] then (0, s, False)
         else if v < - (2 ^ 63) then (- (2 ^ 63), r, True)
         else if v > 2 ^ 63 - 1 then (2 ^ 63 - 1, r, True)
         else (v, r, False))"

definition strtoull10 :: "string \<Rightarrow> u64 \<times> string \<times> bool" where
  "strtoull10 s =
     (let t = dropWhile isspace s;
          neg = (t \<noteq> [] \<and> hd t = CHR ''-'');
          u = (if t \<noteq> [] \<and> (hd t = CHR ''-'' \<or> hd t = CHR ''+'') then tl t else t);
          d = takeWhile isdigit u;
          v = dec_value d;
          r = dropWhile isdigit u
      in if d = [] then (0, s, False)
         else if v > 2 ^ 64 - 1 then (- 1, r, True)
         else (if neg then - of_nat v else of_nat v, r, False))"

section \<open>Filters and hex\<close>

definition CHARS_ALPHA_NUM :: string where
  "CHARS_ALPHA_NUM = ''abcdefghijklmnopqrstuvwxyzABCDEFGHIJKLMNOPQRSTUVWXYZ0123456789''"

datatype SafeChars = SAFE_CHARS_DEFAULT | SAFE_CHARS_UA_COMMENT | SAFE_CHARS_FILENAME

fun SAFE_CHARS :: "SafeChars \<Rightarrow> string" where
  "SAFE_CHARS SAFE_CHARS_DEFAULT = CHARS_ALPHA_NUM @ '' .,;-_/:?@()''"
| "SAFE_CHARS SAFE_CHARS_UA_COMMENT = CHARS_ALPHA_NUM @ '' .,;-_?@''"
| "SAFE_CHARS SAFE_CHARS_FILENAME = CHARS_ALPHA_NUM @ ''.-_''"

definition SanitizeString :: "string \<Rightarrow> SafeChars \<Rightarrow> string" where
  "SanitizeString str rule = filter (\<lambda>c. c \<in> set (SAFE_CHARS rule)) str"

definition p_util_hexdigit :: "int list" where
  "p_util_hexdigit = replicate 48 (- 1) @ [0, 1, 2, 3, 4, 5, 6, 7, 8, 9] @ replicate 7 (- 1) @
     [0xa, 0xb, 0xc, 0xd, 0xe, 0xf] @ replicate 26 (- 1) @ [0xa, 0xb, 0xc, 0xd, 0xe, 0xf] @ replicate 153 (- 1)"

definition HexDigit :: "char \<Rightarrow> int" where
  "HexDigit c = p_util_hexdigit ! ord c"

definition IsHex :: "string \<Rightarrow> bool" where
  "IsHex str \<longleftrightarrow> list_all (\<lambda>c. \<not> HexDigit c < 0) str \<and> length str > 0 \<and> length str mod 2 = 0"

definition IsHexNumber :: "string \<Rightarrow> bool" where
  "IsHexNumber str =
     (let start = if length str > 2 \<and> str ! 0 = CHR ''0'' \<and> str ! 1 = CHR ''x'' then 2 else 0
      in list_all (\<lambda>c. \<not> HexDigit c < 0) (drop start str) \<and> length str > start)"

text \<open>\<open>ParseHex\<close> skips space before a pair of digits, not inside it.\<close>

function ParseHex :: "string \<Rightarrow> bytes" where
  "ParseHex psz =
     (let s = dropWhile isspace psz; c = HexDigit (peek s 0); d = HexDigit (peek s 1)
      in if c = - 1 \<or> s = [] then []
         else if d = - 1 \<or> tl s = [] then []
         else (push_bit 4 (word_of_int c) OR word_of_int d) # ParseHex (drop 2 s))"
  by pat_completeness auto
termination
proof (relation "measure length", goal_cases)
  case (2 psz s c d)
  have "length s \<le> length psz" using 2(1) by (simp add: length_dropWhile_le)
  moreover have "0 < length s" using 2(4) by simp
  ultimately show ?case by (simp del: length_greater_0_conv)
qed simp

declare ParseHex.simps [simp del]

definition HexStr :: "bytes \<Rightarrow> bool \<Rightarrow> string" where
  "HexStr bs fSpaces = concat (map (\<lambda>i.
     (if fSpaces \<and> i \<noteq> 0 then '' '' else []) @
     [hexchars ! unat (drop_bit 4 (bs ! i)), hexchars ! unat (bs ! i AND 15)]) [0..<length bs])"

section \<open>Base64\<close>

definition pbase64 :: string where
  "pbase64 = ''ABCDEFGHIJKLMNOPQRSTUVWXYZabcdefghijklmnopqrstuvwxyz0123456789+/''"

fun b64_enc :: "nat \<Rightarrow> nat \<Rightarrow> nat list \<Rightarrow> string" where
  "b64_enc mode left [] =
     (if mode \<noteq> 0 then pbase64 ! left # ''='' @ (if mode = 1 then ''='' else []) else [])"
| "b64_enc mode left (enc # pch) =
     (if mode = 0 then pbase64 ! drop_bit 2 enc # b64_enc 1 (push_bit 4 (enc AND 3)) pch
      else if mode = 1 then pbase64 ! (left OR drop_bit 4 enc) # b64_enc 2 (push_bit 2 (enc AND 15)) pch
      else pbase64 ! (left OR drop_bit 6 enc) # pbase64 ! (enc AND 63) # b64_enc 0 left pch)"

definition EncodeBase64 :: "bytes \<Rightarrow> string" where
  "EncodeBase64 pch = b64_enc 0 0 (map unat pch)"

definition decode64_table :: "int list" where
  "decode64_table = replicate 43 (- 1) @ [62] @ replicate 3 (- 1) @ [63] @ map int [52..<62] @ replicate 7 (- 1) @
     map int [0..<26] @ replicate 6 (- 1) @ map int [26..<52] @ replicate 133 (- 1)"

definition decode64 :: "char \<Rightarrow> int" where
  "decode64 c = decode64_table ! ord c"

fun b64_dec :: "nat \<Rightarrow> nat \<Rightarrow> string \<Rightarrow> bytes \<times> nat \<times> nat \<times> string" where
  "b64_dec mode left [] = ([], mode, left, [])"
| "b64_dec mode left (c # p) =
     (if decode64 c = - 1 then ([], mode, left, c # p)
      else let d = nat (decode64 c)
           in if mode = 0 then b64_dec 1 d p
              else if mode = 1 then apfst ((#) (of_nat (push_bit 2 left OR drop_bit 4 d))) (b64_dec 2 (d AND 15) p)
              else if mode = 2 then apfst ((#) (of_nat (push_bit 4 left OR drop_bit 2 d))) (b64_dec 3 (d AND 3) p)
              else apfst ((#) (of_nat (push_bit 6 left OR d))) (b64_dec 0 left p))"

text \<open>The result and \<open>*pfInvalid\<close>.\<close>

definition DecodeBase64 :: "string \<Rightarrow> bytes \<times> bool" where
  "DecodeBase64 s =
     (case b64_dec 0 0 (c_str s) of (vchRet, mode, left, p) \<Rightarrow>
        (vchRet,
         mode = 1 \<or>
         mode = 2 \<and> (left \<noteq> 0 \<or> peek p 0 \<noteq> CHR ''='' \<or> peek p 1 \<noteq> CHR ''='' \<or> decode64 (peek p 2) \<noteq> - 1) \<or>
         mode = 3 \<and> (left \<noteq> 0 \<or> peek p 0 \<noteq> CHR ''='' \<or> decode64 (peek p 1) \<noteq> - 1)))"

section \<open>Base32\<close>

definition pbase32 :: string where
  "pbase32 = ''abcdefghijklmnopqrstuvwxyz234567''"

definition nPadding :: "nat list" where
  "nPadding = [0, 6, 4, 3, 1]"

fun b32_enc :: "nat \<Rightarrow> nat \<Rightarrow> nat list \<Rightarrow> string" where
  "b32_enc mode left [] =
     (if mode \<noteq> 0 then pbase32 ! left # replicate (nPadding ! mode) CHR ''='' else [])"
| "b32_enc mode left (enc # pch) =
     (if mode = 0 then pbase32 ! drop_bit 3 enc # b32_enc 1 (push_bit 2 (enc AND 7)) pch
      else if mode = 1 then pbase32 ! (left OR drop_bit 6 enc) # pbase32 ! (drop_bit 1 enc AND 31) # b32_enc 2 (push_bit 4 (enc AND 1)) pch
      else if mode = 2 then pbase32 ! (left OR drop_bit 4 enc) # b32_enc 3 (push_bit 1 (enc AND 15)) pch
      else if mode = 3 then pbase32 ! (left OR drop_bit 7 enc) # pbase32 ! (drop_bit 2 enc AND 31) # b32_enc 4 (push_bit 3 (enc AND 3)) pch
      else pbase32 ! (left OR drop_bit 5 enc) # pbase32 ! (enc AND 31) # b32_enc 0 left pch)"

definition EncodeBase32 :: "bytes \<Rightarrow> string" where
  "EncodeBase32 pch = b32_enc 0 0 (map unat pch)"

definition decode32_table :: "int list" where
  "decode32_table = replicate 50 (- 1) @ map int [26..<32] @ replicate 9 (- 1) @ map int [0..<26] @ replicate 6 (- 1) @
     map int [0..<26] @ replicate 133 (- 1)"

definition decode32 :: "char \<Rightarrow> int" where
  "decode32 c = decode32_table ! ord c"

fun b32_dec :: "nat \<Rightarrow> nat \<Rightarrow> string \<Rightarrow> bytes \<times> nat \<times> nat \<times> string" where
  "b32_dec mode left [] = ([], mode, left, [])"
| "b32_dec mode left (c # p) =
     (if decode32 c = - 1 then ([], mode, left, c # p)
      else let d = nat (decode32 c)
           in if mode = 0 then b32_dec 1 d p
              else if mode = 1 then apfst ((#) (of_nat (push_bit 3 left OR drop_bit 2 d))) (b32_dec 2 (d AND 3) p)
              else if mode = 2 then b32_dec 3 (push_bit 5 left OR d) p
              else if mode = 3 then apfst ((#) (of_nat (push_bit 1 left OR drop_bit 4 d))) (b32_dec 4 (d AND 15) p)
              else if mode = 4 then apfst ((#) (of_nat (push_bit 4 left OR drop_bit 1 d))) (b32_dec 5 (d AND 1) p)
              else if mode = 5 then b32_dec 6 (push_bit 5 left OR d) p
              else if mode = 6 then apfst ((#) (of_nat (push_bit 2 left OR drop_bit 3 d))) (b32_dec 7 (d AND 7) p)
              else apfst ((#) (of_nat (push_bit 5 left OR d))) (b32_dec 0 left p))"

definition b32_pad :: "nat \<Rightarrow> string \<Rightarrow> bool" where
  "b32_pad n p \<longleftrightarrow> list_all (\<lambda>k. peek p k = CHR ''='') [0..<n] \<and> decode32 (peek p n) = - 1"

definition DecodeBase32 :: "string \<Rightarrow> bytes \<times> bool" where
  "DecodeBase32 s =
     (case b32_dec 0 0 (c_str s) of (vchRet, mode, left, p) \<Rightarrow>
        (vchRet,
         mode = 1 \<or> mode = 3 \<or> mode = 6 \<or>
         mode = 2 \<and> (left \<noteq> 0 \<or> \<not> b32_pad 6 p) \<or>
         mode = 4 \<and> (left \<noteq> 0 \<or> \<not> b32_pad 4 p) \<or>
         mode = 5 \<and> (left \<noteq> 0 \<or> \<not> b32_pad 3 p) \<or>
         mode = 7 \<and> (left \<noteq> 0 \<or> \<not> b32_pad 1 p)))"

section \<open>Numbers\<close>

definition ParsePrechecks :: "string \<Rightarrow> bool" where
  "ParsePrechecks str =
     (if str = [] then False
      else if length str \<ge> 1 \<and> (isspace (hd str) \<or> isspace (last str)) then False
      else if length str \<noteq> length (c_str str) then False
      else True)"

text \<open>The result of a parser and what it stores through \<open>out\<close>; \<^term>\<open>None\<close>: nothing is stored.\<close>

definition ParseInt32 :: "string \<Rightarrow> bool \<times> int option" where
  "ParseInt32 str =
     (if \<not> ParsePrechecks str then (False, None)
      else case strtoll10 (c_str str) of (n, endp, errno) \<Rightarrow>
        (endp = [] \<and> \<not> errno \<and> n \<ge> - (2 ^ 31) \<and> n \<le> 2 ^ 31 - 1, Some (signed_take_bit 31 n)))"

definition ParseInt64 :: "string \<Rightarrow> bool \<times> int option" where
  "ParseInt64 str =
     (if \<not> ParsePrechecks str then (False, None)
      else case strtoll10 (c_str str) of (n, endp, errno) \<Rightarrow>
        (endp = [] \<and> \<not> errno \<and> n \<ge> - (2 ^ 63) \<and> n \<le> 2 ^ 63 - 1, Some n))"

definition ParseUInt32 :: "string \<Rightarrow> bool \<times> u32 option" where
  "ParseUInt32 str =
     (if \<not> ParsePrechecks str then (False, None)
      else if length str \<ge> 1 \<and> hd str = CHR ''-'' then (False, None)
      else case strtoull10 (c_str str) of (n, endp, errno) \<Rightarrow>
        (endp = [] \<and> \<not> errno \<and> n \<le> 0xffffffff, Some (ucast n)))"

definition ParseUInt64 :: "string \<Rightarrow> bool \<times> u64 option" where
  "ParseUInt64 str =
     (if \<not> ParsePrechecks str then (False, None)
      else if length str \<ge> 1 \<and> hd str = CHR ''-'' then (False, None)
      else case strtoull10 (c_str str) of (n, endp, errno) \<Rightarrow> (endp = [] \<and> \<not> errno, Some n))"

definition i64tostr :: "int \<Rightarrow> string" where
  "i64tostr n = (if n < 0 then CHR ''-'' # to_string (nat (- n)) else to_string (nat n))"

definition atoi64 :: "string \<Rightarrow> int" where
  "atoi64 str = fst (strtoll10 (c_str str))"

text \<open>\<open>SplitHostPort\<close> keeps the old port unless the text after the last colon is a port number.\<close>

fun find_last_of :: "char \<Rightarrow> string \<Rightarrow> nat option" where
  "find_last_of c [] = None"
| "find_last_of c (x # s) = (case find_last_of c s of Some i \<Rightarrow> Some (Suc i) | None \<Rightarrow> if x = c then Some 0 else None)"

definition SplitHostPort :: "string \<Rightarrow> int \<Rightarrow> int \<times> string" where
  "SplitHostPort inp portOut =
     (let (inp', port) =
        (case find_last_of CHR '':'' inp of
           None \<Rightarrow> (inp, portOut)
         | Some colon \<Rightarrow>
             let fBracketed = (inp ! 0 = CHR ''['' \<and> inp ! (colon - 1) = CHR '']'');
                 fMultiColon = (if colon = 0 then True else find_last_of CHR '':'' (take colon inp) \<noteq> None)
             in if colon = 0 \<or> fBracketed \<or> \<not> fMultiColon then
                  case ParseInt32 (drop (colon + 1) inp) of
                    (True, Some n) \<Rightarrow> if n > 0 \<and> n < 0x10000 then (take colon inp, n) else (inp, portOut)
                  | _ \<Rightarrow> (inp, portOut)
                else (inp, portOut))
      in (port,
          if length inp' > 0 \<and> inp' ! 0 = CHR ''['' \<and> inp' ! (length inp' - 1) = CHR '']''
          then take (length inp' - 2) (drop 1 inp') else inp'))"

definition TimingResistantEqual :: "bytes \<Rightarrow> bytes \<Rightarrow> bool" where
  "TimingResistantEqual a b =
     (if length b = 0 then length a = 0
      else foldl (\<lambda>acc i. acc OR ucast (a ! i XOR b ! (i mod length b))) (of_nat (length a) XOR of_nat (length b) :: u64)
             [0..<length a] = 0)"

section \<open>Fixed-point numbers\<close>

definition UPPER_BOUND :: int where
  "UPPER_BOUND = 1000000000000000000 - 1"

text \<open>The loop \<open>for (i = 0; i <= mantissa_tzeros; ++i)\<close> with its overflow check; \<^term>\<open>None\<close> is \<open>false\<close>.\<close>

fun fp_mul10 :: "nat \<Rightarrow> int \<Rightarrow> int option" where
  "fp_mul10 0 mantissa = Some mantissa"
| "fp_mul10 (Suc n) mantissa = (if mantissa > UPPER_BOUND sdiv 10 then None else fp_mul10 n (mantissa * 10))"

definition ProcessMantissaDigit :: "char \<Rightarrow> int \<times> nat \<Rightarrow> (int \<times> nat) option" where
  "ProcessMantissaDigit ch = (\<lambda>(mantissa, tzeros).
     if ch = CHR ''0'' then Some (mantissa, tzeros + 1)
     else do { m \<leftarrow> fp_mul10 (tzeros + 1) mantissa; Some (m + (int (ord ch) - 48), 0) })"

text \<open>The loop over the digits of the mantissa: its state and the digits not read.\<close>

fun fp_digits :: "string \<Rightarrow> int \<times> nat \<Rightarrow> ((int \<times> nat) \<times> string) option" where
  "fp_digits [] st = Some (st, [])"
| "fp_digits (c # s) st = (if isdigit c then do { st' \<leftarrow> ProcessMantissaDigit c st; fp_digits s st' } else Some (st, c # s))"

fun fp_exp :: "string \<Rightarrow> int \<Rightarrow> (int \<times> string) option" where
  "fp_exp [] e = Some (e, [])"
| "fp_exp (c # s) e =
     (if isdigit c then if e > UPPER_BOUND sdiv 10 then None else fp_exp s (e * 10 + int (ord c) - 48)
      else Some (e, c # s))"

fun fp_scale :: "nat \<Rightarrow> int \<Rightarrow> int option" where
  "fp_scale 0 mantissa = Some mantissa"
| "fp_scale (Suc n) mantissa =
     (if mantissa > UPPER_BOUND sdiv 10 \<or> mantissa < - (UPPER_BOUND sdiv 10) then None else fp_scale n (mantissa * 10))"

definition fp_int_part :: "string \<Rightarrow> ((int \<times> nat) \<times> string) option" where
  "fp_int_part s = (case s of [] \<Rightarrow> None
     | c # r \<Rightarrow> if c = CHR ''0'' then Some ((0, 0), r)
                else if isdigit c then fp_digits s (0, 0) else None)"

text \<open>The digits after the point, and how many there are.\<close>

definition fp_frac_part :: "string \<Rightarrow> int \<times> nat \<Rightarrow> ((int \<times> nat) \<times> nat \<times> string) option" where
  "fp_frac_part s st = (if s \<noteq> [] \<and> hd s = CHR ''.'' then
       if tl s \<noteq> [] \<and> isdigit (hd (tl s))
       then do { (st', r) \<leftarrow> fp_digits (tl s) st; Some (st', length (tl s) - length r, r) }
       else None
     else Some (st, 0, s))"

definition fp_exp_part :: "string \<Rightarrow> (int \<times> string) option" where
  "fp_exp_part s = (if s \<noteq> [] \<and> (hd s = CHR ''e'' \<or> hd s = CHR ''E'') then
       let r = tl s; neg = (r \<noteq> [] \<and> hd r = CHR ''-'');
           t = (if r \<noteq> [] \<and> (hd r = CHR ''+'' \<or> hd r = CHR ''-'') then tl r else r)
       in if t \<noteq> [] \<and> isdigit (hd t) then do { (e, u) \<leftarrow> fp_exp t 0; Some (if neg then - e else e, u) } else None
     else Some (0, s))"

definition ParseFixedPoint :: "string \<Rightarrow> int \<Rightarrow> int option" where
  "ParseFixedPoint val decimals =
     (let sign = (val \<noteq> [] \<and> hd val = CHR ''-''); s0 = (if sign then tl val else val)
      in do {
        (st1, s1) \<leftarrow> fp_int_part s0;
        ((mantissa, tzeros), ofs, s2) \<leftarrow> fp_frac_part s1 st1;
        (e, s3) \<leftarrow> fp_exp_part s2;
        if s3 \<noteq> [] then None
        else let exponent = e - int ofs + int tzeros + decimals; m = (if sign then - mantissa else mantissa)
             in if exponent < 0 then None
                else if exponent \<ge> 18 then None
                else do {
                  r \<leftarrow> fp_scale (nat exponent) m;
                  if r > UPPER_BOUND \<or> r < - UPPER_BOUND then None else Some r }
      })"

section \<open>Bits of bytes\<close>

lemma and_low_bits:
  "(x::nat) AND 1 = take_bit 1 x" "(x::nat) AND 3 = take_bit 2 x" "(x::nat) AND 7 = take_bit 3 x"
  "(x::nat) AND 15 = take_bit 4 x" "(x::nat) AND 31 = take_bit 5 x" "(x::nat) AND 63 = take_bit 6 x"
  by (simp_all add: take_bit_eq_mask mask_eq_exp_minus_1)

lemma bit_less_exp: "(x::nat) < 2 ^ k \<Longrightarrow> bit x n \<Longrightarrow> n < k"
  by (metis bit_take_bit_iff take_bit_nat_eq_self)

lemma less_exp_bits:
  assumes "\<And>n. bit (x::nat) n \<Longrightarrow> n < k"
  shows "x < 2 ^ k"
proof -
  have "take_bit k x = x" using assms by (intro bit_eqI) (auto simp: bit_take_bit_iff)
  then show ?thesis by (metis take_bit_nat_less_exp)
qed

lemma bit8_eqI:
  fixes x y :: nat
  assumes "\<And>n. bit x n \<Longrightarrow> n < 8" "\<And>n. bit y n \<Longrightarrow> n < 8"
    "bit x 0 = bit y 0" "bit x 1 = bit y 1" "bit x 2 = bit y 2" "bit x 3 = bit y 3"
    "bit x 4 = bit y 4" "bit x 5 = bit y 5" "bit x 6 = bit y 6" "bit x 7 = bit y 7"
  shows "x = y"
proof (rule bit_eqI)
  fix n :: nat
  have "n < 8 \<Longrightarrow> n \<in> {0, 1, 2, 3, 4, 5, 6, 7}" by auto
  then show "bit x n \<longleftrightarrow> bit y n" using assms by (cases "n < 8") auto
qed

lemma bit_times_2: "bit ((x::nat) * 2) n \<longleftrightarrow> 1 \<le> n \<and> bit x (n - 1)"
  using bit_push_bit_iff [of 1 x n] by (simp add: push_bit_eq_mult)

lemma bit_mod_2: "bit ((x::nat) mod 2) n \<longleftrightarrow> n = 0 \<and> bit x 0"
  using bit_take_bit_iff [of 1 x n] by (auto simp: take_bit_eq_mod)

lemma nat_even_bit: "even (x :: nat) \<longleftrightarrow> \<not> bit x 0"
  by (simp add: bit_0)

lemmas bits_arith = bit_times_2 bit_mod_2 nat_even_bit bit_or_iff bit_push_bit_iff bit_drop_bit_eq bit_take_bit_iff and_low_bits comp_def

lemma byte_bit: "bit (unat (x :: u8)) n \<Longrightarrow> n < 8"
  using bit_less_exp [of "unat x" 8 n] unsigned_less [of x, where 'a = nat] by simp

lemma byte_bit_high [simp]: "8 \<le> n \<Longrightarrow> \<not> bit (unat (x :: u8)) n"
  using byte_bit [of x n] by auto

lemma b64_indices:
  "drop_bit 2 (unat (a :: u8)) < 64"
  "push_bit 4 (unat a AND 3) OR drop_bit 4 (unat (b :: u8)) < 64"
  "push_bit 2 (unat b AND 15) OR drop_bit 6 (unat (c :: u8)) < 64"
  "unat c AND 63 < 64"
  "push_bit 4 (unat a AND 3) < 64" "push_bit 2 (unat b AND 15) < 64"
proof -
  have 1: "x < 2 ^ 6 \<Longrightarrow> x < 64" for x :: nat by simp
  show "drop_bit 2 (unat (a :: u8)) < 64"
    "push_bit 4 (unat a AND 3) OR drop_bit 4 (unat (b :: u8)) < 64"
    "push_bit 2 (unat b AND 15) OR drop_bit 6 (unat (c :: u8)) < 64"
    "unat c AND 63 < 64"
    "push_bit 4 (unat a AND 3) < 64" "push_bit 2 (unat b AND 15) < 64"
    by (rule 1 [OF less_exp_bits]; auto simp: bits_arith dest: byte_bit)+
qed

lemma b64_bytes:
  fixes a b c :: u8
  shows "push_bit 2 (drop_bit 2 (unat a)) OR drop_bit 4 (push_bit 4 (unat a AND 3) OR drop_bit 4 (unat b)) = unat a"
    "push_bit 4 ((push_bit 4 (unat a AND 3) OR drop_bit 4 (unat b)) AND 15) OR drop_bit 2 (push_bit 2 (unat b AND 15) OR drop_bit 6 (unat c)) = unat b"
    "push_bit 6 ((push_bit 2 (unat b AND 15) OR drop_bit 6 (unat c)) AND 3) OR (unat c AND 63) = unat c"
    "push_bit 2 (drop_bit 2 (unat a)) OR drop_bit 4 (push_bit 4 (unat a AND 3)) = unat a"
    "push_bit 4 ((push_bit 4 (unat a AND 3) OR drop_bit 4 (unat b)) AND 15) OR drop_bit 2 (push_bit 2 (unat b AND 15)) = unat b"
    "push_bit 4 (unat a AND 3) AND 15 = 0" "push_bit 2 (unat b AND 15) AND 3 = 0"
  by (rule bit8_eqI; (simp add: bits_arith numeral_2_eq_2 [symmetric]; fail | auto simp: bits_arith dest: byte_bit))+

lemma decode64_index: "n < 64 \<Longrightarrow> decode64 (pbase64 ! n) = int n"
proof -
  have "list_all (\<lambda>n. decode64 (pbase64 ! n) = int n) [0..<64]"
    by (simp add: upt_conv_Cons decode64_def decode64_table_def nth_append pbase64_def ord_def)
  then show "n < 64 \<Longrightarrow> ?thesis" by (simp add: list_all_iff)
qed

lemma decode64_end: "decode64 CHR ''='' = - 1" "decode64 nul = - 1"
  by (simp_all add: decode64_def decode64_table_def nth_append ord_def nul_def)

lemma b64_dec_index: "n < 64 \<Longrightarrow> b64_dec mode left (pbase64 ! n # p) =
     (if mode = 0 then b64_dec 1 n p
      else if mode = 1 then apfst ((#) (of_nat (push_bit 2 left OR drop_bit 4 n))) (b64_dec 2 (n AND 15) p)
      else if mode = 2 then apfst ((#) (of_nat (push_bit 4 left OR drop_bit 2 n))) (b64_dec 3 (n AND 3) p)
      else apfst ((#) (of_nat (push_bit 6 left OR n))) (b64_dec 0 left p))"
  by (simp add: decode64_index)

definition b64_done :: "nat \<times> nat \<times> string \<Rightarrow> bool" where
  "b64_done = (\<lambda>(mode, left, p). mode = 0 \<and> p = [] \<or> mode = 2 \<and> left = 0 \<and> p = ''=='' \<or> mode = 3 \<and> left = 0 \<and> p = ''='')"

lemma b64_round: "\<exists>r. b64_dec 0 l (b64_enc 0 l' (map unat bs)) = (bs, r) \<and> b64_done r"
proof (induction bs arbitrary: l l' rule: measure_induct_rule [of length])
  case (less bs)
  consider "bs = []" | a where "bs = [a]" | a b where "bs = [a, b]" | a b c r where "bs = a # b # c # r"
    by (metis list.exhaust)
  then show ?case
  proof cases
    case 1
    then show ?thesis by (simp add: b64_done_def)
  next
    case 2
    then show ?thesis
      by (simp add: b64_dec_index b64_indices b64_bytes decode64_end b64_done_def b64_dec.simps(2) [of _ _ "CHR ''=''"] del: b64_dec.simps(2) push_bit_and drop_bit_or)
  next
    case 3
    then show ?thesis
      by (simp add: b64_dec_index b64_indices b64_bytes decode64_end b64_done_def b64_dec.simps(2) [of _ _ "CHR ''=''"] del: b64_dec.simps(2) push_bit_and drop_bit_or)
  next
    case 4
    then have "length r < length bs" by simp
    from less.IH [OF this] obtain q where "b64_dec 0 ((push_bit 2 (unat b AND 15) OR drop_bit 6 (unat c)) AND 3)
        (b64_enc 0 (push_bit 2 (unat b AND 15)) (map unat r)) = (r, q)" "b64_done q"
      by blast
    then show ?thesis
      by (simp add: 4 b64_dec_index b64_indices b64_bytes del: b64_dec.simps(2) push_bit_and drop_bit_or)
  qed
qed

lemma pbase64_not_nul: "n < 64 \<Longrightarrow> nul \<noteq> pbase64 ! n"
  using decode64_index [of n] decode64_end(2) by force

lemma b64_enc_no_nul: "nul \<notin> set (b64_enc 0 l (map unat (bs :: bytes)))"
proof (induction bs arbitrary: l rule: measure_induct_rule [of length])
  case (less bs)
  note simps = pbase64_not_nul b64_indices nul_def [symmetric]
  have e: "nul \<noteq> CHR ''=''" by (simp add: nul_def)
  consider "bs = []" | a where "bs = [a]" | a b where "bs = [a, b]" | a b c r where "bs = a # b # c # r"
    by (metis list.exhaust)
  then show ?case
  proof cases
    case 4
    then show ?thesis using less [of r] by (simp add: pbase64_not_nul b64_indices del: push_bit_and)
  qed (simp_all add: pbase64_not_nul b64_indices e del: push_bit_and)
qed

text \<open>
  C30. Base64 text is decoded to the bytes it was made from and is found valid, whatever the
  number of bytes left over in the last group.
\<close>

theorem base64_round_trip: "DecodeBase64 (EncodeBase64 bs) = (bs, False)"
proof -
  obtain mode left p where r: "b64_dec 0 0 (b64_enc 0 0 (map unat bs)) = (bs, mode, left, p)" "b64_done (mode, left, p)"
    using b64_round [of 0 0 bs] by auto
  moreover have "c_str (b64_enc 0 0 (map unat bs)) = b64_enc 0 0 (map unat bs)"
    using b64_enc_no_nul [of 0 bs] by (auto simp: c_str_def takeWhile_eq_all_conv)
  ultimately show ?thesis
    by (auto simp: DecodeBase64_def EncodeBase64_def b64_done_def peek_def decode64_end)
qed

lemma b32_indices:
  "drop_bit 3 (unat (a :: u8)) < 32"
  "push_bit 2 (unat a AND 7) OR drop_bit 6 (unat (b :: u8)) < 32"
  "drop_bit 1 (unat b) AND 31 < 32"
  "push_bit 4 (unat b AND 1) OR drop_bit 4 (unat (c :: u8)) < 32"
  "push_bit 1 (unat c AND 15) OR drop_bit 7 (unat (d :: u8)) < 32"
  "drop_bit 2 (unat d) AND 31 < 32"
  "push_bit 3 (unat d AND 3) OR drop_bit 5 (unat (e :: u8)) < 32"
  "unat e AND 31 < 32"
  "push_bit 2 (unat a AND 7) < 32" "push_bit 4 (unat b AND 1) < 32" "push_bit 1 (unat c AND 15) < 32" "push_bit 3 (unat d AND 3) < 32"
proof -
  have 1: "x < 2 ^ 5 \<Longrightarrow> x < 32" for x :: nat by simp
  show "drop_bit 3 (unat (a :: u8)) < 32"
    "push_bit 2 (unat a AND 7) OR drop_bit 6 (unat (b :: u8)) < 32"
    "drop_bit 1 (unat b) AND 31 < 32"
    "push_bit 4 (unat b AND 1) OR drop_bit 4 (unat (c :: u8)) < 32"
    "push_bit 1 (unat c AND 15) OR drop_bit 7 (unat (d :: u8)) < 32"
    "drop_bit 2 (unat d) AND 31 < 32"
    "push_bit 3 (unat d AND 3) OR drop_bit 5 (unat (e :: u8)) < 32"
    "unat e AND 31 < 32"
    "push_bit 2 (unat a AND 7) < 32" "push_bit 4 (unat b AND 1) < 32" "push_bit 1 (unat c AND 15) < 32" "push_bit 3 (unat d AND 3) < 32"
    by (rule 1 [OF less_exp_bits]; auto simp: bits_arith dest: byte_bit)+
qed

lemma b32_bytes:
  fixes a b c d e :: u8
  shows "push_bit 3 (drop_bit 3 (unat a)) OR drop_bit 2 (push_bit 2 (unat a AND 7) OR drop_bit 6 (unat b)) = unat a"
    "push_bit 3 (drop_bit 3 (unat a)) OR drop_bit 2 (push_bit 2 (unat a AND 7)) = unat a"
    "push_bit 1 (push_bit 5 ((push_bit 2 (unat a AND 7) OR drop_bit 6 (unat b)) AND 3) OR (drop_bit 1 (unat b) AND 31)) OR
       drop_bit 4 (push_bit 4 (unat b AND 1) OR drop_bit 4 (unat c)) = unat b"
    "push_bit 1 (push_bit 5 ((push_bit 2 (unat a AND 7) OR drop_bit 6 (unat b)) AND 3) OR (drop_bit 1 (unat b) AND 31)) OR
       drop_bit 4 (push_bit 4 (unat b AND 1)) = unat b"
    "push_bit 4 ((push_bit 4 (unat b AND 1) OR drop_bit 4 (unat c)) AND 15) OR drop_bit 1 (push_bit 1 (unat c AND 15) OR drop_bit 7 (unat d)) = unat c"
    "push_bit 4 ((push_bit 4 (unat b AND 1) OR drop_bit 4 (unat c)) AND 15) OR drop_bit 1 (push_bit 1 (unat c AND 15)) = unat c"
    "push_bit 2 (push_bit 5 ((push_bit 1 (unat c AND 15) OR drop_bit 7 (unat d)) AND 1) OR (drop_bit 2 (unat d) AND 31)) OR
       drop_bit 3 (push_bit 3 (unat d AND 3) OR drop_bit 5 (unat e)) = unat d"
    "push_bit 2 (push_bit 5 ((push_bit 1 (unat c AND 15) OR drop_bit 7 (unat d)) AND 1) OR (drop_bit 2 (unat d) AND 31)) OR
       drop_bit 3 (push_bit 3 (unat d AND 3)) = unat d"
    "push_bit 5 ((push_bit 3 (unat d AND 3) OR drop_bit 5 (unat e)) AND 7) OR (unat e AND 31) = unat e"
    "push_bit 2 (unat a AND 7) AND 3 = 0" "push_bit 4 (unat b AND 1) AND 15 = 0"
    "push_bit 1 (unat c AND 15) AND 1 = 0" "push_bit 3 (unat d AND 3) AND 7 = 0"
  by (rule bit8_eqI; (simp add: bits_arith numeral_2_eq_2 [symmetric]; fail | auto simp: bits_arith dest: byte_bit))+

lemma decode32_index: "n < 32 \<Longrightarrow> decode32 (pbase32 ! n) = int n"
proof -
  have "list_all (\<lambda>n. decode32 (pbase32 ! n) = int n) [0..<32]"
    by (simp add: upt_conv_Cons decode32_def decode32_table_def nth_append pbase32_def ord_def)
  then show "n < 32 \<Longrightarrow> ?thesis" by (simp add: list_all_iff)
qed

lemma decode32_end: "decode32 CHR ''='' = - 1" "decode32 nul = - 1"
  by (simp_all add: decode32_def decode32_table_def nth_append ord_def nul_def)

lemma b32_dec_index: "n < 32 \<Longrightarrow> b32_dec mode left (pbase32 ! n # p) =
     (if mode = 0 then b32_dec 1 n p
      else if mode = 1 then apfst ((#) (of_nat (push_bit 3 left OR drop_bit 2 n))) (b32_dec 2 (n AND 3) p)
      else if mode = 2 then b32_dec 3 (push_bit 5 left OR n) p
      else if mode = 3 then apfst ((#) (of_nat (push_bit 1 left OR drop_bit 4 n))) (b32_dec 4 (n AND 15) p)
      else if mode = 4 then apfst ((#) (of_nat (push_bit 4 left OR drop_bit 1 n))) (b32_dec 5 (n AND 1) p)
      else if mode = 5 then b32_dec 6 (push_bit 5 left OR n) p
      else if mode = 6 then apfst ((#) (of_nat (push_bit 2 left OR drop_bit 3 n))) (b32_dec 7 (n AND 7) p)
      else apfst ((#) (of_nat (push_bit 5 left OR n))) (b32_dec 0 left p))"
  by (simp add: decode32_index)

lemma b32_dec_pad: "b32_dec mode left (CHR ''='' # p) = ([], mode, left, CHR ''='' # p)"
  by (simp add: decode32_end)

definition b32_done :: "nat \<times> nat \<times> string \<Rightarrow> bool" where
  "b32_done = (\<lambda>(mode, left, p). mode = 0 \<and> p = [] \<or>
     left = 0 \<and> (mode = 2 \<and> p = ''======'' \<or> mode = 4 \<and> p = ''===='' \<or> mode = 5 \<and> p = ''==='' \<or> mode = 7 \<and> p = ''=''))"

lemma pbase32_not_nul: "n < 32 \<Longrightarrow> nul \<noteq> pbase32 ! n"
  using decode32_index [of n] decode32_end(2) by force

lemma b32_round:
  "(\<exists>r. b32_dec 0 l (b32_enc 0 l' (map unat bs)) = (bs, r) \<and> b32_done r) \<and> nul \<notin> set (b32_enc 0 l' (map unat bs))"
proof (induction bs arbitrary: l l' rule: measure_induct_rule [of length])
  case (less bs)
  have e: "nul \<noteq> CHR ''=''" by (simp add: nul_def)
  have pad: "nPadding ! 1 = 6" "nPadding ! 2 = 4" "nPadding ! 3 = 3" "nPadding ! 4 = 1" "nPadding ! Suc 0 = 6" by (simp_all add: nPadding_def)
  have rep: "replicate 6 CHR ''='' = ''======''" "replicate 4 CHR ''='' = ''====''" "replicate 3 CHR ''='' = ''===''" "replicate 1 CHR ''='' = ''=''" by (simp_all add: numeral_eq_Suc)
  consider "bs = []" | a where "bs = [a]" | a b where "bs = [a, b]" | a b c where "bs = [a, b, c]"
    | a b c d where "bs = [a, b, c, d]" | a b c d f r where "bs = a # b # c # d # f # r"
    by (metis list.exhaust)
  then show ?case
  proof cases
    case 6
    then have "length r < length bs" by simp
    note ih = less.IH [OF this]
    from ih obtain q where "b32_dec 0 ((push_bit 3 (unat d AND 3) OR drop_bit 5 (unat f)) AND 7)
        (b32_enc 0 (push_bit 3 (unat d AND 3)) (map unat r)) = (r, q)" "b32_done q"
      by blast
    then show ?thesis using ih [of 0 "push_bit 3 (unat d AND 3)"]
      by (simp add: 6 b32_dec_index b32_indices b32_bytes pbase32_not_nul
          del: b32_dec.simps(2) push_bit_and drop_bit_or drop_bit_and push_bit_or push_bit_Suc One_nat_def)
  qed (simp_all add: b32_dec_index b32_indices b32_bytes pbase32_not_nul b32_dec_pad pad rep e b32_done_def
      del: b32_dec.simps(2) push_bit_and drop_bit_or drop_bit_and push_bit_or push_bit_Suc One_nat_def)
qed

text \<open>
  Base32 text is decoded to the bytes it was made from and is found valid, whatever the
  number of bytes left over in the last group.
\<close>

theorem base32_round_trip: "DecodeBase32 (EncodeBase32 bs) = (bs, False)"
proof -
  obtain mode left p where r: "b32_dec 0 0 (b32_enc 0 0 (map unat bs)) = (bs, mode, left, p)" "b32_done (mode, left, p)"
    using b32_round [of 0 0 bs] by auto
  moreover have "c_str (b32_enc 0 0 (map unat bs)) = b32_enc 0 0 (map unat bs)"
    using b32_round [of 0 0 bs] by (auto simp: c_str_def takeWhile_eq_all_conv)
  ultimately show ?thesis
    by (auto simp: DecodeBase32_def EncodeBase32_def b32_done_def b32_pad_def peek_def decode32_end upt_conv_Cons)
qed

section \<open>Hex text\<close>

lemma HexDigit_index: "n < 16 \<Longrightarrow> HexDigit (hexchars ! n) = int n \<and> \<not> isspace (hexchars ! n)"
proof -
  have "list_all (\<lambda>n. HexDigit (hexchars ! n) = int n \<and> \<not> isspace (hexchars ! n)) [0..<16]"
    by (simp add: upt_conv_Cons HexDigit_def p_util_hexdigit_def nth_append hexchars_def ord_def isspace_def)
  then show "n < 16 \<Longrightarrow> ?thesis" by (simp add: list_all_iff)
qed

lemma nibbles: "unat (drop_bit 4 (b :: u8)) < 16" "unat (b AND 15) < 16"
  "push_bit 4 (drop_bit 4 b) OR (b AND 15) = b"
proof -
  have m: "b AND 15 = take_bit 4 b" by (simp add: take_bit_eq_mask mask_eq_exp_minus_1)
  have "unat (drop_bit 4 b) = unat b div 16" by (simp add: drop_bit_eq_div unat_div)
  then show "unat (drop_bit 4 b) < 16" using unsigned_less [of b, where 'a = nat] by simp
  show "unat (b AND 15) < 16" unfolding m by (simp add: unsigned_take_bit_eq take_bit_nat_def)
  show "push_bit 4 (drop_bit 4 b) OR (b AND 15) = b"
    unfolding m by (rule bit_word_eqI) (auto simp: bit_or_iff bit_push_bit_iff bit_drop_bit_eq bit_take_bit_iff)
qed

lemma HexStr_Nil [simp]: "HexStr [] sp = []"
  by (simp add: HexStr_def)

lemma ParseHex_pair:
  assumes "psz = sp @ hexchars ! unat (drop_bit 4 b) # hexchars ! unat (b AND 15) # r" "list_all isspace sp"
  shows "ParseHex psz = b # ParseHex r"
proof -
  have "dropWhile isspace psz = hexchars ! unat (drop_bit 4 b) # hexchars ! unat (b AND 15) # r"
    using assms HexDigit_index [OF nibbles(1), of b] by (simp add: dropWhile_append list_all_iff)
  moreover have "uint w \<noteq> - 1" for w :: u8 using uint_nonnegative [of w] by linarith
  ultimately show ?thesis
    using HexDigit_index [OF nibbles(1), of b] HexDigit_index [OF nibbles(2), of b] nibbles(3) [of b]
    by (simp add: ParseHex.simps [of psz] peek_def Let_def)
qed

lemma ParseHex_HexStr: "ParseHex (HexStr bs sp) = bs"
proof -
  let ?f = "\<lambda>n b. (if sp \<and> n \<noteq> (0::nat) then '' '' else []) @ [hexchars ! unat (drop_bit 4 b), hexchars ! unat (b AND 15)]"
  have p: "ParseHex (concat (map2 ?f [k..<k + length cs] cs)) = cs" for k cs
  proof (induction cs arbitrary: k)
    case Nil
    show ?case by (simp add: ParseHex.simps [of "[]"] HexDigit_def p_util_hexdigit_def nth_append peek_def nul_def ord_def)
  next
    case (Cons b cs)
    have "[k..<k + length (b # cs)] = k # [Suc k..<Suc k + length cs]" by (subst upt_conv_Cons) simp_all
    then show ?case using Cons [of "Suc k"]
      by (simp add: ParseHex_pair [of _ "if sp \<and> k \<noteq> 0 then '' '' else []"] isspace_def ord_def)
  qed
  have "HexStr bs sp = concat (map2 ?f [0..<0 + length bs] bs)"
    unfolding HexStr_def by (rule arg_cong [of _ _ concat], rule nth_equalityI) simp_all
  then show ?thesis using p [of 0 bs] by (simp only:)
qed

section \<open>Decimal text\<close>

lemma dec_value_snoc: "dec_value (ds @ [c]) = dec_value ds * 10 + (ord c - 48)"
  by (simp add: dec_value_def)

lemma ord_digit: "d < 10 \<Longrightarrow> ord (char_of (48 + d :: nat)) = 48 + d"
  by (simp add: ord_def)

lemma to_string_digits: "to_string n \<noteq> [] \<and> list_all isdigit (to_string n) \<and> dec_value (to_string n) = n"
proof (induction n rule: to_string.induct)
  case (1 n)
  then show ?case
    by (cases "n < 10")
      (simp_all add: to_string.simps [of n] dec_value_snoc ord_digit isdigit_def dec_value_def [of "[_]"] less_Suc_eq_le [symmetric])
qed

lemma isdigit_props: "isdigit c \<Longrightarrow> \<not> isspace c \<and> c \<noteq> nul \<and> c \<noteq> CHR ''-'' \<and> c \<noteq> CHR ''+'' \<and> c \<noteq> CHR ''.''"
  by (auto simp: isdigit_def isspace_def ord_def nul_def)

lemma strtoll10_digits:
  assumes "ds \<noteq> []" "list_all isdigit ds" "dec_value ds < 2 ^ 63"
  shows "strtoll10 ds = (int (dec_value ds), [], False)"
    "strtoll10 (CHR ''-'' # ds) = (- int (dec_value ds), [], False)"
proof -
  have h: "isdigit (hd ds)" using assms(1,2) by (cases ds) auto
  have "dropWhile isspace ds = ds" using h isdigit_props assms(1) by (cases ds) auto
  moreover have t: "takeWhile isdigit ds = ds" "dropWhile isdigit ds = []" using assms(2) by (auto simp: list_all_iff)
  moreover have "\<not> isspace CHR ''-''" by (simp add: isspace_def ord_def)
  moreover have "int (dec_value ds) < 2 ^ 63" using assms(3) by simp
  then have "\<not> int (dec_value ds) < - (2 ^ 63)" "\<not> int (dec_value ds) > 2 ^ 63 - 1"
    "\<not> - int (dec_value ds) < - (2 ^ 63)" "\<not> - int (dec_value ds) > 2 ^ 63 - 1" by linarith+
  ultimately show "strtoll10 ds = (int (dec_value ds), [], False)"
    "strtoll10 (CHR ''-'' # ds) = (- int (dec_value ds), [], False)"
    using isdigit_props [OF h] assms(1) by (simp_all add: strtoll10_def Let_def t del: power_numeral)
qed

lemma prechecks_number:
  assumes "ds \<noteq> []" "list_all isdigit ds"
  shows "ParsePrechecks ds" "ParsePrechecks (CHR ''-'' # ds)" "c_str ds = ds" "c_str (CHR ''-'' # ds) = CHR ''-'' # ds"
proof -
  have d: "isdigit (hd ds)" "isdigit (last ds)" using assms by (auto simp: list_all_iff)
  have m: "\<not> isspace CHR ''-''" "CHR ''-'' \<noteq> nul" by (simp_all add: isspace_def ord_def nul_def)
  show c: "c_str ds = ds"
    unfolding c_str_def takeWhile_eq_all_conv using assms(2) isdigit_props by (auto simp: list_all_iff)
  then show "c_str (CHR ''-'' # ds) = CHR ''-'' # ds" using m by (simp add: c_str_def)
  then show "ParsePrechecks ds" "ParsePrechecks (CHR ''-'' # ds)"
    using isdigit_props [OF d(1)] isdigit_props [OF d(2)] assms(1) m c by (auto simp: ParsePrechecks_def)
qed



section \<open>Comparison in constant time\<close>

lemma foldl_or_zero: "foldl (\<lambda>acc i. acc OR f i) (a :: u64) is = 0 \<longleftrightarrow> a = 0 \<and> (\<forall>i\<in>set is. f i = 0)"
  by (induction "is" arbitrary: a) (auto simp: or_eq_0_iff)

lemma xor_zero: "(x :: 'a::len word) XOR y = 0 \<longleftrightarrow> x = y"
  by (auto simp: bit_eq_iff bit_xor_iff)

lemma TimingResistantEqual_eq:
  assumes "length a < 2 ^ 64" "length b < 2 ^ 64"
  shows "TimingResistantEqual a b \<longleftrightarrow> a = b"
proof -
  have l: "(of_nat (length a) :: u64) = of_nat (length b) \<longleftrightarrow> length a = length b"
    using assms by (auto simp: word_unat_eq_iff unat_of_nat)
  have x: "(ucast (w :: u8) :: u64) = 0 \<longleftrightarrow> w = 0" for w
    using unsigned_less [of w, where 'a = nat]
    by (simp add: word_unat_eq_iff unsigned_ucast_eq take_bit_nat_eq_self)
  have "TimingResistantEqual a b \<longleftrightarrow> (if length b = 0 then length a = 0 else length a = length b \<and> (\<forall>i<length a. a ! i = b ! (i mod length b)))"
    unfolding TimingResistantEqual_def foldl_or_zero xor_zero l x by (simp add: Ball_def)
  also have "\<dots> \<longleftrightarrow> a = b"
  proof (cases "length a = length b \<and> b \<noteq> []")
    case True
    then have "(\<forall>i<length a. a ! i = b ! (i mod length b)) \<longleftrightarrow> (\<forall>i<length a. a ! i = b ! i)" by auto
    also have "\<dots> \<longleftrightarrow> a = b" using True nth_equalityI [of a b] by blast
    finally show ?thesis using True by simp
  qed auto
  finally show ?thesis .
qed

section \<open>Fixed-point numbers are exact\<close>

text \<open>A state of the digit loop stands for \<open>mantissa * 10^tzeros\<close>.\<close>

definition fp_val :: "int \<times> nat \<Rightarrow> int" where
  "fp_val = (\<lambda>(m, z). m * 10 ^ z)"

lemma fp_mul10_val: "fp_mul10 n m = Some r \<Longrightarrow> r = m * 10 ^ n"
  by (induction n m rule: fp_mul10.induct) (auto split: if_splits)

lemma fp_scale_val: "fp_scale n m = Some r \<Longrightarrow> r = m * 10 ^ n"
  by (induction n m rule: fp_scale.induct) (auto split: if_splits)

lemma ProcessMantissaDigit_val:
  assumes "ProcessMantissaDigit c st = Some st'" "isdigit c"
  shows "fp_val st' = fp_val st * 10 + int (ord c - 48)"
proof -
  obtain m z where st: "st = (m, z)" by (cases st)
  show ?thesis
  proof (cases "c = CHR ''0''")
    case True
    then show ?thesis using assms by (auto simp: st ProcessMantissaDigit_def fp_val_def ord_def)
  next
    case False
    then obtain r where "fp_mul10 (z + 1) m = Some r" "st' = (r + (int (ord c) - 48), 0)"
      using assms(1) by (auto simp: st ProcessMantissaDigit_def bind_eq_Some_conv)
    then show ?thesis using assms(2) fp_mul10_val [of "z + 1" m r]
      by (simp add: st fp_val_def isdigit_def of_nat_diff algebra_simps)
  qed
qed

lemma dec_value_append: "dec_value (a @ b) = dec_value a * 10 ^ length b + dec_value b"
proof (induction b rule: rev_induct)
  case (snoc c b)
  have "dec_value (a @ b @ [c]) = dec_value (a @ b) * 10 + (ord c - 48)"
    using dec_value_snoc [of "a @ b" c] by simp
  then show ?case using snoc by (simp add: dec_value_snoc algebra_simps)
qed (simp add: dec_value_def)

lemma fp_digits_val:
  "fp_digits s st = Some (st', r) \<Longrightarrow> fp_val st = int (dec_value p) \<Longrightarrow>
     \<exists>ds. s = ds @ r \<and> list_all isdigit ds \<and> (r = [] \<or> \<not> isdigit (hd r)) \<and> fp_val st' = int (dec_value (p @ ds))"
proof (induction s st arbitrary: p rule: fp_digits.induct)
  case (2 c s st)
  show ?case
  proof (cases "isdigit c")
    case True
    then obtain st1 where st1: "ProcessMantissaDigit c st = Some st1" "fp_digits s st1 = Some (st', r)"
      using 2(2) by (auto simp: bind_eq_Some_conv)
    have "fp_val st1 = int (dec_value (p @ [c]))"
      using ProcessMantissaDigit_val [OF st1(1) True] 2(3) by (simp add: dec_value_snoc)
    from 2(1) [OF True st1(1) st1(2) this] obtain ds where
      "s = ds @ r" "list_all isdigit ds" "r = [] \<or> \<not> isdigit (hd r)" "fp_val st' = int (dec_value ((p @ [c]) @ ds))" by blast
    then show ?thesis using True by (intro exI [of _ "c # ds"]) simp
  qed (use 2 in auto)
qed simp

lemma fp_exp_val:
  "fp_exp s e = Some (e', r) \<Longrightarrow> e = int (dec_value p) \<Longrightarrow>
     \<exists>ds. s = ds @ r \<and> list_all isdigit ds \<and> e' = int (dec_value (p @ ds))"
proof (induction s e arbitrary: p rule: fp_exp.induct)
  case (2 c s e)
  show ?case
  proof (cases "isdigit c")
    case True
    then have f: "fp_exp s (e * 10 + int (ord c) - 48) = Some (e', r)" "\<not> e > UPPER_BOUND sdiv 10"
      using 2(2) by (auto split: if_splits)
    have "e * 10 + int (ord c) - 48 = int (dec_value (p @ [c]))"
      using 2(3) True by (simp add: dec_value_snoc isdigit_def of_nat_diff)
    from 2(1) [OF True f(2,1) this] obtain ds where "s = ds @ r" "list_all isdigit ds" "e' = int (dec_value ((p @ [c]) @ ds))" by blast
    then show ?thesis using True by (intro exI [of _ "c # ds"]) simp
  qed (use 2 in auto)
qed simp

definition exp_text :: "string \<Rightarrow> int \<Rightarrow> bool" where
  "exp_text x e \<longleftrightarrow> x = [] \<and> e = 0 \<or>
     (\<exists>c sg ds. (c = CHR ''e'' \<or> c = CHR ''E'') \<and> (sg = [] \<or> sg = ''+'' \<or> sg = ''-'') \<and> ds \<noteq> [] \<and> list_all isdigit ds \<and>
        x = c # sg @ ds \<and> e = (if sg = ''-'' then - int (dec_value ds) else int (dec_value ds)))"

lemma fp_exp_part_val:
  assumes "fp_exp_part x = Some (e, [])"
  shows "exp_text x e"
proof (cases "x \<noteq> [] \<and> (hd x = CHR ''e'' \<or> hd x = CHR ''E'')")
  case True
  then obtain c r where x: "x = c # r" "c = CHR ''e'' \<or> c = CHR ''E''" by (cases x) auto
  define sg where "sg = (if r \<noteq> [] \<and> (hd r = CHR ''+'' \<or> hd r = CHR ''-'') then [hd r] else [])"
  define t where "t = (if r \<noteq> [] \<and> (hd r = CHR ''+'' \<or> hd r = CHR ''-'') then tl r else r)"
  have r: "r = sg @ t" "sg = [] \<or> sg = ''+'' \<or> sg = ''-''" "r \<noteq> [] \<and> hd r = CHR ''-'' \<longleftrightarrow> sg = ''-''"
    by (auto simp: sg_def t_def)
  have "t \<noteq> [] \<and> isdigit (hd t)" and "\<exists>e0. fp_exp t 0 = Some (e0, []) \<and> e = (if sg = ''-'' then - e0 else e0)"
    using assms True r(3) unfolding fp_exp_part_def Let_def x(1) list.sel t_def [symmetric]
    by (auto simp: bind_eq_Some_conv split: if_splits)
  then show ?thesis using fp_exp_val [of t 0 _ "[]" "[]"] x r unfolding exp_text_def by (fastforce simp: dec_value_def)
next
  case False
  then show ?thesis using assms by (auto simp: fp_exp_part_def exp_text_def split: if_splits)
qed

lemma fp_int_part_val:
  assumes "fp_int_part s = Some (st, r)"
  shows "\<exists>ds. s = ds @ r \<and> ds \<noteq> [] \<and> list_all isdigit ds \<and> (ds = ''0'' \<or> hd ds \<noteq> CHR ''0'') \<and> fp_val st = int (dec_value ds)"
proof -
  obtain c t where s: "s = c # t" using assms by (cases s) (auto simp: fp_int_part_def)
  show ?thesis
  proof (cases "c = CHR ''0''")
    case True
    then show ?thesis using assms s
      by (intro exI [of _ "''0''"]) (auto simp: fp_int_part_def fp_val_def dec_value_def isdigit_def ord_def)
  next
    case False
    then have d: "isdigit c" "fp_digits s (0, 0) = Some (st, r)" using assms by (auto simp: fp_int_part_def s split: if_splits)
    have "fp_val (0, 0) = int (dec_value [])" by (simp add: fp_val_def dec_value_def)
    from fp_digits_val [OF d(2) this] obtain ds where
      ds: "s = ds @ r" "list_all isdigit ds" "r = [] \<or> \<not> isdigit (hd r)" "fp_val st = int (dec_value ds)" by auto
    then have "ds \<noteq> []" using s d(1) by auto
    then show ?thesis using ds s False by (auto simp: Cons_eq_append_conv)
  qed
qed

lemma fp_frac_part_val:
  assumes "fp_frac_part s st = Some (st', ofs, r)" "fp_val st = int (dec_value p)"
  shows "\<exists>ds. s = (if ds = [] then [] else CHR ''.'' # ds) @ r \<and> list_all isdigit ds \<and> ofs = length ds \<and>
     fp_val st' = int (dec_value (p @ ds))"
proof (cases "s \<noteq> [] \<and> hd s = CHR ''.''")
  case True
  then have t: "tl s \<noteq> []" "isdigit (hd (tl s))" "fp_digits (tl s) st = Some (st', r)" "ofs = length (tl s) - length r"
    using assms(1) by (auto simp: fp_frac_part_def bind_eq_Some_conv split: if_splits)
  from fp_digits_val [OF t(3) assms(2)] obtain ds where
    ds: "tl s = ds @ r" "list_all isdigit ds" "r = [] \<or> \<not> isdigit (hd r)" "fp_val st' = int (dec_value (p @ ds))" by blast
  moreover have "ds \<noteq> []" using ds t by auto
  moreover have "s = CHR ''.'' # tl s" using True by (cases s) auto
  ultimately show ?thesis using t(4) by (intro exI [of _ ds]) auto
next
  case False
  then show ?thesis using assms by (auto simp: fp_frac_part_def split: if_splits)
qed

text \<open>
  C29. When \<open>ParseFixedPoint\<close> accepts a text, the text is a JSON number and the amount is its
  exact value in units of \<open>10^-decimals\<close>, without rounding, and below \<open>10^18\<close> in size.
\<close>

theorem ParseFixedPoint_exact:
  assumes "ParseFixedPoint val decimals = Some r"
  shows "\<exists>neg i f x e. val = (if neg then ''-'' else []) @ i @ (if f = [] then [] else CHR ''.'' # f) @ x \<and>
     i \<noteq> [] \<and> list_all isdigit (i @ f) \<and> (i = ''0'' \<or> hd i \<noteq> CHR ''0'') \<and> exp_text x e \<and> \<bar>r\<bar> \<le> UPPER_BOUND \<and>
     r * 10 ^ nat (- (e - int (length f) + decimals)) =
       (if neg then - 1 else 1) * int (dec_value (i @ f)) * 10 ^ nat (e - int (length f) + decimals)"
proof -
  define neg where "neg \<longleftrightarrow> val \<noteq> [] \<and> hd val = CHR ''-''"
  define s0 where "s0 = (if neg then tl val else val)"
  have val: "val = (if neg then ''-'' else []) @ s0" by (cases val) (auto simp: neg_def s0_def)
  from assms obtain st1 s1 m z ofs s2 e r' where
    1: "fp_int_part s0 = Some (st1, s1)" "fp_frac_part s1 st1 = Some ((m, z), ofs, s2)" "fp_exp_part s2 = Some (e, [])"
    and k: "0 \<le> e - int ofs + int z + decimals" "fp_scale (nat (e - int ofs + int z + decimals)) (if neg then - m else m) = Some r'"
      "\<bar>r'\<bar> \<le> UPPER_BOUND" "r = r'"
    unfolding ParseFixedPoint_def Let_def neg_def [symmetric] s0_def [symmetric]
    by (auto simp: bind_eq_Some_conv abs_le_iff split: if_splits)
  obtain i where i: "s0 = i @ s1" "i \<noteq> []" "list_all isdigit i" "i = ''0'' \<or> hd i \<noteq> CHR ''0''" "fp_val st1 = int (dec_value i)"
    using fp_int_part_val [OF 1(1)] by blast
  obtain f where f: "s1 = (if f = [] then [] else CHR ''.'' # f) @ s2" "list_all isdigit f" "ofs = length f"
      "fp_val (m, z) = int (dec_value (i @ f))"
    using fp_frac_part_val [OF 1(2) i(5)] by blast
  let ?k = "e - int (length f) + decimals"
  have r: "r = (if neg then - m else m) * 10 ^ nat (?k + int z)"
    using fp_scale_val [OF k(2)] k(4) f(3) by (simp add: algebra_simps)
  have "r * 10 ^ nat (- ?k) = (if neg then - 1 else 1) * (m * 10 ^ z) * 10 ^ nat ?k"
  proof (cases "0 \<le> ?k")
    case True
    then have "nat (?k + int z) = nat ?k + z" by simp
    then show ?thesis using r True by (simp add: power_add)
  next
    case False
    then have "nat (?k + int z) + nat (- ?k) = z" using k(1) f(3) by simp
    then show ?thesis using r False by (simp add: mult.assoc power_add [symmetric])
  qed
  then show ?thesis using val i f fp_exp_part_val [OF 1(3)] k(3,4)
    by (intro exI [of _ neg] exI [of _ i] exI [of _ f] exI [of _ s2] exI [of _ e]) (simp add: fp_val_def)
qed

theorem ParseFixedPoint_exact_witness:
  "ParseFixedPoint ''-1.50e1'' 8 = Some (- 1500000000) \<and> \<bar>- 1500000000\<bar> \<le> UPPER_BOUND"
proof -
  have "ParseFixedPoint ''-1.50e1'' 8 = Some (- 1500000000)"
    by (simp add: ParseFixedPoint_def fp_int_part_def fp_frac_part_def fp_exp_part_def ProcessMantissaDigit_def
        isdigit_def ord_def UPPER_BOUND_def eval_nat_numeral)
  then show ?thesis using ParseFixedPoint_exact by blast
qed

end
