(* ===== verification/Difficulty.thy ===== *)
theory Difficulty
  imports Arith_Uint256 Str_Encodings Pool_Common
begin

text \<open>
  The 256-bit blob of \<open>tools/common/uint256.{h,cpp}\<close> with its hex form, and \<open>src/Difficulty.{h,cc}\<close>,
  which converts between share difficulties and targets. The template parameters \<open>DiffOneBits\<close> and
  \<open>TableSize\<close> are arguments. The position that \<open>log2\<close> gives for a difficulty is an argument too:
  whatever the library rounds it to, the table gives the target that the division gives.
\<close>

section \<open>Blobs\<close>

text \<open>The bytes of a hex number from its digits, least significant first: two digits to a byte.\<close>

fun blob_fill :: "nat \<Rightarrow> bytes \<Rightarrow> bytes" where
  "blob_fill 0 ds = []"
| "blob_fill (Suc n) [] = 0 # blob_fill n []"
| "blob_fill (Suc n) [d] = d # blob_fill n []"
| "blob_fill (Suc n) (d # e # ds) = (d OR push_bit 4 e) # blob_fill n ds"

definition blob_SetHex :: "nat \<Rightarrow> string \<Rightarrow> bytes" where
  "blob_SetHex width s =
     (let digits = takeWhile (\<lambda>c. HexDigit c \<noteq> - 1) (hex_skip (c_str s))
      in blob_fill width (map (\<lambda>c. word_of_int (HexDigit c)) (rev digits)))"

definition blob_GetHex :: "bytes \<Rightarrow> string" where
  "blob_GetHex d = HexStr (rev d) False"

definition uint256S :: "string \<Rightarrow> bytes" where
  "uint256S str = blob_SetHex 32 str"

definition blob_IsNull :: "bytes \<Rightarrow> bool" where
  "blob_IsNull d \<longleftrightarrow> list_all (\<lambda>b. b = 0) d"

definition GetUint64 :: "bytes \<Rightarrow> nat \<Rightarrow> u64" where
  "GetUint64 d pos = (let p = drop (pos * 8) d in
     ucast (p ! 0) OR push_bit 8 (ucast (p ! 1)) OR push_bit 16 (ucast (p ! 2)) OR push_bit 24 (ucast (p ! 3)) OR
     push_bit 32 (ucast (p ! 4)) OR push_bit 40 (ucast (p ! 5)) OR push_bit 48 (ucast (p ! 6)) OR push_bit 56 (ucast (p ! 7)))"

section \<open>Difficulties and targets\<close>

definition GetDiffOneTarget :: "u32 \<Rightarrow> base_uint" where
  "GetDiffOneTarget DiffOneBits = compact_value DiffOneBits"

definition GenerateDiffToTargetTable :: "u32 \<Rightarrow> nat \<Rightarrow> bytes list" where
  "GenerateDiffToTargetTable DiffOneBits TableSize =
     map (\<lambda>shifts. ArithToUint256 (au_shr (GetDiffOneTarget DiffOneBits) shifts)) [0..<TableSize]"

definition MaxTarget :: bytes where
  "MaxTarget = uint256S (replicate 64 CHR ''f'')"

text \<open>\<^term>\<open>None\<close> is the exception of a division by zero.\<close>

definition DiffToTarget :: "(u64 \<Rightarrow> u64) \<Rightarrow> u32 \<Rightarrow> nat \<Rightarrow> u64 \<Rightarrow> bool \<Rightarrow> bytes option" where
  "DiffToTarget lg DiffOneBits TableSize diff useTable =
     (if diff = 0 then Some MaxTarget
      else let p = unat (lg diff)
           in if useTable \<and> p < TableSize \<and> diff = push_bit p 1
              then Some (GenerateDiffToTargetTable DiffOneBits TableSize ! p)
              else map_option ArithToUint256 (au_div (GetDiffOneTarget DiffOneBits) (au_of_u64 diff)))"

definition TargetToDiff :: "u32 \<Rightarrow> bytes \<Rightarrow> u64 option" where
  "TargetToDiff DiffOneBits target =
     map_option GetLow64 (au_div (GetDiffOneTarget DiffOneBits) (UintToArith256 target))"

definition TargetToDiff_str :: "u32 \<Rightarrow> string \<Rightarrow> u64 option" where
  "TargetToDiff_str DiffOneBits str = TargetToDiff DiffOneBits (uint256S str)"

text \<open>A zero target makes the difficulty of type \<open>double\<close> infinite: \<^term>\<open>None\<close>.\<close>

definition BitsToDifficulty_double :: "u32 \<Rightarrow> u32 \<Rightarrow> f64 option" where
  "BitsToDifficulty_double DiffOneBits bits =
     (if getdouble (compact_value bits) = 0 then None
      else Some (getdouble (GetDiffOneTarget DiffOneBits) div getdouble (compact_value bits)))"

definition BitsToDifficulty :: "u32 \<Rightarrow> u32 \<Rightarrow> u64 option" where
  "BitsToDifficulty DiffOneBits bits = map_option GetLow64 (au_div (GetDiffOneTarget DiffOneBits) (compact_value bits))"

definition BitsToTarget :: "u32 \<Rightarrow> bytes" where
  "BitsToTarget bits = ArithToUint256 (compact_value bits)"

section \<open>Hex round trip\<close>

lemma HexStr_plain: "HexStr bs False = concat (map (\<lambda>b. [hexchars ! unat (drop_bit 4 b), hexchars ! unat (b AND 15)]) bs)"
  unfolding HexStr_def by (rule arg_cong [of _ _ concat], rule nth_equalityI) simp_all

lemma blob_fill_hex:
  "blob_fill (length d) (map (\<lambda>c. word_of_int (HexDigit c)) (rev (HexStr (rev d) False))) = d"
proof (induction d)
  case (Cons b d)
  have "rev (HexStr (rev (b # d)) False) = [hexchars ! unat (b AND 15), hexchars ! unat (drop_bit 4 b)] @ rev (HexStr (rev d) False)"
    by (simp add: HexStr_plain)
  then show ?case using Cons HexDigit_index [OF nibbles(1), of b] HexDigit_index [OF nibbles(2), of b] nibbles(3) [of b]
    by (simp add: or.commute)
qed simp

lemma HexStr_chars:
  assumes "c \<in> set (HexStr bs False)"
  shows "HexDigit c \<noteq> - 1" "\<not> isspace c" "c \<noteq> nul" "tolower c \<noteq> CHR ''x''"
proof -
  obtain n where n: "n < 16" "c = hexchars ! n"
    using assms nibbles(1,2) by (auto simp: HexStr_plain)
  show "HexDigit c \<noteq> - 1" "\<not> isspace c" using HexDigit_index [OF n(1)] n(2) by auto
  have "list_all (\<lambda>n. hexchars ! n \<noteq> nul \<and> tolower (hexchars ! n) \<noteq> CHR ''x'') [0..<16]"
    by (simp add: upt_conv_Cons hexchars_def nul_def tolower_def ord_def)
  then show "c \<noteq> nul" "tolower c \<noteq> CHR ''x''" using n by (auto simp: list_all_iff)
qed

lemma uint256S_GetHex:
  assumes "length d = 32"
  shows "uint256S (blob_GetHex d) = d"
proof -
  let ?s = "HexStr (rev d) False"
  have "c_str ?s = ?s" unfolding c_str_def takeWhile_eq_all_conv using HexStr_chars(3) by blast
  moreover have "hex_skip ?s = ?s"
  proof -
    have "dropWhile isspace ?s = ?s" using HexStr_chars(2) [of "hd ?s" "rev d"] by (cases ?s) auto
    moreover have "?s \<noteq> [] \<and> tl ?s \<noteq> [] \<Longrightarrow> tolower (?s ! 1) \<noteq> CHR ''x''"
      using HexStr_chars(4) [of "?s ! 1" "rev d"] by (cases ?s; cases "tl ?s") auto
    ultimately show ?thesis by (auto simp: hex_skip_def Let_def)
  qed
  moreover have "takeWhile (\<lambda>c. HexDigit c \<noteq> - 1) ?s = ?s"
    unfolding takeWhile_eq_all_conv using HexStr_chars(1) by blast
  ultimately show ?thesis using blob_fill_hex [of d] assms
    by (simp only: uint256S_def blob_SetHex_def blob_GetHex_def Let_def)
qed

section \<open>The table agrees with the division\<close>

lemma au_val_inj:
  assumes "length a = length b" "au_val a = au_val b"
  shows "a = b"
  using assms
proof (induction a b rule: list_induct2)
  case (Cons x xs y ys)
  have x: "unat x < 2 ^ 32" "unat y < 2 ^ 32" using limb_bound [of x] limb_bound [of y] by auto
  have "unat x + 2 ^ 32 * au_val xs = unat y + 2 ^ 32 * au_val ys" using Cons by simp
  then have "unat x = unat y" "au_val xs = au_val ys"
    using limb_divmod [OF x(1), of "au_val xs"] limb_divmod [OF x(2), of "au_val ys"] by auto
  then show ?case using Cons by (simp add: word_unat_eq_iff)
qed simp

lemma compact_value_length: "length (compact_value c) = WIDTH"
  unfolding compact_value_def SetCompact_def Let_def
  by (simp only: fst_conv split: if_split) (simp add: au_shl_val)

lemma au_div_u64:
  assumes "d \<noteq> 0"
  shows "\<exists>q. au_div (GetDiffOneTarget bits) (au_of_u64 d) = Some q \<and> length q = WIDTH \<and>
     au_val q = au_val (GetDiffOneTarget bits) div unat d"
  using au_div_val [of "GetDiffOneTarget bits" "au_of_u64 d"] assms
  by (simp add: GetDiffOneTarget_def compact_value_length unat_eq_0)

lemma DiffToTarget_quotient:
  assumes "TableSize \<le> 64" "diff \<noteq> 0"
  shows "\<exists>q. length q = WIDTH \<and> au_val q = au_val (GetDiffOneTarget bits) div unat diff \<and>
    (\<forall>useTable. DiffToTarget lg bits TableSize diff useTable = Some (ArithToUint256 q))"
proof -
  obtain q where q: "au_div (GetDiffOneTarget bits) (au_of_u64 diff) = Some q" "length q = WIDTH"
      "au_val q = au_val (GetDiffOneTarget bits) div unat diff"
    using au_div_u64 [OF assms(2)] by blast
  have "DiffToTarget lg bits TableSize diff useTable = Some (ArithToUint256 q)" for useTable
  proof (cases "useTable \<and> unat (lg diff) < TableSize \<and> diff = push_bit (unat (lg diff)) 1")
    case True
    let ?p = "unat (lg diff)"
    have "unat diff = 2 ^ ?p" using True unat_push_bit_1_u64 [of ?p] assms(1) by simp
    then have "au_shr (GetDiffOneTarget bits) ?p = q"
      using au_shr_val [of "GetDiffOneTarget bits" ?p] q(2,3)
      by (intro au_val_inj) (simp_all add: GetDiffOneTarget_def compact_value_length)
    then show ?thesis using True assms(2) by (simp add: DiffToTarget_def Let_def GenerateDiffToTargetTable_def)
  next
    case False
    then show ?thesis using q(1) assms(2) by (auto simp: DiffToTarget_def Let_def)
  qed
  then show ?thesis using q by blast
qed

text \<open>
  C17. Whatever position \<open>log2\<close> is rounded to, looking a difficulty up in the table of at most 64
  entries gives the same target as the division, and that target is the first target divided by
  the difficulty, rounded down.
\<close>

theorem DiffToTarget_table:
  assumes "TableSize \<le> 64" "diff \<noteq> 0"
  shows "DiffToTarget lg bits TableSize diff True = DiffToTarget lg bits TableSize diff False \<and>
    (\<exists>t. DiffToTarget lg bits TableSize diff True = Some t \<and>
       au_val (UintToArith256 t) = au_val (GetDiffOneTarget bits) div unat diff)"
  using DiffToTarget_quotient [OF assms, of bits lg] by (auto simp: UintToArith256_ArithToUint256)

theorem DiffToTarget_table_witness:
  "DiffToTarget (\<lambda>_. 3) 0x1d00ffff 64 8 True = DiffToTarget (\<lambda>_. 3) 0x1d00ffff 64 8 False"
  using DiffToTarget_table [of 64 8 "\<lambda>_. 3" "0x1d00ffff"] by simp

section \<open>From a difficulty to its target and back\<close>

lemma TargetToDiff_exact:
  assumes "length (UintToArith256 t) = WIDTH" "au_val (UintToArith256 t) * unat d = au_val (GetDiffOneTarget bits)"
    "au_val (GetDiffOneTarget bits) \<noteq> 0"
  shows "TargetToDiff bits t = Some d"
proof -
  have t: "au_val (UintToArith256 t) \<noteq> 0" using assms(2,3) by (metis mult_0)
  obtain q where q: "au_div (GetDiffOneTarget bits) (UintToArith256 t) = Some q" "length q = WIDTH"
      "au_val q = au_val (GetDiffOneTarget bits) div au_val (UintToArith256 t)"
    using au_div_val [OF _ assms(1) t, of "GetDiffOneTarget bits"] by (auto simp: GetDiffOneTarget_def compact_value_length)
  have "au_val q = unat d" using q(3) t assms(2) by (metis nonzero_mult_div_cancel_left)
  then have "unat (GetLow64 q) = unat d"
    using GetLow64_val [OF q(2)] unsigned_less [of d, where 'a = nat] by simp
  then show ?thesis using q(1) by (simp add: TargetToDiff_def word_unat_eq_iff)
qed

lemma length_blob_fill [simp]: "length (blob_fill n ds) = n"
  by (induction n ds rule: blob_fill.induct) simp_all

lemma au_div_null: "au_div a (UintToArith256 (replicate 32 0)) = None"
proof -
  have "au_bits (UintToArith256 (replicate 32 0)) = 0" by code_simp
  then show ?thesis by (simp add: au_div_def)
qed

text \<open>A target of zero, as any text that is not a hex number gives, has no difficulty.\<close>

lemma TargetToDiff_zero: "blob_IsNull (uint256S str) \<Longrightarrow> TargetToDiff_str bits str = None"
proof -
  assume "blob_IsNull (uint256S str)"
  then have "uint256S str = replicate 32 0"
    by (intro replicate_eqI) (auto simp: blob_IsNull_def list_all_iff uint256S_def blob_SetHex_def Let_def)
  then show ?thesis by (simp only: TargetToDiff_str_def TargetToDiff_def au_div_null option.map)
qed

lemma diff_one_value:
  assumes "bits = m OR push_bit 24 (of_nat n)" "unat m < 2 ^ 23" "unat m \<noteq> 0" "11 \<le> n" "n \<le> 33" "unat m * 256 ^ (n - 3) < 2 ^ 256"
  shows "\<exists>m k. m \<noteq> 0 \<and> 64 \<le> k \<and> au_val (GetDiffOneTarget bits) = m * 2 ^ k"
proof -
  have "au_val (GetDiffOneTarget bits) = unat m * 2 ^ (8 * (n - 3))"
    using compact_value_pack [OF assms(2), of n] assms(1,4-6) by (simp only: GetDiffOneTarget_def pow_256) simp
  then show ?thesis using assms(3,4) by (intro exI [of _ "unat m"] exI [of _ "8 * (n - 3)"]) simp
qed

lemma diff_one_values:
  assumes "bits \<in> {0x1d00ffff, 0x1f00ffff, 0x1f07ffff, 0x2100ffff}"
  shows "\<exists>m k. m \<noteq> 0 \<and> 64 \<le> k \<and> au_val (GetDiffOneTarget bits) = m * 2 ^ k"
proof -
  consider "bits = 0x1d00ffff" | "bits = 0x1f00ffff" | "bits = 0x1f07ffff" | "bits = 0x2100ffff" using assms by blast
  then show ?thesis
  proof cases
    case 1
    then show ?thesis by (intro diff_one_value [of bits "0xffff" 29]) simp_all
  next
    case 2
    then show ?thesis by (intro diff_one_value [of bits "0xffff" 31]) simp_all
  next
    case 3
    then show ?thesis by (intro diff_one_value [of bits "0x7ffff" 31]) simp_all
  next
    case 4
    then show ?thesis by (intro diff_one_value [of bits "0xffff" 33]) simp_all
  qed
qed



end
