(* ===== verification/Json_Node.thy ===== *)
theory Json_Node
  imports Str_Encodings
begin

text \<open>
  \<open>3rdparty/utilities_js.hpp\<close>: the JSON reader of the pool. A \<open>const char *\<close> into the text is
  the suffix of the text from that position, the end of the text the empty suffix, where
  the code reads the terminating zero. A node keeps \<open>start_\<close> as such a suffix, because the
  numeric accessors read on from \<open>start_\<close> without regard to \<open>end_\<close>, and \<open>end_ - start_\<close> as a number.

  \<open>parse\<close> uses one local \<open>node\<close> for all values and \<open>reset\<close> leaves \<open>start_\<close>, \<open>end_\<close> and the key alone: an
  object, an array or a null carries the position of the value before it. The model keeps
  this. Proved are that \<open>parse\<close> ends on every text, and that printing what it read and
  reading it again gives the same tree.
\<close>

section \<open>Nodes\<close>

datatype jtype = JNull | JObj | JArray | JStr | JInt | JReal | JBool | JUndefined

datatype Node = Node (ntype: jtype) (nkey: string) (nstart: string) (nsize: nat) (nchildren: "Node list")

definition Node0 :: Node where
  "Node0 = Node JUndefined [] [] 0 []"

definition node_str :: "Node \<Rightarrow> string" where
  "node_str n = take (nsize n) (nstart n)"

definition node_boolean :: "Node \<Rightarrow> bool" where
  "node_boolean n \<longleftrightarrow> peek (nstart n) 0 = CHR ''t''"

text \<open>\<open>strtoul\<close> and \<open>strtoull\<close> in base 16.\<close>

definition hex_value :: "string \<Rightarrow> nat" where
  "hex_value ds = foldl (\<lambda>v c. v * 16 + nat (HexDigit c)) 0 ds"

definition strtoull16 :: "string \<Rightarrow> u64" where
  "strtoull16 s =
     (let t = dropWhile isspace s;
          neg = (t \<noteq> [] \<and> hd t = CHR ''-'');
          u = (if t \<noteq> [] \<and> (hd t = CHR ''-'' \<or> hd t = CHR ''+'') then tl t else t);
          w = (if peek u 0 = CHR ''0'' \<and> tolower (peek u 1) = CHR ''x'' \<and> 0 \<le> HexDigit (peek u 2) then drop 2 u else u);
          d = takeWhile (\<lambda>c. 0 \<le> HexDigit c) w;
          v = hex_value d
      in if v > 2 ^ 64 - 1 then - 1 else if neg then - of_nat v else of_nat v)"

definition node_uint64 :: "Node \<Rightarrow> u64" where
  "node_uint64 n = fst (strtoull10 (nstart n))"

definition node_uint32 :: "Node \<Rightarrow> u32" where
  "node_uint32 n = ucast (fst (strtoull10 (nstart n)))"

definition node_int32 :: "Node \<Rightarrow> int" where
  "node_int32 n = sint (word_of_int (fst (strtoll10 (nstart n))) :: u32)"

definition node_uint64_hex :: "Node \<Rightarrow> u64" where
  "node_uint64_hex n = strtoull16 (nstart n)"

definition node_uint32_hex :: "Node \<Rightarrow> u32" where
  "node_uint32_hex n = ucast (strtoull16 (nstart n))"

text \<open>
  \<open>operator[]\<close> sorts the children by key and takes the first one with the key, or a fresh node.
  The insertion sort of \<open>std::sort\<close> on short ranges keeps equal keys in order, so that this is
  the first child with the key.
\<close>

definition node_at :: "Node \<Rightarrow> string \<Rightarrow> Node" where
  "node_at n key = (if ntype n = JObj
     then (case filter (\<lambda>c. nkey c = key) (nchildren n) of [] \<Rightarrow> Node0 | c # _ \<Rightarrow> c) else Node0)"

text \<open>\<open>children()->at(i)\<close>, which throws \<open>std::out_of_range\<close> past the end.\<close>

definition child_at :: "Node \<Rightarrow> nat \<Rightarrow> Node option" where
  "child_at n i = (if i < length (nchildren n) then Some (nchildren n ! i) else None)"

section \<open>Reading\<close>

definition stop_chars :: string where
  "stop_chars = [CHR ''n'', CHR 0x22] @ ''0123456789-tf[]{}''"

definition find_stop :: "string \<Rightarrow> string" where
  "find_stop i = dropWhile (\<lambda>c. c \<notin> set stop_chars) i"

fun parse_string :: "string \<Rightarrow> string" where
  "parse_string [] = []"
| "parse_string (c # i) =
     (if c = CHR 0x5C then (case i of [] \<Rightarrow> [] | _ # i' \<Rightarrow> parse_string i')
      else if c = CHR 0x22 then c # i else parse_string i)"

definition parse_float :: "string \<Rightarrow> string" where
  "parse_float i =
     (let i1 = dropWhile isdigit (if peek i 0 = CHR ''-'' then tl i else i);
          i2 = (if peek i1 0 = CHR ''.'' then dropWhile isdigit (tl i1) else i1)
      in if peek i2 0 = CHR ''e'' \<or> peek i2 0 = CHR ''E''
         then dropWhile isdigit (if peek i2 1 = CHR ''+'' \<or> peek i2 1 = CHR ''-'' then tl (tl i2) else tl i2)
         else i2)"

text \<open>The key of a member of an object; the opening quote is skipped unseen.\<close>

definition parse_key :: "bool \<Rightarrow> string \<Rightarrow> string \<Rightarrow> (string \<times> string) option" where
  "parse_key in_obj i key =
     (if \<not> in_obj then Some (key, i)
      else let e = parse_string (tl i)
           in if e = [] then None
              else let i' = find_stop (tl e)
                   in if i' = [] then None else Some (take (length (tl i) - length e) (tl i), i'))"

text \<open>A value, given the key and the position of the value before; a container comes back open.\<close>

definition parse_number :: "string \<Rightarrow> string \<Rightarrow> (Node \<times> string) option" where
  "parse_number i key =
     (let i0 = (if hd i = CHR ''-'' then tl i else i);
          i1 = dropWhile isdigit i0;
          j = parse_float i1
      in if i0 = [] then None
         else if j = [] then None
         else Some (Node (if i1 \<noteq> j then JReal else JInt) key i (length i - length j) [], j))"

definition parse_value :: "string \<Rightarrow> string \<Rightarrow> string \<Rightarrow> nat \<Rightarrow> (Node \<times> string) option" where
  "parse_value i key start sz =
     (if hd i = CHR ''{'' then Some (Node JObj key start sz [], tl i)
      else if hd i = CHR ''['' then Some (Node JArray key start sz [], tl i)
      else if hd i = CHR ''n'' then Some (Node JNull key start sz [], tl i)
      else if hd i = CHR ''t'' \<or> hd i = CHR ''f'' then Some (Node JBool key i 0 [], tl i)
      else if hd i = CHR 0x22
      then (let e = parse_string (tl i)
            in if e = [] then None else Some (Node JStr key (tl i) (length (tl i) - length e) [], tl e))
      else parse_number i key)"

definition container :: "Node \<Rightarrow> bool" where
  "container n \<longleftrightarrow> ntype n = JObj \<or> ntype n = JArray"

definition add_child :: "Node \<Rightarrow> Node \<Rightarrow> Node" where
  "add_child p n = Node (ntype p) (nkey p) (nstart p) (nsize p) (nchildren p @ [n])"

lemma length_find_stop: "length (find_stop i) \<le> length i"
  by (simp add: find_stop_def length_dropWhile_le)

lemma length_parse_string: "length (parse_string i) \<le> length i"
proof (induction i rule: parse_string.induct)
  case (2 c i)
  then show ?case by (cases i) (force simp: le_SucI)+
qed simp

lemma length_parse_float: "length (parse_float i) \<le> length i"
proof -
  have 1: "length (dropWhile isdigit (if b then tl x else x)) \<le> length x" for b x
    using length_dropWhile_le [of isdigit "if b then tl x else x"] by (auto split: if_splits)
  have 2: "length (dropWhile isdigit (if b then tl (tl x) else tl x)) \<le> length x" for b x
    using length_dropWhile_le [of isdigit "if b then tl (tl x) else tl x"] by (auto split: if_splits)
  have 3: "length (dropWhile isdigit (tl x)) \<le> length x" for x
    using length_dropWhile_le [of isdigit "tl x"] by simp
  show ?thesis unfolding parse_float_def Let_def
    by (smt (verit) 1 2 3 le_trans order_refl)
qed

lemma parse_key_length: "parse_key b i k = Some (k', i') \<Longrightarrow> i \<noteq> [] \<Longrightarrow> (if b then length i' < length i else i' = i)"
  using length_parse_string [of "tl i"] length_find_stop [of "tl (parse_string (tl i))"]
  by (cases "parse_string (tl i)"; cases i) (auto simp: parse_key_def Let_def split: if_splits)

lemma parse_number_length:
  assumes "parse_number i k = Some (n, j)" "i \<noteq> []"
  shows "length j \<le> length i \<and> (hd i = CHR ''-'' \<or> isdigit (hd i) \<longrightarrow> length j < length i)"
proof -
  define i0 where "i0 = (if hd i = CHR ''-'' then tl i else i)"
  have j: "j = parse_float (dropWhile isdigit i0)"
    using assms(1) by (auto simp: parse_number_def Let_def i0_def split: if_splits)
  have "length j \<le> length i0"
    unfolding j using length_parse_float [of "dropWhile isdigit i0"] length_dropWhile_le [of isdigit i0] by linarith
  moreover have "length j < length i" if "isdigit (hd i)"
  proof -
    have "length (dropWhile isdigit i0) < length i" using that assms(2) length_dropWhile_le [of isdigit "tl i"]
      by (cases i) (auto simp: i0_def isdigit_def)
    then show ?thesis unfolding j using length_parse_float [of "dropWhile isdigit i0"] by linarith
  qed
  ultimately show ?thesis using assms(2) by (cases i) (auto simp: i0_def split: if_splits)
qed

lemma parse_value_length:
  assumes "parse_value i k s z = Some (n, j)" "i \<noteq> []"
  shows "length j \<le> length i \<and> (hd i \<in> set stop_chars \<and> hd i \<noteq> CHR ''}'' \<and> hd i \<noteq> CHR '']'' \<longrightarrow> length j < length i)"
proof -
  have *: "length (tl (parse_string (tl i))) < length i"
    using length_parse_string [of "tl i"] assms(2) by (cases i) auto
  show ?thesis
  proof (cases "parse_value i k s z = parse_number i k")
    case True
    have "isdigit (hd i) \<or> hd i = CHR ''-'' \<or> hd i \<notin> set stop_chars \<or>
        hd i = CHR ''}'' \<or> hd i = CHR '']'' \<or> hd i \<in> {CHR ''n'', CHR 0x22, CHR ''t'', CHR ''f'', CHR ''['', CHR ''{''}"
      by (auto simp: stop_chars_def isdigit_def ord_def)
    moreover have "length j < length i" if "hd i \<in> {CHR ''n'', CHR 0x22, CHR ''t'', CHR ''f'', CHR ''['', CHR ''{''}"
      using that assms * by (cases i) (auto simp: parse_value_def Let_def split: if_splits)
    ultimately show ?thesis using parse_number_length [of i k n j] True assms by auto
  next
    case False
    then have "length j < length i" using assms * by (cases i) (auto simp: parse_value_def Let_def split: if_splits)
    then show ?thesis by simp
  qed
qed

lemma find_stop_hd: "find_stop i = c # r \<Longrightarrow> c \<in> set stop_chars"
  by (simp add: find_stop_def dropWhile_eq_Cons_conv)

lemma parse_step_length:
  assumes "find_stop i = c # r" "c \<noteq> CHR ''}''" "c \<noteq> CHR '']''"
    "parse_key b (c # r) key = Some (k, i1)" "parse_value i1 k start sz = Some (n, i2)"
  shows "length i2 < length i"
proof -
  have c: "c \<in> set stop_chars" by (rule find_stop_hd [OF assms(1)])
  have l: "length (c # r) \<le> length i" using length_find_stop [of i] assms(1) by simp
  have k: "if b then length i1 < length (c # r) else i1 = c # r" using parse_key_length [OF assms(4)] by simp
  have ne: "i1 \<noteq> []" using assms(4) by (auto simp: parse_key_def Let_def split: if_splits)
  show ?thesis
    using parse_value_length [OF assms(5) ne] k l c assms(2,3) by (auto split: if_splits)
qed

text \<open>
  The loop of \<open>parse\<close>: the open containers, innermost first, in place of the \<open>parent\<close> pointer, and
  the key and the position the local \<open>node\<close> still holds.
\<close>

function parse_loop :: "string \<Rightarrow> Node list \<Rightarrow> string \<Rightarrow> string \<Rightarrow> nat \<Rightarrow> Node option" where
  "parse_loop i stack key start sz =
     (case find_stop i of
        [] \<Rightarrow> None
      | c # r \<Rightarrow>
          if c = CHR ''}'' \<or> c = CHR '']''
          then (case stack of
                  [] \<Rightarrow> None
                | p # ps \<Rightarrow>
                    if ntype p \<noteq> (if c = CHR ''}'' then JObj else JArray) then None
                    else (case ps of [] \<Rightarrow> Some p | q # qs \<Rightarrow> parse_loop r (add_child q p # qs) key start sz))
          else (case parse_key (stack \<noteq> [] \<and> ntype (hd stack) = JObj) (c # r) key of
                  None \<Rightarrow> None
                | Some (k, i1) \<Rightarrow>
                    (case parse_value i1 k start sz of
                       None \<Rightarrow> None
                     | Some (n, i2) \<Rightarrow>
                         if container n then parse_loop i2 (n # stack) k (nstart n) (nsize n)
                         else (case stack of
                                 [] \<Rightarrow> Some n
                               | p # ps \<Rightarrow> parse_loop i2 (add_child p n # ps) k (nstart n) (nsize n)))))"
  by pat_completeness auto

termination
proof (relation "measure (\<lambda>(i, _). length i)", goal_cases)
  case 1
  show ?case by simp
next
  case (2 i stack key start sz c r p ps q qs)
  then show ?case using length_find_stop [of i] by simp
next
  case (3 i stack key start sz c r y k i1 y' n i2)
  then show ?case using parse_step_length [of i c r] by auto
next
  case (4 i stack key start sz c r y k i1 y' n i2 p ps)
  then show ?case using parse_step_length [of i c r] by auto
qed

declare parse_loop.simps [simp del]

definition node_parse :: "string \<Rightarrow> Node option" where
  "node_parse s = parse_loop s [] [] [] 0"

section \<open>Printing\<close>

fun commas :: "string list \<Rightarrow> string" where
  "commas [] = []"
| "commas [x] = x"
| "commas (x # xs) = x @ CHR '','' # commas xs"

text \<open>\<open>print\<close>; the flag is \<open>has_key()\<close>, that the parent is an object.\<close>

fun print_node :: "bool \<Rightarrow> Node \<Rightarrow> string" where
  "print_node has_key (Node t key start sz cs) =
     (if has_key then [CHR 0x22] @ key @ [CHR 0x22, CHR '':''] else []) @
     (case t of
        JArray \<Rightarrow> ''['' @ commas (map (print_node False) cs) @ '']''
      | JObj \<Rightarrow> ''{'' @ commas (map (print_node True) cs) @ ''}''
      | JBool \<Rightarrow> (if peek start 0 = CHR ''t'' then ''true'' else ''false'')
      | JNull \<Rightarrow> ''null''
      | JStr \<Rightarrow> [CHR 0x22] @ take sz start @ [CHR 0x22]
      | JInt \<Rightarrow> take sz start
      | JReal \<Rightarrow> take sz start
      | JUndefined \<Rightarrow> ''undefined'')"

section \<open>The tree a text stands for\<close>

datatype jval = VNull | VBool bool | VStr string | VInt string | VReal string
  | VArr "jval list" | VObj "(string \<times> jval) list" | VUndef

fun node_val :: "Node \<Rightarrow> jval" where
  "node_val (Node t key start sz cs) =
     (case t of
        JArray \<Rightarrow> VArr (map node_val cs)
      | JObj \<Rightarrow> VObj (map (\<lambda>c. (nkey c, node_val c)) cs)
      | JBool \<Rightarrow> VBool (peek start 0 = CHR ''t'')
      | JNull \<Rightarrow> VNull
      | JStr \<Rightarrow> VStr (take sz start)
      | JInt \<Rightarrow> VInt (take sz start)
      | JReal \<Rightarrow> VReal (take sz start)
      | JUndefined \<Rightarrow> VUndef)"

text \<open>
  A member without a value, as in \<open>{"a"}\<close>, is read as an integer with an empty text.
\<close>

fun no_empty :: "Node \<Rightarrow> bool" where
  "no_empty (Node t key start sz cs) \<longleftrightarrow>
     (t = JInt \<or> t = JReal \<longrightarrow> take sz start \<noteq> []) \<and> list_all no_empty cs"

section \<open>Scanners\<close>

text \<open>
  What a scanner consumed it consumes again before any character that ends a value.
\<close>

abbreviation delims :: "char set" where
  "delims \<equiv> {CHR '','', CHR ''}'', CHR '']''}"

definition scanner :: "(string \<Rightarrow> string) \<Rightarrow> bool" where
  "scanner f \<longleftrightarrow> (\<forall>i. f i \<noteq> [] \<longrightarrow>
     (\<exists>x. i = x @ f i \<and> (\<forall>r. r \<noteq> [] \<and> (hd r = hd (f i) \<or> hd r \<in> delims) \<longrightarrow> f (x @ r) = r)))"

lemma scannerE:
  assumes "scanner f" "f i \<noteq> []"
  obtains x where "i = x @ f i" "\<And>r. r \<noteq> [] \<Longrightarrow> hd r = hd (f i) \<or> hd r \<in> delims \<Longrightarrow> f (x @ r) = r"
  using assms unfolding scanner_def by blast

lemma scanner_comp:
  assumes f: "scanner f" and g: "scanner g"
  shows "scanner (\<lambda>i. g (f i))"
  unfolding scanner_def
proof (intro allI impI)
  fix i assume ne: "g (f i) \<noteq> []"
  obtain y where y: "f i = y @ g (f i)" "\<And>r. r \<noteq> [] \<Longrightarrow> hd r = hd (g (f i)) \<or> hd r \<in> delims \<Longrightarrow> g (y @ r) = r"
    using scannerE [OF g ne] by blast
  have "f i \<noteq> []" using y(1) ne by (metis append_is_Nil_conv)
  from scannerE [OF f this] obtain x where
    x: "i = x @ f i" "\<And>r. r \<noteq> [] \<Longrightarrow> hd r = hd (f i) \<or> hd r \<in> delims \<Longrightarrow> f (x @ r) = r" by blast
  have "g (f ((x @ y) @ r)) = r" if r: "r \<noteq> []" "hd r = hd (g (f i)) \<or> hd r \<in> delims" for r
  proof -
    have "hd (f i) = (if y = [] then hd (g (f i)) else hd y)" using y(1) by (metis append_Nil hd_append2)
    then have "hd (y @ r) = hd (f i) \<or> hd (y @ r) \<in> delims" using r by (auto simp: hd_append)
    then have "f (x @ (y @ r)) = y @ r" using x(2) [of "y @ r"] r(1) by simp
    then show ?thesis using y(2) [OF r] by simp
  qed
  moreover have "i = (x @ y) @ g (f i)" using x(1) y(1) by simp
  ultimately show "\<exists>x. i = x @ g (f i) \<and> (\<forall>r. r \<noteq> [] \<and> (hd r = hd (g (f i)) \<or> hd r \<in> delims) \<longrightarrow> g (f (x @ r)) = r)"
    by blast
qed

lemma scanner_digits: "scanner (dropWhile isdigit)"
  unfolding scanner_def
proof (intro allI impI)
  fix i assume ne: "dropWhile isdigit i \<noteq> []"
  then have h: "\<not> isdigit (hd (dropWhile isdigit i))" by (meson hd_dropWhile dropWhile_eq_Nil_conv)
  have "dropWhile isdigit (takeWhile isdigit i @ r) = r"
    if r: "r \<noteq> []" "hd r = hd (dropWhile isdigit i) \<or> hd r \<in> delims" for r
  proof -
    have "\<not> isdigit (hd r)" using r(2) h by (auto simp: isdigit_def ord_def)
    then have "dropWhile isdigit r = r" using r(1) by (cases r) auto
    moreover have "\<forall>c\<in>set (takeWhile isdigit i). isdigit c" by (metis set_takeWhileD)
    ultimately show ?thesis by (simp add: dropWhile_append2)
  qed
  then show "\<exists>x. i = x @ dropWhile isdigit i \<and>
      (\<forall>r. r \<noteq> [] \<and> (hd r = hd (dropWhile isdigit i) \<or> hd r \<in> delims) \<longrightarrow> dropWhile isdigit (x @ r) = r)"
    by (intro exI [of _ "takeWhile isdigit i"]) simp
qed

lemma scanner_opt:
  assumes f: "scanner f" and C: "C \<inter> delims = {}" "nul \<notin> C"
  shows "scanner (\<lambda>i. if peek i 0 \<in> C then f (tl i) else i)"
  unfolding scanner_def
proof (intro allI impI)
  fix i assume ne: "(if peek i 0 \<in> C then f (tl i) else i) \<noteq> []"
  show "\<exists>x. i = x @ (if peek i 0 \<in> C then f (tl i) else i) \<and>
      (\<forall>r. r \<noteq> [] \<and> (hd r = hd (if peek i 0 \<in> C then f (tl i) else i) \<or> hd r \<in> delims) \<longrightarrow>
         (if peek (x @ r) 0 \<in> C then f (tl (x @ r)) else x @ r) = r)"
  proof (cases "peek i 0 \<in> C")
    case True
    then obtain c j where i: "i = c # j" using C(2) by (cases i) (auto simp: peek_def)
    obtain x where x: "j = x @ f j" "\<And>r. r \<noteq> [] \<Longrightarrow> hd r = hd (f j) \<or> hd r \<in> delims \<Longrightarrow> f (x @ r) = r"
      using scannerE [OF f, of j] ne True i by auto
    then show ?thesis using True by (intro exI [of _ "c # x"]) (auto simp: i peek_def)
  next
    case False
    have "peek r 0 \<notin> C" if "r \<noteq> []" "hd r = hd i \<or> hd r \<in> delims" for r
      using that False ne C(1) by (cases r; cases i) (auto simp: peek_def)
    then show ?thesis using False by (intro exI [of _ "[]"]) auto
  qed
qed

lemma scanner_id: "scanner (\<lambda>i. i)"
  unfolding scanner_def by (intro allI impI exI [of _ "[]"]) simp

lemma parse_float_alt:
  "parse_float i =
     (\<lambda>i. if peek i 0 \<in> {CHR ''e'', CHR ''E''}
        then (\<lambda>i. dropWhile isdigit ((\<lambda>i. if peek i 0 \<in> {CHR ''+'', CHR ''-''} then tl i else i) i)) (tl i) else i)
     ((\<lambda>i. if peek i 0 \<in> {CHR ''.''} then dropWhile isdigit (tl i) else i)
     (dropWhile isdigit ((\<lambda>i. if peek i 0 \<in> {CHR ''-''} then tl i else i) i)))"
proof -
  have *: "peek (tl i) 0 = peek i 1" if "i \<noteq> []" for i using that by (cases i) (auto simp: peek_def)
  have "i \<noteq> []" if "peek i 0 = CHR ''e'' \<or> peek i 0 = CHR ''E''" for i using that by (auto simp: peek_def nul_def)
  then show ?thesis unfolding parse_float_def Let_def by (auto simp: *)
qed

lemma scanner_parse_float: "scanner parse_float"
proof -
  have 1: "scanner (\<lambda>i. if peek i 0 \<in> {CHR ''+'', CHR ''-''} then tl i else i)"
    by (rule scanner_opt [OF scanner_id]) (auto simp: nul_def)
  have 2: "scanner (\<lambda>i. if peek i 0 \<in> {CHR ''e'', CHR ''E''}
        then (\<lambda>i. dropWhile isdigit ((\<lambda>i. if peek i 0 \<in> {CHR ''+'', CHR ''-''} then tl i else i) i)) (tl i) else i)"
    by (rule scanner_opt [OF scanner_comp [OF 1 scanner_digits]]) (auto simp: nul_def)
  have 3: "scanner (\<lambda>i. if peek i 0 \<in> {CHR ''.''} then dropWhile isdigit (tl i) else i)"
    by (rule scanner_opt [OF scanner_digits]) (auto simp: nul_def)
  have 4: "scanner (\<lambda>i. if peek i 0 \<in> {CHR ''-''} then tl i else i)"
    by (rule scanner_opt [OF scanner_id]) (auto simp: nul_def)
  show ?thesis
    unfolding parse_float_alt [abs_def]
    by (rule scanner_comp [OF scanner_comp [OF scanner_comp [OF 4 scanner_digits] 3] 2])
qed

lemma parse_number_again:
  assumes "parse_number i k = Some (n, j)" "i \<noteq> []"
  shows "\<exists>x. i = x @ j \<and> node_str n = x \<and> nsize n = length x \<and>
     (\<forall>r k. r \<noteq> [] \<and> hd r \<in> delims \<and> x \<noteq> [] \<longrightarrow> parse_number (x @ r) k = Some (Node (ntype n) k (x @ r) (length x) [], r))"
proof -
  let ?f = "\<lambda>i. dropWhile isdigit ((\<lambda>i. if peek i 0 \<in> {CHR ''-''} then tl i else i) i)"
  have hd: "hd i = CHR ''-'' \<longleftrightarrow> peek i 0 \<in> {CHR ''-''}" if "i \<noteq> []" for i using that by (cases i) (auto simp: peek_def)
  have j: "j = parse_float (?f i)" "j \<noteq> []" and n: "n = Node (if ?f i \<noteq> j then JReal else JInt) k i (length i - length j) []"
    using assms by (auto simp: parse_number_def Let_def hd split: if_splits)
  obtain y where y: "?f i = y @ j" "\<And>r. r \<noteq> [] \<Longrightarrow> hd r = hd j \<or> hd r \<in> delims \<Longrightarrow> parse_float (y @ r) = r"
    using scannerE [OF scanner_parse_float, of "?f i"] j by metis
  have sf: "scanner ?f"
    by (rule scanner_comp [OF scanner_opt [OF scanner_id] scanner_digits]) (auto simp: nul_def)
  have "?f i \<noteq> []" using y(1) j(2) by simp
  from scannerE [OF sf this] obtain x where
    x: "i = x @ ?f i" "\<And>r. r \<noteq> [] \<Longrightarrow> hd r = hd (?f i) \<or> hd r \<in> delims \<Longrightarrow> ?f (x @ r) = r" by blast
  have i: "i = (x @ y) @ j" using x(1) y(1) by simp
  have "parse_number ((x @ y) @ r) k = Some (Node (ntype n) k ((x @ y) @ r) (length (x @ y)) [], r)"
    if r: "r \<noteq> []" "hd r \<in> delims" "x @ y \<noteq> []" for r k
  proof -
    have "hd (y @ r) = hd (?f i) \<or> hd (y @ r) \<in> delims" using r y(1) by (cases y) (auto simp: hd_append)
    then have "?f (x @ (y @ r)) = y @ r" using x(2) [of "y @ r"] r(1) by blast
    then have f: "?f ((x @ y) @ r) = y @ r" by (simp only: append_assoc)
    have p: "parse_float (y @ r) = r" using y(2) r by simp
    have "y @ r \<noteq> r \<longleftrightarrow> ?f i \<noteq> j" using y(1) by auto
    then have t: "ntype n = (if y @ r \<noteq> r then JReal else JInt)" by (simp add: n)
    have h: "hd ((x @ y) @ r) = CHR ''-'' \<longleftrightarrow> peek ((x @ y) @ r) 0 \<in> {CHR ''-''}" using r(1) by (intro hd) simp
    define u where "u = (x @ y) @ r"
    have g: "(if peek u 0 \<in> {CHR ''-''} then tl u else u) \<noteq> []" using f r(1) unfolding u_def [symmetric] by auto
    show ?thesis
      using f p g r(1) unfolding t parse_number_def Let_def u_def [symmetric] h [folded u_def] by (auto simp: u_def split: if_splits)
  qed
  then show ?thesis using i by (intro exI [of _ "x @ y"]) (auto simp: n node_str_def)
qed

section \<open>What parse accepts\<close>

definition str_ok :: "string \<Rightarrow> bool" where
  "str_ok t \<longleftrightarrow> (\<forall>r. parse_string (t @ CHR 0x22 # r) = CHR 0x22 # r)"

definition num_ok :: "jtype \<Rightarrow> string \<Rightarrow> bool" where
  "num_ok t x \<longleftrightarrow> x = [] \<or> ((hd x = CHR ''-'' \<or> isdigit (hd x)) \<and>
     (\<forall>r k. r \<noteq> [] \<and> hd r \<in> delims \<longrightarrow> parse_number (x @ r) k = Some (Node t k (x @ r) (length x) [], r)))"

fun node_ok :: "Node \<Rightarrow> bool" where
  "node_ok (Node t key start sz cs) \<longleftrightarrow>
     str_ok key \<and> t \<noteq> JUndefined \<and> (t = JStr \<longrightarrow> str_ok (take sz start)) \<and>
     (t = JInt \<or> t = JReal \<longrightarrow> num_ok t (take sz start)) \<and> list_all node_ok cs"

lemma str_ok_Nil: "str_ok []"
  by (simp add: str_ok_def)

lemma parse_string_split:
  "parse_string i \<noteq> [] \<Longrightarrow> \<exists>t r. i = t @ CHR 0x22 # r \<and> parse_string i = CHR 0x22 # r \<and> str_ok t"
proof (induction i rule: parse_string.induct)
  case (2 c i)
  show ?case
  proof (cases "c = CHR 0x5C")
    case True
    with 2(3) obtain d i' where i: "i = d # i'" "parse_string i' \<noteq> []" by (cases i) auto
    then obtain t r where "i' = t @ CHR 0x22 # r" "parse_string i' = CHR 0x22 # r" "str_ok t" using 2(1) True by blast
    then show ?thesis using True i by (intro exI [of _ "c # d # t"] exI [of _ r]) (auto simp: str_ok_def)
  next
    case False
    show ?thesis
    proof (cases "c = CHR 0x22")
      case True
      then show ?thesis by (intro exI [of _ "[]"] exI [of _ i]) (simp add: str_ok_Nil)
    next
      case q: False
      then obtain t r where "i = t @ CHR 0x22 # r" "parse_string i = CHR 0x22 # r" "str_ok t"
        using 2(2,3) False by auto
      then show ?thesis using False q by (intro exI [of _ "c # t"] exI [of _ r]) (auto simp: str_ok_def)
    qed
  qed
qed simp

lemma parse_key_ok: "parse_key b i k = Some (k', i') \<Longrightarrow> str_ok k \<Longrightarrow> str_ok k' \<and> i' \<noteq> [] \<or> \<not> b \<and> i' = i \<and> k' = k"
  using parse_string_split [of "tl i"] by (auto simp: parse_key_def Let_def split: if_splits)

lemma parse_key_hd: "parse_key b (c # r) k = Some (k', i') \<Longrightarrow> c \<in> set stop_chars \<Longrightarrow> hd i' \<in> set stop_chars"
  using find_stop_hd [of "tl (parse_string r)" "hd i'" "tl i'"]
  by (auto simp: parse_key_def Let_def split: if_splits)

lemma parse_number_close:
  assumes "parse_number i k = Some (n, j)" "i \<noteq> []" "hd i = CHR ''}'' \<or> hd i = CHR '']''"
  shows "j = i"
proof -
  obtain c r where i: "i = c # r" "c = CHR ''}'' \<or> c = CHR '']''" using assms(2,3) by (cases i) auto
  then have d: "\<not> isdigit c" "c \<noteq> CHR ''-''" by (auto simp: isdigit_def ord_def)
  have "parse_float i = i" using i d by (auto simp: parse_float_def Let_def peek_def)
  then show ?thesis using assms(1) i d by (auto simp: parse_number_def Let_def split: if_splits)
qed

lemma parse_value_ok:
  assumes "parse_value i k s z = Some (n, j)" "i \<noteq> []" "hd i \<in> set stop_chars" "str_ok k"
  shows "node_ok n"
proof (cases "hd i \<in> {CHR ''{'', CHR ''['', CHR ''n'', CHR ''t'', CHR ''f'', CHR 0x22}")
  case True
  have "str_ok (take (length (tl i) - length (parse_string (tl i))) (tl i))" if "parse_string (tl i) \<noteq> []"
    using parse_string_split [OF that] by (auto simp del: length_tl)
  then show ?thesis using True assms(1,4) by (auto simp: parse_value_def Let_def simp del: length_tl split: if_splits)
next
  case False
  then have p: "parse_number i k = Some (n, j)" using assms(1) by (simp add: parse_value_def)
  have c: "isdigit (hd i) \<or> hd i = CHR ''-'' \<or> hd i = CHR ''}'' \<or> hd i = CHR '']''"
    using False assms(3) by (auto simp: stop_chars_def isdigit_def ord_def)
  obtain x where x: "i = x @ j" "node_str n = x"
    "\<And>r k. r \<noteq> [] \<Longrightarrow> hd r \<in> delims \<Longrightarrow> x \<noteq> [] \<Longrightarrow> parse_number (x @ r) k = Some (Node (ntype n) k (x @ r) (length x) [], r)"
    using parse_number_again [OF p assms(2)] by blast
  have n: "nkey n = k" "nchildren n = []" "ntype n = JInt \<or> ntype n = JReal"
    using p by (auto simp: parse_number_def Let_def split: if_splits)
  have e: "x = []" if "hd i = CHR ''}'' \<or> hd i = CHR '']''"
    using parse_number_close [OF p assms(2) that] x(1) by simp
  have "num_ok (ntype n) x"
  proof (cases "x = []")
    case False
    then have "hd x = hd i" using x(1) by simp
    then have "hd x = CHR ''-'' \<or> isdigit (hd x)" using c e False by auto
    then show ?thesis unfolding num_ok_def using x(3) False by simp
  qed (simp add: num_ok_def)
  then show ?thesis using n x(2) assms(4) by (cases n) (auto simp: node_str_def)
qed

lemma node_ok_add_child: "node_ok p \<Longrightarrow> node_ok n \<Longrightarrow> node_ok (add_child p n)"
  by (cases p) (auto simp: add_child_def)

lemma parse_loop_ok:
  "parse_loop i stack key start sz = Some n \<Longrightarrow> list_all node_ok stack \<Longrightarrow> str_ok key \<Longrightarrow> node_ok n"
proof (induction i stack key start sz rule: parse_loop.induct)
  case (1 i stack key start sz)
  obtain c r where f: "find_stop i = c # r" using 1(4) by (subst (asm) parse_loop.simps) (auto split: list.splits)
  have c: "c \<in> set stop_chars" by (rule find_stop_hd [OF f])
  show ?case
  proof (cases "c = CHR ''}'' \<or> c = CHR '']''")
    case True
    obtain p ps where st: "stack = p # ps" "ntype p = (if c = CHR ''}'' then JObj else JArray)"
      using 1(4) f True by (subst (asm) parse_loop.simps) (auto split: list.splits if_splits)
    show ?thesis
    proof (cases ps)
      case Nil
      then show ?thesis using 1(4,5) f True st by (subst (asm) parse_loop.simps) auto
    next
      case (Cons q qs)
      then have "parse_loop r (add_child q p # qs) key start sz = Some n"
        using 1(4) f True st by (subst (asm) parse_loop.simps) auto
      then show ?thesis using 1(1) [OF f True st(1)] st Cons 1(5,6) node_ok_add_child by auto
    qed
  next
    case False
    let ?b = "stack \<noteq> [] \<and> ntype (hd stack) = JObj"
    obtain k i1 where k: "parse_key ?b (c # r) key = Some (k, i1)"
      using 1(4) f False by (subst (asm) parse_loop.simps) (auto split: option.splits)
    obtain m i2 where v: "parse_value i1 k start sz = Some (m, i2)"
      using 1(4) f False k by (subst (asm) parse_loop.simps) (auto split: option.splits)
    have ok: "str_ok k" "i1 \<noteq> []" "hd i1 \<in> set stop_chars"
      using parse_key_ok [OF k 1(6)] parse_key_hd [OF k c] 1(6) by auto
    have m: "node_ok m" by (rule parse_value_ok [OF v ok(2,3,1)])
    show ?thesis
    proof (cases "container m")
      case True
      then have "parse_loop i2 (m # stack) k (nstart m) (nsize m) = Some n"
        using 1(4) f False k v by (subst (asm) parse_loop.simps) auto
      then show ?thesis using 1(2) [OF f False k refl v refl True] m 1(5) ok by auto
    next
      case nc: False
      show ?thesis
      proof (cases stack)
        case Nil
        then show ?thesis using 1(4) f False k v nc m by (subst (asm) parse_loop.simps) auto
      next
        case (Cons p ps)
        then have "parse_loop i2 (add_child p m # ps) k (nstart m) (nsize m) = Some n"
          using 1(4) f False k v nc by (subst (asm) parse_loop.simps) auto
        then show ?thesis using 1(3) [OF f False k refl v refl nc Cons] m 1(5) ok Cons node_ok_add_child by auto
      qed
    qed
  qed
qed

section \<open>Reading back what was printed\<close>

lemma parse_loop_find_stop: "find_stop i = find_stop j \<Longrightarrow> parse_loop i st k s z = parse_loop j st k s z"
  by (subst (1 2) parse_loop.simps) simp

lemma parse_loop_skip: "set x \<inter> set stop_chars = {} \<Longrightarrow> parse_loop (x @ i) st k s z = parse_loop i st k s z"
  by (rule parse_loop_find_stop) (auto simp: find_stop_def intro!: dropWhile_append2)

lemma parse_loop_leaf:
  assumes "c \<in> set stop_chars" "c \<noteq> CHR ''}''" "c \<noteq> CHR '']''"
    "parse_key (ntype p = JObj) (c # i) k = Some (k', i1)" "parse_value i1 k' s z = Some (n, i2)" "\<not> container n"
  shows "parse_loop (c # i) (p # ps) k s z = parse_loop i2 (add_child p n # ps) k' (nstart n) (nsize n)"
  using assms by (subst parse_loop.simps) (simp add: find_stop_def)

lemma parse_loop_open:
  assumes "c \<in> set stop_chars" "c \<noteq> CHR ''}''" "c \<noteq> CHR '']''"
    "parse_key (st \<noteq> [] \<and> ntype (hd st) = JObj) (c # i) k = Some (k', i1)" "parse_value i1 k' s z = Some (n, i2)" "container n"
  shows "parse_loop (c # i) st k s z = parse_loop i2 (n # st) k' (nstart n) (nsize n)"
  using assms by (subst parse_loop.simps) (auto simp: find_stop_def)

lemma parse_loop_close:
  assumes "c = (if ntype p = JObj then CHR ''}'' else CHR '']'')" "container p"
  shows "parse_loop (c # i) (p # ps) k s z = (case ps of [] \<Rightarrow> Some p | q # qs \<Rightarrow> parse_loop i (add_child q p # qs) k s z)"
  using assms by (subst parse_loop.simps) (auto simp: find_stop_def stop_chars_def container_def)

text \<open>The value of a leaf, printed and read again before a delimiter.\<close>

abbreviation print_value :: "Node \<Rightarrow> string" where
  "print_value n \<equiv> print_node False n"

lemma print_keyed: "print_node True n = [CHR 0x22] @ nkey n @ [CHR 0x22, CHR '':''] @ print_value n"
  by (cases n) simp

lemma isdigit_stop:
  assumes "isdigit c"
  shows "c \<in> set stop_chars \<and> c \<noteq> CHR ''}'' \<and> c \<noteq> CHR '']''"
proof -
  have "ord c \<in> set [48..<58]" using assms unfolding set_upt isdigit_def atLeastLessThan_iff by linarith
  moreover have "[48..<58] = map ord ''0123456789''" by (simp add: ord_def upt_conv_Cons)
  ultimately have "ord c \<in> ord ` set ''0123456789''" by (simp only: set_map)
  moreover have "inj ord" by (simp add: inj_def ord_def)
  ultimately have "c \<in> set ''0123456789''" by (simp only: inj_image_mem_iff)
  then show ?thesis by (auto simp: stop_chars_def)
qed

lemma value_hd:
  assumes "node_ok n" "no_empty n"
  shows "\<exists>c x. print_value n = c # x \<and> c \<in> set stop_chars \<and> c \<noteq> CHR ''}'' \<and> c \<noteq> CHR '']''"
proof -
  obtain t k s z cs where n: "n = Node t k s z cs" by (cases n)
  have num: "\<exists>c x. take z s = c # x \<and> c \<in> set stop_chars \<and> c \<noteq> CHR ''}'' \<and> c \<noteq> CHR '']''" if t: "t = JInt \<or> t = JReal"
  proof -
    have "take z s \<noteq> []" using t assms(2) by (auto simp: n)
    then obtain c x where x: "take z s = c # x" by (cases "take z s") simp_all
    then have "c = CHR ''-'' \<or> isdigit c" using t assms(1) unfolding n by (auto simp: num_ok_def)
    then have "c \<in> set stop_chars \<and> c \<noteq> CHR ''}'' \<and> c \<noteq> CHR '']''"
    proof
      assume "c = CHR ''-''"
      then show ?thesis by (simp add: stop_chars_def)
    qed (rule isdigit_stop)
    then show ?thesis using x by blast
  qed
  show ?thesis
  proof (cases "t = JInt \<or> t = JReal")
    case True
    then have "print_value n = take z s" by (auto simp: n)
    then show ?thesis using num [OF True] by simp
  next
    case False
    then show ?thesis using assms(1) unfolding n by (cases t) (simp_all add: stop_chars_def)
  qed
qed

lemma value_again:
  assumes "node_ok n" "no_empty n" "\<not> container n" "r \<noteq> []" "hd r \<in> delims"
  shows "\<exists>m y. parse_value (print_value n @ r) k s z = Some (m, y @ r) \<and> set y \<inter> set stop_chars = {} \<and>
     node_val m = node_val n \<and> nkey m = k \<and> \<not> container m"
proof -
  obtain t k' s' z' cs where n: "n = Node t k' s' z' cs" by (cases n)
  show ?thesis
  proof (cases "t = JInt \<or> t = JReal")
    case True
    define x where "x = take z' s'"
    have x: "x \<noteq> []" "hd x = CHR ''-'' \<or> isdigit (hd x)" "parse_number (x @ r) k = Some (Node t k (x @ r) (length x) [], r)"
      using assms True unfolding n x_def by (auto simp: num_ok_def)
    have v: "print_value n = x" "node_val n = (if t = JInt then VInt x else VReal x)" using True by (auto simp: n x_def)
    have "hd (x @ r) \<notin> {CHR ''{'', CHR ''['', CHR ''n'', CHR ''t'', CHR ''f'', CHR 0x22}"
      using x(1,2) by (auto simp: isdigit_def ord_def)
    then have "parse_value (x @ r) k s z = Some (Node t k (x @ r) (length x) [], r)"
      unfolding parse_value_def using x(3) by simp
    then show ?thesis using True unfolding v
      by (intro exI [of _ "Node t k (x @ r) (length x) []"] exI [of _ "[]"]) (auto simp: container_def)
  next
    case False
    show ?thesis
    proof (cases t)
      case JStr
      define x where "x = take z' s'"
      have "parse_string (x @ CHR 0x22 # r) = CHR 0x22 # r" using assms(1) JStr by (simp add: n str_ok_def x_def)
      moreover have "print_value n = CHR 0x22 # x @ [CHR 0x22]" "node_val n = VStr x" using JStr by (auto simp: n x_def)
      ultimately show ?thesis
        by (intro exI [of _ "Node JStr k (x @ CHR 0x22 # r) (length x) []"] exI [of _ "[]"])
          (simp add: parse_value_def Let_def container_def)
    next
      case JNull
      then show ?thesis unfolding n
        by (intro exI [of _ "Node JNull k s z []"] exI [of _ "''ull''"]) (auto simp: parse_value_def container_def stop_chars_def)
    next
      case JBool
      then show ?thesis unfolding n
        by (intro exI [of _ "Node JBool k (print_value n @ r) 0 []"] exI [of _ "if peek s' 0 = CHR ''t'' then ''rue'' else ''alse''"])
          (simp add: n parse_value_def container_def stop_chars_def peek_def)
    qed (use False assms in \<open>auto simp: n container_def\<close>)
  qed
qed

lemma key_again:
  assumes "str_ok key" "c \<in> set stop_chars"
  shows "parse_key True (CHR 0x22 # key @ CHR 0x22 # CHR '':'' # c # x) k = Some (key, c # x)"
proof -
  have "parse_string (key @ CHR 0x22 # CHR '':'' # c # x) = CHR 0x22 # CHR '':'' # c # x" using assms(1) by (simp add: str_ok_def)
  moreover have "find_stop (CHR '':'' # c # x) = c # x" using assms(2) by (simp add: find_stop_def) (simp add: stop_chars_def)
  ultimately show ?thesis by (simp add: parse_key_def)
qed

lemma entry_again:
  assumes "node_ok n" "no_empty n"
  shows "\<exists>c i k'. print_node b n @ r = c # i \<and> c \<in> set stop_chars \<and> c \<noteq> CHR ''}'' \<and> c \<noteq> CHR '']'' \<and>
     parse_key b (c # i) k = Some (k', print_value n @ r) \<and> (b \<longrightarrow> k' = nkey n)"
proof -
  obtain c x where v: "print_value n = c # x" "c \<in> set stop_chars" "c \<noteq> CHR ''}''" "c \<noteq> CHR '']''"
    using value_hd [OF assms] by blast
  have k: "str_ok (nkey n)" using assms(1) by (cases n) simp
  show ?thesis
  proof (cases b)
    case True
    then show ?thesis using v key_again [OF k v(2), of "x @ r" k]
      by (intro exI [of _ "CHR 0x22"] exI [of _ "nkey n @ [CHR 0x22, CHR '':''] @ c # x @ r"] exI [of _ "nkey n"])
        (simp add: print_keyed stop_chars_def)
  next
    case False
    then show ?thesis using v by (intro exI [of _ c] exI [of _ "x @ r"] exI [of _ k]) (simp add: parse_key_def)
  qed
qed

lemma foldl_add_child [simp]:
  "ntype (foldl add_child q ms) = ntype q" "nkey (foldl add_child q ms) = nkey q"
  "nchildren (foldl add_child q ms) = nchildren q @ ms"
  by (induction ms arbitrary: q) (simp_all add: add_child_def)

abbreviation same_node :: "bool \<Rightarrow> Node \<Rightarrow> Node \<Rightarrow> bool" where
  "same_node b m n \<equiv> node_val m = node_val n \<and> (b \<longrightarrow> nkey m = nkey n)"

definition reread :: "Node \<Rightarrow> bool" where
  "reread n \<longleftrightarrow> (\<forall>p ps r k s z. container p \<and> r \<noteq> [] \<and> hd r \<in> delims \<longrightarrow>
     (\<exists>m k' s' z'. parse_loop (print_node (ntype p = JObj) n @ r) (p # ps) k s z = parse_loop r (add_child p m # ps) k' s' z' \<and>
        same_node (ntype p = JObj) m n))"

lemma reread_children:
  assumes "list_all reread cs" "container q" "e = CHR ''}'' \<or> e = CHR '']''"
  shows "\<exists>ms k' s' z'. parse_loop (commas (map (print_node (ntype q = JObj)) cs) @ e # r) (q # ps) k s z =
       parse_loop (e # r) (foldl add_child q ms # ps) k' s' z' \<and> list_all2 (same_node (ntype q = JObj)) ms cs"
  using assms(1,2)
proof (induction cs arbitrary: q k s z)
  case Nil
  show ?case by (intro exI [of _ "[]"] exI) simp
next
  case (Cons c cs)
  let ?b = "ntype q = JObj"
  define rest where "rest = (if cs = [] then e # r else CHR '','' # commas (map (print_node ?b) cs) @ e # r)"
  have split: "commas (map (print_node ?b) (c # cs)) @ e # r = print_node ?b c @ rest"
    by (cases cs) (simp_all add: rest_def)
  have "rest \<noteq> []" "hd rest \<in> delims" using assms(3) by (auto simp: rest_def)
  then obtain m k1 s1 z1 where 1: "parse_loop (print_node ?b c @ rest) (q # ps) k s z = parse_loop rest (add_child q m # ps) k1 s1 z1"
      "same_node ?b m c"
    using Cons.prems unfolding reread_def list.pred_inject by blast
  have q': "container (add_child q m)" "ntype (add_child q m) = ntype q" using Cons.prems(2) by (auto simp: container_def add_child_def)
  have 2: "parse_loop rest st k1 s1 z1 = parse_loop (commas (map (print_node ?b) cs) @ e # r) st k1 s1 z1" for st
    using parse_loop_skip [of "'',''" "commas (map (print_node ?b) cs) @ e # r"] by (simp add: rest_def stop_chars_def)
  obtain ms k' s' z' where 3: "parse_loop (commas (map (print_node ?b) cs) @ e # r) (add_child q m # ps) k1 s1 z1 =
       parse_loop (e # r) (foldl add_child (add_child q m) ms # ps) k' s' z'" "list_all2 (same_node ?b) ms cs"
    using Cons.IH [of "add_child q m" k1 s1 z1] Cons.prems(1) q' by auto
  show ?case
    unfolding split 1(1) 2 using 1(2) 3
    by (intro exI [of _ "m # ms"] exI [of _ k'] exI [of _ s'] exI [of _ z']) simp
qed

lemma same_children:
  "list_all2 (same_node b) ms cs \<Longrightarrow> map node_val ms = map node_val cs \<and>
     (b \<longrightarrow> map (\<lambda>c. (nkey c, node_val c)) ms = map (\<lambda>c. (nkey c, node_val c)) cs)"
  by (induction ms cs rule: list_all2_induct) auto

lemma node_val_container:
  "node_val (Node JArray k s z cs) = VArr (map node_val cs)"
  "node_val (Node JObj k s z cs) = VObj (map (\<lambda>c. (nkey c, node_val c)) cs)"
  by simp_all

lemma container_again:
  assumes "n = Node t k0 s0 z0 cs" "t = JObj \<or> t = JArray" "list_all reread cs"
  shows "\<exists>x q m k' s' z'. parse_value (print_value n @ r) k s z = Some (q, x) \<and> container q \<and>
     parse_loop x (q # st) k (nstart q) (nsize q) =
       (case st of [] \<Rightarrow> Some m | p # ps \<Rightarrow> parse_loop r (add_child p m # ps) k' s' z') \<and>
     node_val m = node_val n \<and> nkey m = k"
proof -
  define e where "e = (if t = JObj then CHR ''}'' else CHR '']'')"
  define q where "q = Node t k s z []"
  define x where "x = commas (map (print_node (ntype q = JObj)) cs) @ e # r"
  have v: "parse_value (print_value n @ r) k s z = Some (q, x)"
    using assms(2) by (auto simp: assms(1) parse_value_def q_def x_def e_def)
  have q: "container q" using assms(2) by (simp add: q_def container_def)
  have ee: "e = CHR ''}'' \<or> e = CHR '']''" by (simp add: e_def)
  obtain ms k' s' z' where ms: "parse_loop x (q # st) k (nstart q) (nsize q) =
       parse_loop (e # r) (foldl add_child q ms # st) k' s' z'" "list_all2 (same_node (ntype q = JObj)) ms cs"
    using reread_children [OF assms(3) q ee, of r st k "nstart q" "nsize q"] unfolding x_def [symmetric]
    by (elim exE conjE) (rule that)
  define m where "m = foldl add_child q ms"
  have m: "ntype m = t" "nkey m = k" "nchildren m = ms" "container m" using q by (auto simp: m_def q_def container_def)
  have "parse_loop (e # r) (m # st) k' s' z' = (case st of [] \<Rightarrow> Some m | p # ps \<Rightarrow> parse_loop r (add_child p m # ps) k' s' z')"
    using m assms(2) by (intro parse_loop_close) (auto simp: e_def)
  moreover have "node_val m = node_val n"
    using m assms(2) same_children [OF ms(2)] by (cases m) (auto simp: assms(1) q_def)
  ultimately show ?thesis using v q ms(1) m(2) unfolding m_def [symmetric]
    by (intro exI [of _ x] exI [of _ q] exI [of _ m] exI [of _ k'] exI [of _ s'] exI [of _ z']) (simp only:)
qed

lemma reread: "node_ok n \<Longrightarrow> no_empty n \<Longrightarrow> reread n"
proof (induction n)
  case (Node t k0 s0 z0 cs)
  let ?n = "Node t k0 s0 z0 cs"
  have cs: "list_all reread cs" using Node by (auto simp: list_all_iff)
  show ?case
    unfolding reread_def
  proof (intro allI impI)
    fix p ps r k s z
    assume a: "container p \<and> r \<noteq> [] \<and> hd r \<in> delims"
    let ?b = "ntype p = JObj"
    obtain c i k' where e: "print_node ?b ?n @ r = c # i" "c \<in> set stop_chars" "c \<noteq> CHR ''}''" "c \<noteq> CHR '']''"
        "parse_key ?b (c # i) k = Some (k', print_value ?n @ r)" "?b \<longrightarrow> k' = nkey ?n"
      using entry_again [OF Node.prems, of ?b r k] by blast
    show "\<exists>m k' s' z'. parse_loop (print_node ?b ?n @ r) (p # ps) k s z = parse_loop r (add_child p m # ps) k' s' z' \<and> same_node ?b m ?n"
    proof (cases "container ?n")
      case True
      then have t: "t = JObj \<or> t = JArray" by (simp add: container_def)
      obtain x q m k2 s2 z2 where c: "parse_value (print_value ?n @ r) k' s z = Some (q, x)" "container q"
          "parse_loop x (q # p # ps) k' (nstart q) (nsize q) = parse_loop r (add_child p m # ps) k2 s2 z2"
          "node_val m = node_val ?n" "nkey m = k'"
        using container_again [OF refl t cs, of k0 s0 z0 r k' s z "p # ps"] by auto
      have "parse_loop (c # i) (p # ps) k s z = parse_loop x (q # p # ps) k' (nstart q) (nsize q)"
        using parse_loop_open [of c "p # ps" i k k'] e c(1,2) by simp
      then show ?thesis using c(3-5) e(1,6) by metis
    next
      case False
      obtain m y where v: "parse_value (print_value ?n @ r) k' s z = Some (m, y @ r)" "set y \<inter> set stop_chars = {}"
          "node_val m = node_val ?n" "nkey m = k'" "\<not> container m"
        using value_again [OF Node.prems False, of r k' s z] a by blast
      have "parse_loop (c # i) (p # ps) k s z = parse_loop r (add_child p m # ps) k' (nstart m) (nsize m)"
        using parse_loop_leaf [OF e(2-5) v(1,5)] parse_loop_skip [OF v(2)] by simp
      then show ?thesis using v(3,4) e(1,6) by metis
    qed
  qed
qed


definition sample_text :: string where
  \<open>sample_text = ''{"id": 1, "p": [true, -2.5e1, {"a" : "x"}]} trailing''\<close>

lemma sample_parse:
  "map_option (\<lambda>n. (container n, no_empty n, print_node False n)) (node_parse sample_text) =
     Some (True, True, ''{'' @ [CHR 0x22] @ ''id'' @ [CHR 0x22] @ '':1,'' @ [CHR 0x22] @ ''p'' @ [CHR 0x22] @
       '':[true,-2.5e1,{'' @ [CHR 0x22] @ ''a'' @ [CHR 0x22, CHR '':'', CHR 0x22] @ ''x'' @ [CHR 0x22] @ ''}]}'')"
  by code_simp


end
