(* ===== verification/Ord_Map.thy ===== *)
theory Ord_Map
  imports Pool_Prelude
begin

text \<open>
  \<open>std::map\<close>: an association list kept in increasing order of its keys, which is the order
  the source iterates in. The locale \<open>std_map\<close> is the contract its clients rely on.
\<close>

section \<open>Operations\<close>

type_synonym ('k, 'v) omap = "('k \<times> 'v) list"

definition om_inv :: "('k::linorder, 'v) omap \<Rightarrow> bool" where
  "om_inv m \<longleftrightarrow> sorted_wrt (<) (map fst m)"

definition om_find :: "('k, 'v) omap \<Rightarrow> 'k \<Rightarrow> 'v option" where
  "om_find m k = map_of m k"

text \<open>Assignment through \<open>operator[]\<close>.\<close>

fun om_update :: "'k::linorder \<Rightarrow> 'v \<Rightarrow> ('k, 'v) omap \<Rightarrow> ('k, 'v) omap" where
  "om_update k v [] = [(k, v)]"
| "om_update k v ((a, b) # m) =
     (if k < a then (k, v) # (a, b) # m
      else if k = a then (k, v) # m
      else (a, b) # om_update k v m)"

text \<open>\<open>insert\<close> and \<open>emplace\<close> keep the value of a key that is present.\<close>

definition om_insert :: "'k::linorder \<Rightarrow> 'v \<Rightarrow> ('k, 'v) omap \<Rightarrow> ('k, 'v) omap" where
  "om_insert k v m = (case om_find m k of None \<Rightarrow> om_update k v m | Some _ \<Rightarrow> m)"

definition om_erase :: "'k \<Rightarrow> ('k, 'v) omap \<Rightarrow> ('k, 'v) omap" where
  "om_erase k m = filter (\<lambda>p. fst p \<noteq> k) m"

text \<open>\<open>m[k] += v\<close>, where a missing key starts at zero.\<close>

definition om_add :: "'k::linorder \<Rightarrow> 'v::{zero,plus} \<Rightarrow> ('k, 'v) omap \<Rightarrow> ('k, 'v) omap" where
  "om_add k v m = om_update k ((case om_find m k of None \<Rightarrow> 0 | Some x \<Rightarrow> x) + v) m"

section \<open>Lemmas\<close>

lemma om_inv_Nil [simp]: "om_inv []"
  by (simp add: om_inv_def)

lemma om_inv_Cons: "om_inv ((k, v) # m) \<longleftrightarrow> (\<forall>x\<in>set m. k < fst x) \<and> om_inv m"
  by (auto simp: om_inv_def)

lemma om_keys_update [simp]: "fst ` set (om_update k v m) = insert k (fst ` set m)"
  by (induction k v m rule: om_update.induct) auto

lemma om_inv_update [simp]: "om_inv m \<Longrightarrow> om_inv (om_update k v m)"
proof (induction k v m rule: om_update.induct)
  case (2 k v a b m)
  have "a < fst x" if "x \<in> set (om_update k v m)" "\<not> k < a" "k \<noteq> a" for x
  proof -
    have "fst x \<in> insert k (fst ` set m)" using that(1) om_keys_update [of k v m] by blast
    then show ?thesis using that(2,3) 2(2) by (auto simp: om_inv_Cons)
  qed
  then show ?case using 2 by (fastforce simp: om_inv_Cons)
qed (simp add: om_inv_Cons)

lemma om_inv_erase [simp]: "om_inv m \<Longrightarrow> om_inv (om_erase k m)"
  by (simp add: om_inv_def om_erase_def sorted_wrt_map sorted_wrt_filter)

lemma om_find_Nil [simp]: "om_find [] k = None"
  by (simp add: om_find_def)

lemma om_find_None: "om_find m k = None \<longleftrightarrow> k \<notin> fst ` set m"
  by (simp add: om_find_def map_of_eq_None_iff)

lemma om_find_update [simp]: "om_inv m \<Longrightarrow> om_find (om_update k v m) k' = (if k' = k then Some v else om_find m k')"
proof (induction k v m rule: om_update.induct)
  case (2 k v a b m)
  then show ?case by (auto simp: om_find_def om_inv_Cons)
qed (simp add: om_find_def)

lemma om_find_erase [simp]: "om_find (om_erase k m) k' = (if k' = k then None else om_find m k')"
  by (induction m) (auto simp: om_find_def om_erase_def)

lemma om_keys_erase [simp]: "fst ` set (om_erase k m) = fst ` set m - {k}"
  by (auto simp: om_erase_def)

lemma om_inv_insert [simp]: "om_inv m \<Longrightarrow> om_inv (om_insert k v m)"
  by (simp add: om_insert_def split: option.splits)

lemma om_find_insert [simp]:
  "om_inv m \<Longrightarrow> om_find (om_insert k v m) k' =
     (if k' = k \<and> om_find m k = None then Some v else om_find m k')"
  by (auto simp: om_insert_def split: option.splits)

lemma om_inv_distinct: "om_inv m \<Longrightarrow> distinct (map fst m)"
  by (metis om_inv_def strict_sorted_iff)

lemma om_find_in_set: "om_inv m \<Longrightarrow> om_find m k = Some v \<longleftrightarrow> (k, v) \<in> set m"
  by (simp add: om_find_def om_inv_distinct)

lemma om_inv_drop [simp]: "om_inv m \<Longrightarrow> om_inv (drop n m)"
  by (simp add: om_inv_def sorted_wrt_drop flip: drop_map)

lemma om_inv_filter [simp]: "om_inv m \<Longrightarrow> om_inv (filter P m)"
  by (simp add: om_inv_def sorted_wrt_map sorted_wrt_filter)

lemma om_inv_add [simp]: "om_inv m \<Longrightarrow> om_inv (om_add k v m)"
  by (simp add: om_add_def)

lemma om_sum_update:
  fixes m :: "('k::linorder, 'v::comm_monoid_add) omap"
  shows "om_inv m \<Longrightarrow> sum_list (map snd (om_update k ((case om_find m k of None \<Rightarrow> 0 | Some x \<Rightarrow> x) + v) m))
           = sum_list (map snd m) + v"
proof (induction m)
  case (Cons p m)
  obtain a b where p: "p = (a, b)" by fastforce
  have "k < a \<Longrightarrow> om_find ((a, b) # m) k = None"
    using Cons.prems by (force simp: p om_find_None om_inv_Cons)
  moreover have "k \<noteq> a \<Longrightarrow> om_find ((a, b) # m) k = om_find m k" "om_find ((a, b) # m) a = Some b"
    by (simp_all add: om_find_def)
  ultimately show ?case using Cons by (auto simp: p om_inv_Cons ac_simps)
qed simp

lemma om_sum_add:
  fixes m :: "('k::linorder, 'v::comm_monoid_add) omap"
  shows "om_inv m \<Longrightarrow> sum_list (map snd (om_add k v m)) = sum_list (map snd m) + v"
  by (simp add: om_add_def om_sum_update)

lemma om_find_add [simp]:
  "om_inv m \<Longrightarrow> om_find (om_add k v m) k' =
     (if k' = k then Some ((case om_find m k of None \<Rightarrow> 0 | Some x \<Rightarrow> x) + v) else om_find m k')"
  by (simp add: om_add_def)

section \<open>The contract\<close>

locale std_map =
  fixes empty :: 'm
    and find :: "'m \<Rightarrow> 'k \<Rightarrow> 'v option"
    and update :: "'k \<Rightarrow> 'v \<Rightarrow> 'm \<Rightarrow> 'm"
    and erase :: "'k \<Rightarrow> 'm \<Rightarrow> 'm"
    and inv :: "'m \<Rightarrow> bool"
  assumes inv_empty: "inv empty"
    and find_empty: "find empty k = None"
    and inv_update: "inv m \<Longrightarrow> inv (update k v m)"
    and inv_erase: "inv m \<Longrightarrow> inv (erase k m)"
    and find_update: "inv m \<Longrightarrow> find (update k v m) k' = (if k' = k then Some v else find m k')"
    and find_erase: "inv m \<Longrightarrow> find (erase k m) k' = (if k' = k then None else find m k')"
begin

lemma inv_fold_update: "inv m \<Longrightarrow> inv (fold (\<lambda>(k, v). update k v) kvs m)"
  by (induction kvs arbitrary: m) (auto simp: inv_update)

lemma inv_fold_erase: "inv m \<Longrightarrow> inv (fold erase ks m)"
  by (induction ks arbitrary: m) (auto simp: inv_erase)

lemma find_fold_erase: "inv m \<Longrightarrow> find (fold erase ks m) k = (if k \<in> set ks then None else find m k)"
  by (induction ks arbitrary: m) (auto simp: inv_erase find_erase)

lemma find_fold_update:
  "inv m \<Longrightarrow> k \<notin> fst ` set kvs \<Longrightarrow> find (fold (\<lambda>(k, v). update k v) kvs m) k = find m k"
  by (induction kvs arbitrary: m) (auto simp: inv_update find_update)

lemma find_fold_update_last:
  assumes "inv m" "k \<notin> fst ` set kvs'"
  shows "find (fold (\<lambda>(k, v). update k v) (kvs @ (k, v) # kvs') m) k = Some v"
  using assms find_fold_update [of "update k v (fold (\<lambda>(k, v). update k v) kvs m)" k kvs']
  by (simp add: inv_fold_update inv_update find_update)

end

interpretation om: std_map "[]" om_find om_update om_erase om_inv
  by unfold_locales simp_all

end
