(* ===== verification/Top_Elements.thy ===== *)
theory Top_Elements
  imports Pool_Prelude
begin

text \<open>
  The greatest elements of a finite set, and of an increasing list: what remains when a
  container drops its smallest keys.
\<close>

text \<open>The \<open>n\<close> greatest elements of a set of heights.\<close>

definition topmost :: "nat \<Rightarrow> 'a::linorder set \<Rightarrow> 'a set" where
  "topmost n H = {x \<in> H. card {y \<in> H. x < y} < n}"

lemma set_drop_nth: "set (drop k l) = (\<lambda>i. l ! i) ` {k..<length l}"
proof -
  have "drop k l = drop k (map (\<lambda>i. l ! i) [0..<length l])" by (simp add: map_nth)
  then show ?thesis by (simp add: drop_map)
qed

lemma sorted_greater_nth:
  fixes l :: "'a::linorder list"
  assumes "sorted_wrt (<) l" "i < length l"
  shows "{y \<in> set l. l ! i < y} = set (drop (Suc i) l)"
proof -
  have "l ! i < l ! j \<longleftrightarrow> i < j" if "j < length l" for j
    using sorted_wrt_nth_less [OF assms(1), of i j] sorted_wrt_nth_less [OF assms(1), of j i] assms(2) that
    by (cases i j rule: linorder_cases) auto
  then have "{y \<in> set l. l ! i < y} = (\<lambda>j. l ! j) ` {Suc i..<length l}"
    by (auto simp: in_set_conv_nth Suc_le_eq image_iff)
  then show ?thesis by (simp add: set_drop_nth)
qed

lemma topmost_sorted:
  assumes "sorted_wrt (<) l"
  shows "topmost n (set l) = set (drop (length l - n) l)"
proof -
  have d: "distinct l" using assms by (metis strict_sorted_iff)
  have c: "card {y \<in> set l. l ! i < y} = length l - Suc i" if "i < length l" for i
    using sorted_greater_nth [OF assms that] d by (simp add: distinct_card)
  have "x \<in> topmost n (set l) \<longleftrightarrow> (\<exists>i<length l. x = l ! i \<and> length l - Suc i < n)" for x
  proof (cases "x \<in> set l")
    case True
    then obtain i where i: "i < length l" "x = l ! i" by (auto simp: in_set_conv_nth)
    have "x \<in> topmost n (set l) \<longleftrightarrow> length l - Suc i < n" using True c [OF i(1)] i by (simp add: topmost_def)
    moreover have "(\<exists>j<length l. x = l ! j \<and> length l - Suc j < n) \<longleftrightarrow> length l - Suc i < n"
      using i d by (auto simp: nth_eq_iff_index_eq)
    ultimately show ?thesis by simp
  qed (auto simp: topmost_def)
  then have "topmost n (set l) = (\<lambda>i. l ! i) ` {i. i < length l \<and> length l - Suc i < n}" by auto
  also have "{i. i < length l \<and> length l - Suc i < n} = {length l - n..<length l}" by auto
  finally show ?thesis by (simp add: set_drop_nth)
qed

lemma card_topmost:
  assumes "finite H"
  shows "card (topmost n H) = min n (card H)"
proof -
  have s: "sorted_wrt (<) (sorted_list_of_set H)" "set (sorted_list_of_set H) = H"
    using assms by simp_all
  have "card (topmost n H) = length (drop (length (sorted_list_of_set H) - n) (sorted_list_of_set H))"
    using topmost_sorted [OF s(1), of n] s(2) by (metis distinct_card distinct_drop distinct_sorted_list_of_set)
  then show ?thesis using assms by (simp add: min_def)
qed

lemma topmost_subset: "topmost n H \<subseteq> H"
  by (auto simp: topmost_def)

lemma topmost_upward: "finite H \<Longrightarrow> x \<in> topmost n H \<Longrightarrow> y \<in> H \<Longrightarrow> x < y \<Longrightarrow> y \<in> topmost n H"
proof -
  assume a: "finite H" "x \<in> topmost n H" "y \<in> H" "x < y"
  have "card {z \<in> H. y < z} \<le> card {z \<in> H. x < z}" using a by (intro card_mono) auto
  then show ?thesis using a by (simp add: topmost_def)
qed

text \<open>Keeping only the top of what was seen loses nothing of the top of what will be seen.\<close>

lemma mem_topmost: "x \<in> topmost n H \<longleftrightarrow> x \<in> H \<and> card {y \<in> H. x < y} < n"
  by (simp add: topmost_def)

lemma topmost_insert_topmost:
  assumes "finite H"
  shows "topmost n (insert h (topmost n H)) = topmost n (insert h H)"
proof (cases "topmost n H = H")
  case False
  define T where "T = topmost n H"
  have sub: "T \<subseteq> H" unfolding T_def by (rule topmost_subset)
  have fin: "finite T" using assms sub by (rule rev_finite_subset)
  have "card T \<noteq> card H" using False assms sub card_subset_eq unfolding T_def by blast
  then have full: "card T = n" using card_topmost [OF assms, of n] by (simp add: T_def min_def split: if_splits)
  have out: "T \<subseteq> {z. y < z}" if "y \<in> H" "y \<notin> T" for y
  proof
    fix z assume z: "z \<in> T"
    then have "z \<noteq> y" "\<not> z < y" using that topmost_upward [OF assms, of z n y] by (auto simp: T_def)
    then show "z \<in> {z. y < z}" by auto
  qed
  have big: "n \<le> card {y \<in> insert h A. x < y}" if "T \<subseteq> A" "finite A" "T \<subseteq> {z. x < z}" for x A
    using card_mono [of "{y \<in> insert h A. x < y}" T] that full by auto
  have cnt: "card {y \<in> insert h T. x < y} < n \<longleftrightarrow> card {y \<in> insert h H. x < y} < n" for x
  proof (cases "\<exists>y\<in>H - T. x < y")
    case True
    then have "T \<subseteq> {z. x < z}" using out by fastforce
    then show ?thesis using big [of T x] big [of H x] sub fin assms by (simp add: not_less [symmetric])
  next
    case False
    then have "{y \<in> insert h T. x < y} = {y \<in> insert h H. x < y}" using sub by auto
    then show ?thesis by simp
  qed
  have keep: "x \<in> insert h T" if "x \<in> insert h H" "card {y \<in> insert h H. x < y} < n" for x
    using that out [of x] big [of H x] sub assms by (cases "x \<in> insert h T") auto
  have "x \<in> topmost n (insert h T) \<longleftrightarrow> x \<in> topmost n (insert h H)" for x
    using cnt [of x] keep [of x] sub unfolding mem_topmost by blast
  then show ?thesis unfolding T_def by blast
qed simp

end
