(* ===== verification/Share_Stats.thy ===== *)
theory Share_Stats
  imports Ord_Map Pool_Utils Float64 Top_Elements
begin

text \<open>
  The share statistics of \<open>src/Statistics.h\<close> and \<open>src/Statistics.inl\<close>: the classes of share
  status of \<open>src/Stratum.h\<close>, the hourly and daily totals of a worker
  (\<open>ShareStatsDay\<close> and its normalised variant) and the detection of duplicate shares
  (\<open>DuplicateShareCheckerT\<close>).
\<close>

section \<open>Share status\<close>

definition ACCEPT :: int where "ACCEPT = 1798084231"
definition ACCEPT_STALE :: int where "ACCEPT_STALE = 950395421"
definition SOLVED :: int where "SOLVED = 1422486894"
definition SOLVED_STALE :: int where "SOLVED_STALE = 1713984938"
definition SOLVED_PRELIMINARY :: int where "SOLVED_PRELIMINARY = 1835617709"
definition REJECT_NO_REASON :: int where "REJECT_NO_REASON = 0"
definition JOB_NOT_FOUND_OR_STALE :: int where "JOB_NOT_FOUND_OR_STALE = 21"
definition DUPLICATE_SHARE :: int where "DUPLICATE_SHARE = 22"
definition LOW_DIFFICULTY :: int where "LOW_DIFFICULTY = 23"
definition UNAUTHORIZED :: int where "UNAUTHORIZED = 24"
definition NOT_SUBSCRIBED :: int where "NOT_SUBSCRIBED = 25"
definition ILLEGAL_METHOD :: int where "ILLEGAL_METHOD = 26"
definition ILLEGAL_PARARMS :: int where "ILLEGAL_PARARMS = 27"
definition IP_BANNED :: int where "IP_BANNED = 28"
definition INVALID_USERNAME :: int where "INVALID_USERNAME = 29"
definition INTERNAL_ERROR :: int where "INTERNAL_ERROR = 30"
definition TIME_TOO_OLD :: int where "TIME_TOO_OLD = 31"
definition TIME_TOO_NEW :: int where "TIME_TOO_NEW = 32"
definition ILLEGAL_VERMASK :: int where "ILLEGAL_VERMASK = 33"
definition INVALID_SOLUTION :: int where "INVALID_SOLUTION = 34"
definition WRONG_NONCE_PREFIX :: int where "WRONG_NONCE_PREFIX = 35"
definition JOB_NOT_FOUND :: int where "JOB_NOT_FOUND = 36"
definition STALE_SHARE :: int where "STALE_SHARE = 37"
definition UNKNOWN_STATUS :: int where "UNKNOWN_STATUS = 2147483647"

lemmas status_defs = ACCEPT_def ACCEPT_STALE_def SOLVED_def SOLVED_STALE_def SOLVED_PRELIMINARY_def
  REJECT_NO_REASON_def JOB_NOT_FOUND_OR_STALE_def DUPLICATE_SHARE_def LOW_DIFFICULTY_def UNAUTHORIZED_def
  NOT_SUBSCRIBED_def ILLEGAL_METHOD_def ILLEGAL_PARARMS_def IP_BANNED_def INVALID_USERNAME_def
  INTERNAL_ERROR_def TIME_TOO_OLD_def TIME_TOO_NEW_def ILLEGAL_VERMASK_def INVALID_SOLUTION_def
  WRONG_NONCE_PREFIX_def JOB_NOT_FOUND_def STALE_SHARE_def UNKNOWN_STATUS_def

definition isAccepted :: "int \<Rightarrow> bool" where
  "isAccepted s \<longleftrightarrow> s = ACCEPT \<or> s = ACCEPT_STALE \<or> s = SOLVED \<or> s = SOLVED_STALE"

definition isAcceptedStale :: "int \<Rightarrow> bool" where
  "isAcceptedStale s \<longleftrightarrow> s = ACCEPT_STALE \<or> s = SOLVED_STALE"

definition isRejectedStale :: "int \<Rightarrow> bool" where
  "isRejectedStale s \<longleftrightarrow> s = JOB_NOT_FOUND_OR_STALE \<or> s = STALE_SHARE"

definition isAnyStale :: "int \<Rightarrow> bool" where
  "isAnyStale s \<longleftrightarrow> isAcceptedStale s \<or> isRejectedStale s"

definition isSolved :: "int \<Rightarrow> bool" where
  "isSolved s \<longleftrightarrow> s = SOLVED \<or> s = SOLVED_STALE \<or> s = SOLVED_PRELIMINARY"

text \<open>\<open>StratumStatus::toString\<close>.\<close>

definition status_toString :: "int \<Rightarrow> string" where
  "status_toString err = (case map_of
     [(ACCEPT, ''Share accepted''), (ACCEPT_STALE, ''Share accepted (stale)''),
      (SOLVED, ''Share accepted and solved''), (SOLVED_STALE, ''Share accepted and solved (stale)''),
      (REJECT_NO_REASON, ''Share rejected''), (JOB_NOT_FOUND_OR_STALE, ''Job not found (=stale)''),
      (DUPLICATE_SHARE, ''Duplicate share''), (LOW_DIFFICULTY, ''Low difficulty''),
      (UNAUTHORIZED, ''Unauthorized worker''), (NOT_SUBSCRIBED, ''Not subscribed''),
      (ILLEGAL_METHOD, ''Illegal method''), (ILLEGAL_PARARMS, ''Illegal params''),
      (IP_BANNED, ''Ip banned''), (INVALID_USERNAME, ''Invalid username''),
      (INTERNAL_ERROR, ''Internal error''), (TIME_TOO_OLD, ''Time too old''),
      (TIME_TOO_NEW, ''Time too new''), (ILLEGAL_VERMASK, ''Invalid version mask''),
      (INVALID_SOLUTION, ''Invalid Solution''), (WRONG_NONCE_PREFIX, ''Wrong Nonce Prefix''),
      (JOB_NOT_FOUND, ''Job not found''), (STALE_SHARE, ''Stale share'')] err of
       Some s \<Rightarrow> s | None \<Rightarrow> ''Unknown'')"

section \<open>Daily totals\<close>

text \<open>The part of a share that the statistics read; the score and the reward are doubles.\<close>

record share_msg =
  sh_status :: int
  sh_sharediff :: u64
  sh_score :: f64
  sh_height :: u64

type_synonym rejects = "(int, u64) omap"

record share_stats_day =
  shareAccept1h :: "u64 list"
  shareStale1h :: "u64 list"
  shareRejects1h :: "rejects list"
  score1h :: "f64 list"
  earn1h :: "f64 list"
  shareAccept1d :: u64
  shareStale1d :: u64
  shareRejects1d :: rejects
  score1d :: f64
  earn1d :: f64
  modifyHoursFlag :: u32
  normalized :: bool
  lastAcceptDiff :: u64

definition ssd_new :: "bool \<Rightarrow> share_stats_day" where
  "ssd_new nm = \<lparr>shareAccept1h = replicate 24 0, shareStale1h = replicate 24 0,
     shareRejects1h = replicate 24 [], score1h = replicate 24 0, earn1h = replicate 24 0,
     shareAccept1d = 0, shareStale1d = 0, shareRejects1d = [], score1d = 0, earn1d = 0,
     modifyHoursFlag = 0, normalized = nm, lastAcceptDiff = 1\<rparr>"

definition updateAcceptDiff :: "u64 \<Rightarrow> share_stats_day \<Rightarrow> share_stats_day" where
  "updateAcceptDiff diff d = (if normalized d \<and> diff > 0 then d\<lparr>lastAcceptDiff := diff\<rparr> else d)"

definition updateRejectDiff :: "share_stats_day \<Rightarrow> share_msg \<Rightarrow> share_msg" where
  "updateRejectDiff d share =
     (if normalized d \<and> sh_sharediff share > lastAcceptDiff d * 4
      then share\<lparr>sh_sharediff := lastAcceptDiff d * 4\<rparr> else share)"

definition ssd_accept :: "nat \<Rightarrow> share_msg \<Rightarrow> f64 \<Rightarrow> share_stats_day \<Rightarrow> share_stats_day" where
  "ssd_accept hourIdx share reward d =
     (let d1 = updateAcceptDiff (sh_sharediff share)
                 (d\<lparr>shareAccept1h := add_at (shareAccept1h d) hourIdx (sh_sharediff share),
                    shareAccept1d := shareAccept1d d + sh_sharediff share\<rparr>);
          score = sh_score share; earn = score * reward
      in d1\<lparr>score1h := add_at (score1h d1) hourIdx score, score1d := score1d d1 + score,
            earn1h := add_at (earn1h d1) hourIdx earn, earn1d := earn1d d1 + earn\<rparr>)"

definition ssd_stale :: "nat \<Rightarrow> share_msg \<Rightarrow> share_stats_day \<Rightarrow> share_stats_day" where
  "ssd_stale hourIdx share d = (let diff = sh_sharediff (updateRejectDiff d share)
     in d\<lparr>shareStale1h := add_at (shareStale1h d) hourIdx diff, shareStale1d := shareStale1d d + diff\<rparr>)"

definition ssd_reject :: "nat \<Rightarrow> share_msg \<Rightarrow> share_stats_day \<Rightarrow> share_stats_day" where
  "ssd_reject hourIdx share d = (let diff = sh_sharediff (updateRejectDiff d share)
     in d\<lparr>shareRejects1h := (shareRejects1h d)[hourIdx := om_add (sh_status share) diff (shareRejects1h d ! hourIdx)],
          shareRejects1d := om_add (sh_status share) diff (shareRejects1d d)\<rparr>)"

text \<open>
  \<open>processShare\<close>. The index comes from the caller; one beyond the arrays is out of range.
  The reward of the share is a parameter, as the template leaves it to each chain.
\<close>

definition processShare :: "(share_msg \<Rightarrow> f64) \<Rightarrow> u32 \<Rightarrow> share_msg \<Rightarrow> bool \<Rightarrow> share_stats_day \<Rightarrow> share_stats_day option" where
  "processShare getShareReward hourIdx share acceptStale d =
     (if unat hourIdx \<ge> 24 then None
      else let h = unat hourIdx;
        d1 = (if isAccepted (sh_status share) \<and> (acceptStale \<or> \<not> isAcceptedStale (sh_status share))
              then ssd_accept h share (getShareReward share) d
              else if isAnyStale (sh_status share) then ssd_stale h share d
              else ssd_reject h share d)
      in Some (d1\<lparr>modifyHoursFlag := modifyHoursFlag d1 OR push_bit h 1\<rparr>))"

section \<open>Reports\<close>

definition sumRejectShares :: "rejects \<Rightarrow> u64" where
  "sumRejectShares m = foldl (\<lambda>s p. s + snd p) 0 m"

definition generateRejectDetail :: "rejects \<Rightarrow> string" where
  "generateRejectDetail m =
     (let r = foldl (\<lambda>s p. s @ ''\"'' @ to_string (nat (fst p)) @ ''\":'' @ to_string (unat (snd p)) @ '','') ''{'' m;
          r1 = (if length r > 1 then take (length r - 1) r else r)
      in r1 @ ''}'')"

record share_stats =
  st_accept :: u64
  st_stale :: u64
  st_reject :: u64
  st_rejectDetail :: string
  st_rejectRate :: f64
  st_earn :: f64

definition fill_stats :: "u64 \<Rightarrow> u64 \<Rightarrow> rejects \<Rightarrow> f64 \<Rightarrow> share_stats" where
  "fill_stats acc stale rej earn = (let rs = sumRejectShares rej in
     \<lparr>st_accept = acc, st_stale = stale, st_reject = rs, st_rejectDetail = generateRejectDetail rej,
      st_rejectRate = (if rs \<noteq> 0 then f64_of_int (uint rs) * 1 div f64_of_int (uint (acc + rs)) else 0),
      st_earn = earn\<rparr>)"

definition getShareStatsHour :: "u32 \<Rightarrow> share_stats \<Rightarrow> share_stats_day \<Rightarrow> share_stats" where
  "getShareStatsHour hourIdx stats d = (if hourIdx > 23 then stats
     else let h = unat hourIdx in
       fill_stats (shareAccept1h d ! h) (shareStale1h d ! h) (shareRejects1h d ! h) (earn1h d ! h))"

definition getShareStatsDay :: "share_stats_day \<Rightarrow> share_stats" where
  "getShareStatsDay d = fill_stats (shareAccept1d d) (shareStale1d d) (shareRejects1d d) (earn1d d)"

section \<open>Duplicate shares\<close>

record 'g dup_checker =
  gshareSetMap :: "(nat, 'g set) omap"
  trackingHeightNumber :: nat

definition dsc_new :: "nat \<Rightarrow> 'g dup_checker option" where
  "dsc_new n = (if n = 0 then None else Some \<lparr>gshareSetMap = [], trackingHeightNumber = n\<rparr>)"

definition clearExcessGShareSet :: "'g dup_checker \<Rightarrow> 'g dup_checker" where
  "clearExcessGShareSet c =
     c\<lparr>gshareSetMap := drop (length (gshareSetMap c) - trackingHeightNumber c) (gshareSetMap c)\<rparr>"

definition addGShare :: "nat \<Rightarrow> 'g \<Rightarrow> 'g dup_checker \<Rightarrow> bool \<times> 'g dup_checker" where
  "addGShare height gshare c =
     (let m = (case om_find (gshareSetMap c) height of
                 None \<Rightarrow> om_update height {} (gshareSetMap c) | Some _ \<Rightarrow> gshareSetMap c);
          gset = (case om_find m height of None \<Rightarrow> {} | Some s \<Rightarrow> s)
      in if gshare \<in> gset then (False, c\<lparr>gshareSetMap := m\<rparr>)
         else let c1 = c\<lparr>gshareSetMap := om_update height (insert gshare gset) m\<rparr>
           in (True, if length (gshareSetMap c1) > trackingHeightNumber c1 then clearExcessGShareSet c1 else c1))"

section \<open>The hours add up to the day\<close>

definition om_val :: "('k, 'v::zero) omap \<Rightarrow> 'k \<Rightarrow> 'v" where
  "om_val m k = (case om_find m k of None \<Rightarrow> 0 | Some v \<Rightarrow> v)"

definition ssd_inv :: "share_stats_day \<Rightarrow> bool" where
  "ssd_inv d \<longleftrightarrow> length (shareAccept1h d) = 24 \<and> length (shareStale1h d) = 24 \<and> length (shareRejects1h d) = 24 \<and>
     length (score1h d) = 24 \<and> length (earn1h d) = 24 \<and>
     (\<forall>m\<in>set (shareRejects1h d). om_inv m) \<and> om_inv (shareRejects1d d) \<and>
     sum_list (shareAccept1h d) = shareAccept1d d \<and> sum_list (shareStale1h d) = shareStale1d d \<and>
     (\<forall>r. sum_list (map (\<lambda>m. om_val m r) (shareRejects1h d)) = om_val (shareRejects1d d) r)"

text \<open>Everything a day has counted, modulo \<open>2^64\<close>.\<close>

definition ssd_total :: "share_stats_day \<Rightarrow> u64" where
  "ssd_total d = shareAccept1d d + shareStale1d d + sumRejectShares (shareRejects1d d)"

lemma sumRejectShares_eq: "sumRejectShares m = sum_list (map snd m)"
proof -
  have "foldl (\<lambda>s p. s + snd p) a m = a + sum_list (map snd m)" for a
    by (induction m arbitrary: a) (simp_all add: ac_simps)
  then show ?thesis by (simp add: sumRejectShares_def)
qed

lemma om_val_add: "om_inv m \<Longrightarrow> om_val (om_add k v m) r = (om_val m r + (if r = k then v else 0) :: 'v::comm_monoid_add)"
  by (simp add: om_val_def split: option.splits)

lemma ssd_inv_new: "ssd_inv (ssd_new n)" "ssd_total (ssd_new n) = 0"
  by (simp_all add: ssd_inv_def ssd_new_def ssd_total_def om_val_def sumRejectShares_def sum_list_replicate)

lemma ssd_inv_accept:
  "ssd_inv d \<Longrightarrow> h < 24 \<Longrightarrow> ssd_inv (ssd_accept h s r d)"
  by (auto simp: ssd_inv_def ssd_accept_def Let_def updateAcceptDiff_def sum_list_add_at)

lemma ssd_inv_stale:
  "ssd_inv d \<Longrightarrow> h < 24 \<Longrightarrow> ssd_inv (ssd_stale h s d)"
  by (auto simp: ssd_inv_def ssd_stale_def Let_def sum_list_add_at)

lemma ssd_inv_reject:
  assumes "ssd_inv d" "h < 24"
  shows "ssd_inv (ssd_reject h s d)"
proof -
  let ?v = "sh_sharediff (updateRejectDiff d s)" and ?m = "shareRejects1h d ! h"
  have i: "om_inv ?m" "om_inv (shareRejects1d d)" "h < length (shareRejects1h d)"
    using assms by (auto simp: ssd_inv_def)
  have "sum_list (map (\<lambda>m. om_val m r) ((shareRejects1h d)[h := om_add (sh_status s) ?v ?m])) =
      om_val (om_add (sh_status s) ?v (shareRejects1d d)) r" for r
    using sum_list_update_add [OF i(3), of "\<lambda>m. om_val m r" "om_add (sh_status s) ?v ?m" "if r = sh_status s then ?v else 0"]
      i assms(1) by (auto simp: om_val_add ssd_inv_def)
  then show ?thesis using assms i
    by (auto simp: ssd_inv_def ssd_reject_def Let_def dest!: subsetD [OF set_update_subset_insert])
qed

type_synonym ssd_event = "u32 \<times> share_msg \<times> bool"

fun ssd_step :: "(share_msg \<Rightarrow> f64) \<Rightarrow> share_stats_day \<Rightarrow> ssd_event \<Rightarrow> share_stats_day option" where
  "ssd_step reward d (hourIdx, share, acceptStale) = processShare reward hourIdx share acceptStale d"

fun ssd_ok :: "ssd_event \<Rightarrow> bool" where
  "ssd_ok (hourIdx, share, acceptStale) \<longleftrightarrow> unat hourIdx < 24"

lemma ssd_inv_flag [simp]: "ssd_inv (d\<lparr>modifyHoursFlag := f\<rparr>) = ssd_inv d" "ssd_total (d\<lparr>modifyHoursFlag := f\<rparr>) = ssd_total d"
  by (simp_all add: ssd_inv_def ssd_total_def)

lemma ssd_step_ok: "ssd_inv d \<Longrightarrow> ssd_ok e \<Longrightarrow> \<exists>d'. ssd_step reward d e = Some d' \<and> ssd_inv d'"
  by (cases e) (auto simp: processShare_def Let_def ssd_inv_accept ssd_inv_stale ssd_inv_reject)

lemma ssd_step_plain:
  assumes "ssd_inv d" "\<not> normalized d" "ssd_step reward d e = Some d'"
  shows "ssd_total d' = ssd_total d + sh_sharediff (fst (snd e)) \<and> \<not> normalized d'"
proof -
  obtain h s a where e: "e = (h, s, a)" by (cases e) auto
  have "om_inv (shareRejects1d d)" using assms(1) by (simp add: ssd_inv_def)
  then show ?thesis using assms(2,3) unfolding e
    by (auto simp: processShare_def Let_def ssd_accept_def ssd_stale_def ssd_reject_def updateAcceptDiff_def
        updateRejectDiff_def ssd_total_def sumRejectShares_eq om_sum_add split: if_splits)
qed

interpretation ssd: counting_handler "ssd_step reward" "\<lambda>d. ssd_inv d \<and> \<not> normalized d" ssd_ok
    ssd_total "\<lambda>e. sh_sharediff (fst (snd e))" for reward
  by unfold_locales (use ssd_step_ok ssd_step_plain in blast)+

interpretation ssdn: event_handler "ssd_step reward" ssd_inv ssd_ok for reward
  by unfold_locales (rule ssd_step_ok)



section \<open>Which duplicates are found\<close>

text \<open>
  What the checker knows after the shares \<open>xs\<close>: for each of the greatest heights, as many as it
  tracks, all shares of that height.
\<close>

definition heights :: "(nat \<times> 'g) list \<Rightarrow> nat set" where
  "heights xs = fst ` set xs"

definition dsc_repr :: "'g dup_checker \<Rightarrow> (nat \<times> 'g) list \<Rightarrow> bool" where
  "dsc_repr c xs \<longleftrightarrow> om_inv (gshareSetMap c) \<and>
     (\<forall>h. om_find (gshareSetMap c) h =
        (if h \<in> topmost (trackingHeightNumber c) (heights xs) then Some {g. (h, g) \<in> set xs} else None))"

lemma dsc_repr_keys: "dsc_repr c xs \<Longrightarrow> fst ` set (gshareSetMap c) = topmost (trackingHeightNumber c) (heights xs)"
  unfolding dsc_repr_def using om_find_None [of "gshareSetMap c"]
  by (metis (no_types, lifting) option.distinct(1) subsetI subset_antisym)

lemma om_find_drop:
  assumes "om_inv m"
  shows "om_find (drop n m) k = (if k \<in> fst ` set (drop n m) then om_find m k else None)"
proof (cases "om_find (drop n m) k")
  case None
  then show ?thesis using om_find_None [of "drop n m" k] by simp
next
  case (Some v)
  then have v: "(k, v) \<in> set (drop n m)" using om_find_in_set assms om_inv_drop by metis
  then have "om_find m k = Some v" using om_find_in_set [OF assms] by (simp add: in_set_dropD)
  then show ?thesis using Some v by force
qed

lemma om_keys_drop:
  "om_inv m \<Longrightarrow> fst ` set (drop (length m - n) m) = topmost n (fst ` set m)"
  using topmost_sorted [of "map fst m" n] by (simp add: om_inv_def drop_map)

lemma om_length: "om_inv m \<Longrightarrow> length m = card (fst ` set m)"
  using om_inv_distinct [of m] by (metis distinct_card length_map list.set_map)

lemma heights_snoc [simp]: "heights (xs @ [(h, g)]) = insert h (heights xs)"
  by (simp add: heights_def)

lemma finite_heights [simp]: "finite (heights xs)"
  by (simp add: heights_def)

lemma addGShare_known:
  assumes r: "dsc_repr c xs" and h: "h \<in> topmost (trackingHeightNumber c) (heights xs)"
  shows "\<exists>c'. addGShare h g c = ((h, g) \<notin> set xs, c') \<and> dsc_repr c' (xs @ [(h, g)]) \<and>
           trackingHeightNumber c' = trackingHeightNumber c"
proof -
  let ?m = "gshareSetMap c" and ?S = "{g. (h, g) \<in> set xs}"
  have inv: "om_inv ?m" and f: "om_find ?m h = Some ?S" using r h by (auto simp: dsc_repr_def)
  have H: "insert h (heights xs) = heights xs" using h topmost_subset [of _ "heights xs"] by blast
  let ?m2 = "om_update h (insert g ?S) ?m"
  have "length ?m2 = card (topmost (trackingHeightNumber c) (heights xs))"
    using om_length [of ?m2] inv dsc_repr_keys [OF r] h by (simp add: insert_absorb)
  then have len: "length ?m2 \<le> trackingHeightNumber c" by (simp add: card_topmost)
  have "dsc_repr c (xs @ [(h, g)])" if "g \<in> ?S"
  proof -
    have "set (xs @ [(h, g)]) = set xs" using that by auto
    then show ?thesis using r H by (simp add: dsc_repr_def del: set_append)
  qed
  moreover have "dsc_repr (c\<lparr>gshareSetMap := ?m2\<rparr>) (xs @ [(h, g)])"
    using r inv h H by (auto simp: dsc_repr_def)
  ultimately show ?thesis using f len by (auto simp: addGShare_def Let_def)
qed

lemma addGShare_unknown:
  assumes r: "dsc_repr c xs" and h: "h \<notin> topmost (trackingHeightNumber c) (heights xs)"
  shows "\<exists>c'. addGShare h g c = (True, c') \<and> dsc_repr c' (xs @ [(h, g)]) \<and>
           trackingHeightNumber c' = trackingHeightNumber c"
proof -
  let ?m = "gshareSetMap c" and ?N = "trackingHeightNumber c" and ?T = "topmost (trackingHeightNumber c) (heights xs)"
  let ?m2 = "om_update h {g} (om_update h {} ?m)"
  let ?c = "c\<lparr>gshareSetMap := drop (length ?m2 - ?N) ?m2\<rparr>"
  have inv: "om_inv ?m" and f: "om_find ?m h = None" using r h by (auto simp: dsc_repr_def)
  then have inv2: "om_inv ?m2" by simp
  have keys: "fst ` set (drop (length ?m2 - ?N) ?m2) = topmost ?N (insert h (heights xs))"
    using om_keys_drop [OF inv2] dsc_repr_keys [OF r] topmost_insert_topmost [of "heights xs" ?N h] by simp
  have new: "h \<notin> heights xs" if "h \<in> topmost ?N (insert h (heights xs))"
    using that h by (metis insert_absorb)
  have old: "k \<in> ?T" if "k \<in> topmost ?N (insert h (heights xs))" "k \<noteq> h" for k
    using that topmost_subset [of ?N "insert h ?T"] topmost_insert_topmost [of "heights xs" ?N h] by auto
  have "om_find (gshareSetMap ?c) k =
      (if k \<in> topmost ?N (insert h (heights xs)) then Some {x. (k, x) \<in> set (xs @ [(h, g)])} else None)" for k
  proof (cases "k \<in> topmost ?N (insert h (heights xs))")
    case True
    then have "om_find (gshareSetMap ?c) k = om_find ?m2 k" using om_find_drop [OF inv2] keys by simp
    also have "\<dots> = Some {x. (k, x) \<in> set (xs @ [(h, g)])}"
    proof (cases "k = h")
      case True
      have "{x. (h, x) \<in> set xs} = {}" using new \<open>k \<in> _\<close> True by (force simp: heights_def)
      then show ?thesis using True inv by auto
    next
      case False
      then show ?thesis using old [OF \<open>k \<in> _\<close>] inv r by (auto simp: dsc_repr_def)
    qed
    finally show ?thesis using True by simp
  qed (use om_find_drop [OF inv2] keys in simp)
  then have "dsc_repr ?c (xs @ [(h, g)])" using om_inv_drop [OF inv2] by (simp add: dsc_repr_def del: om_find_update)
  moreover have "addGShare h g c = (True, ?c)"
    using f inv by (auto simp: addGShare_def Let_def clearExcessGShareSet_def)
  ultimately show ?thesis by auto
qed

fun dsc_run :: "'g dup_checker \<Rightarrow> (nat \<times> 'g) list \<Rightarrow> 'g dup_checker" where
  "dsc_run c [] = c"
| "dsc_run c ((h, g) # xs) = dsc_run (snd (addGShare h g c)) xs"

lemma dsc_run_repr:
  "dsc_repr c ys \<Longrightarrow> dsc_repr (dsc_run c xs) (ys @ xs) \<and> trackingHeightNumber (dsc_run c xs) = trackingHeightNumber c"
proof (induction xs arbitrary: c ys)
  case (Cons x xs)
  obtain h g where x: "x = (h, g)" by fastforce
  have "dsc_repr (snd (addGShare h g c)) (ys @ [(h, g)]) \<and>
      trackingHeightNumber (snd (addGShare h g c)) = trackingHeightNumber c"
    using addGShare_known [OF Cons.prems, of h g] addGShare_unknown [OF Cons.prems, of h g] by fastforce
  then show ?case using Cons.IH x by fastforce
qed simp

text \<open>
  C11. A share is refused as a duplicate exactly when the same share was submitted before and
  fewer heights above its own have been seen than the checker tracks. So within the tracked
  heights no duplicate passes and no new share is refused; below them every share passes.
\<close>

theorem dsc_refuses_iff_duplicate:
  assumes "dsc_new n = Some c"
  shows "fst (addGShare h g (dsc_run c xs)) \<longleftrightarrow>
     \<not> ((h, g) \<in> set xs \<and> card {h' \<in> fst ` set xs. h < h'} < n)"
proof -
  have "dsc_repr c []" "trackingHeightNumber c = n"
    using assms by (auto simp: dsc_new_def dsc_repr_def heights_def topmost_def split: if_splits)
  then have r: "dsc_repr (dsc_run c xs) xs" "trackingHeightNumber (dsc_run c xs) = n"
    using dsc_run_repr [of c "[]" xs] by auto
  have "(h, g) \<in> set xs \<Longrightarrow> h \<in> heights xs" by (force simp: heights_def)
  then show ?thesis
    using addGShare_known [OF r(1), of h g] addGShare_unknown [OF r(1), of h g] r(2)
    by (cases "h \<in> topmost n (heights xs)") (auto simp: mem_topmost heights_def)
qed

theorem dsc_refuses_iff_duplicate_witness:
  "\<not> fst (addGShare 100 ''s'' (dsc_run \<lparr>gshareSetMap = [], trackingHeightNumber = 2\<rparr> [(100, ''s''), (101, ''t'')]))"
proof -
  have "dsc_new 2 = Some \<lparr>gshareSetMap = [] :: (nat, string set) omap, trackingHeightNumber = 2\<rparr>" by (simp add: dsc_new_def)
  moreover have "{h' \<in> fst ` set [(100, ''s''), (101, ''t'')]. (100::nat) < h'} = {101}" by auto
  ultimately show ?thesis using dsc_refuses_iff_duplicate [of 2 _ 100 "''s''" "[(100, ''s''), (101, ''t'')]"] by simp
qed

end
