(* ===== verification/Stratum_Worker.thy ===== *)
theory Stratum_Worker
  imports Difficulty Json_Node Share_Stats
begin

text \<open>
  \<open>StratumWorker\<close> of \<open>Stratum.{h,cc}\<close>: the names of a worker as the miner sends them, filtered, cut and
  completed, the 64-bit id made from the worker name, and the user id per chain. The hash
  \<open>Hash\<close> of libbitcoin is a parameter from a text to its 32 bytes, the normaliser of user names
  one from a name to a name. \<open>LocalJob\<close> and its set of submitted shares stand here as well.
\<close>

section \<open>Names\<close>

definition worker_char :: "char \<Rightarrow> bool" where
  "worker_char c \<longleftrightarrow> (97 \<le> ord c \<and> ord c \<le> 122) \<or> (65 \<le> ord c \<and> ord c \<le> 90) \<or> (48 \<le> ord c \<and> ord c \<le> 57) \<or>
     c \<in> set ''-._:|^/''"

definition filterWorkerName :: "string \<Rightarrow> string" where
  "filterWorkerName workerName = filter worker_char workerName"

definition DEFAULT_WORKER_NAME :: string where
  "DEFAULT_WORKER_NAME = ''__default__''"

text \<open>\<open>find(".")\<close>: the part before the first dot, and the part after it if there is one.\<close>

definition before_dot :: "string \<Rightarrow> string" where
  "before_dot s = takeWhile (\<lambda>c. c \<noteq> CHR ''.'') s"

definition after_dot :: "string \<Rightarrow> string" where
  "after_dot s = tl (dropWhile (\<lambda>c. c \<noteq> CHR ''.'') s)"

definition getUserName :: "string \<Rightarrow> string" where
  "getUserName fullName = (if CHR ''.'' \<notin> set fullName then fullName else before_dot fullName)"

definition getWorkerName :: "string \<Rightarrow> string" where
  "getWorkerName fullName = (if CHR ''.'' \<notin> set fullName then [] else after_dot fullName)"

section \<open>Workers\<close>

record stratum_worker =
  wk_chainId :: nat
  wk_userIds :: "int list"
  wk_workerHashId :: int
  wk_fullName :: string
  wk_userName :: string
  wk_workerName :: string

definition worker_new :: "nat \<Rightarrow> stratum_worker" where
  "worker_new chainSize = \<lparr>wk_chainId = 0, wk_userIds = replicate chainSize 0, wk_workerHashId = 0,
     wk_fullName = [], wk_userName = [], wk_workerName = []\<rparr>"

definition resetNames :: "stratum_worker \<Rightarrow> stratum_worker" where
  "resetNames w = w\<lparr>wk_workerHashId := 0, wk_fullName := [], wk_userName := [], wk_workerName := []\<rparr>"

definition setChainIdAndUserId :: "nat \<Rightarrow> int \<Rightarrow> stratum_worker \<Rightarrow> stratum_worker option" where
  "setChainIdAndUserId chainId userId w = do {
     ids \<leftarrow> vec_set (wk_userIds w) (int chainId) userId;
     Some (w\<lparr>wk_userIds := ids, wk_chainId := chainId\<rparr>) }"

definition worker_userId :: "stratum_worker \<Rightarrow> nat \<Rightarrow> int option" where
  "worker_userId w chainId = vec_get (wk_userIds w) (int chainId)"

text \<open>The id is the first 16 hex digits of the hash, read as a signed number, and never 0.\<close>

definition calcWorkerId :: "(string \<Rightarrow> bytes) \<Rightarrow> string \<Rightarrow> int" where
  "calcWorkerId Hash workerName =
     (let tmpId = strtoull16 (take 16 (blob_GetHex (Hash workerName)));
          workerHashId = sint tmpId
      in if workerHashId = 0 then workerHashId + 1 else workerHashId)"

definition setNames :: "(string \<Rightarrow> bytes) \<Rightarrow> string \<Rightarrow> (string \<Rightarrow> string) \<Rightarrow> bool \<Rightarrow> string \<Rightarrow> bool \<Rightarrow>
    stratum_worker \<Rightarrow> stratum_worker" where
  "setNames Hash fullName userNormalizer singleUserMode singleUserName extralength w =
     (let w = resetNames w;
          user = userNormalizer (filterWorkerName (getUserName fullName));
          name = filterWorkerName (getWorkerName fullName);
          name = (if \<not> extralength \<and> length name > 20 then take 20 name else name);
          name = (if name = [] then DEFAULT_WORKER_NAME else name);
          full = user @ ''.'' @ name;
          workerName = (if singleUserMode then full else name);
          fullName' = (if singleUserMode then singleUserName @ ''.'' @ full else full)
      in w\<lparr>wk_userName := user, wk_workerName := workerName, wk_fullName := fullName',
           wk_workerHashId := calcWorkerId Hash workerName\<rparr>)"

section \<open>Jobs sent to one session\<close>

record 's local_job =
  lj_chainId :: nat
  lj_jobId :: u64
  lj_submitShares :: "'s list"

definition local_job_new :: "nat \<Rightarrow> u64 \<Rightarrow> 's local_job" where
  "local_job_new chainId jobId = \<lparr>lj_chainId = chainId, lj_jobId = jobId, lj_submitShares = []\<rparr>"

definition addLocalShare :: "'s \<Rightarrow> ('s, 'm) local_job_scheme \<Rightarrow> bool \<times> ('s, 'm) local_job_scheme" where
  "addLocalShare share j =
     (if share \<in> set (lj_submitShares j) then (False, j)
      else (True, j\<lparr>lj_submitShares := share # lj_submitShares j\<rparr>))"

section \<open>Properties\<close>

lemma dot_split:
  "CHR ''.'' \<notin> set u \<Longrightarrow> getUserName (u @ CHR ''.'' # n) = u \<and> getWorkerName (u @ CHR ''.'' # n) = n"
  by (auto simp: getUserName_def getWorkerName_def before_dot_def after_dot_def takeWhile_append dropWhile_append)

lemma calcWorkerId_nonzero: "calcWorkerId Hash n \<noteq> 0"
  by (simp add: calcWorkerId_def Let_def)

lemma calcWorkerId_range: "- (2 ^ 63) \<le> calcWorkerId Hash n \<and> calcWorkerId Hash n < 2 ^ 63"
  using sint_range_size [of "strtoull16 (take 16 (blob_GetHex (Hash n)))"]
  by (auto simp: calcWorkerId_def Let_def word_size)

lemma getUserName_no_dot: "CHR ''.'' \<notin> set (getUserName s)"
  by (auto simp: getUserName_def before_dot_def dest: set_takeWhileD)

lemma filterWorkerName_chars: "list_all worker_char (filterWorkerName s)"
  by (simp add: filterWorkerName_def list_all_iff)

lemma default_name: "list_all worker_char DEFAULT_WORKER_NAME" "length DEFAULT_WORKER_NAME \<le> 20" "DEFAULT_WORKER_NAME \<noteq> []"
  by (simp_all add: DEFAULT_WORKER_NAME_def worker_char_def ord_def)

definition short_name :: "bool \<Rightarrow> string \<Rightarrow> string" where
  "short_name extralength fullName =
     (let n = filterWorkerName (getWorkerName fullName); n = (if \<not> extralength \<and> length n > 20 then take 20 n else n)
      in if n = [] then DEFAULT_WORKER_NAME else n)"

lemma short_name_props:
  "short_name x f \<noteq> []" "list_all worker_char (short_name x f)" "\<not> x \<Longrightarrow> length (short_name x f) \<le> 20"
  using filterWorkerName_chars [of "getWorkerName f"] default_name
  by (auto simp: short_name_def Let_def list_all_iff dest: in_set_takeD)



end
