(* ===== verification/Stratum_Framing.thy ===== *)
theory Stratum_Framing
  imports Str_Encodings
begin

text \<open>
  The framing of \<open>StratumSession\<close>: \<open>readBuf\<close>, \<open>handleMessage\<close> and \<open>tryReadLine\<close> of \<open>StratumSession.cc\<close>. The input
  buffer holds text lines ended by a line feed and binary messages of BTCAgent, which start
  with 0x7F, a command and a 16-bit length. What a message does to the session is a
  parameter here; the session theories supply it.

  Proved are that the messages handled do not depend on how the bytes are split into reads,
  that a stream of well-formed messages is taken apart into exactly these messages, and that
  a session that received a binary header with a length below 4 never handles anything again.
\<close>

section \<open>Fields of a binary message\<close>

definition byte_at :: "string \<Rightarrow> nat \<Rightarrow> u8" where
  "byte_at s i = of_nat (ord (peek s i))"

definition le16_at :: "string \<Rightarrow> nat \<Rightarrow> u16" where
  "le16_at s i = ucast (byte_at s i) OR push_bit 8 (ucast (byte_at s (i + 1)))"

definition le32_at :: "string \<Rightarrow> nat \<Rightarrow> u32" where
  "le32_at s i = ucast (byte_at s i) OR push_bit 8 (ucast (byte_at s (i + 1))) OR
     push_bit 16 (ucast (byte_at s (i + 2))) OR push_bit 24 (ucast (byte_at s (i + 3)))"

definition CMD_MAGIC_NUMBER :: u8 where "CMD_MAGIC_NUMBER = 0x7F"
definition AGENT_MAX_SESSION_ID :: u16 where "AGENT_MAX_SESSION_ID = 0xFFFE"

section \<open>Taking messages from the buffer\<close>

datatype message = ExMessage string | Line string

definition lf :: char where "lf = CHR 0x0A"

definition tryReadLine :: "string \<Rightarrow> (string \<times> string) option" where
  "tryReadLine buf = (if lf \<in> set buf
     then Some (takeWhile (\<lambda>c. c \<noteq> lf) buf @ [lf], tl (dropWhile (\<lambda>c. c \<noteq> lf) buf)) else None)"

definition next_message :: "string \<Rightarrow> (message \<times> string) option" where
  "next_message buf =
     (if length buf < 4 then None
      else if byte_at buf 0 = CMD_MAGIC_NUMBER
      then let len = unat (le16_at buf 2)
           in if len < 4 then None
              else if length buf < len then None
              else Some (ExMessage (take len buf), drop len buf)
      else map_option (apfst Line) (tryReadLine buf))"

lemma next_message_shorter: "next_message buf = Some (m, rest) \<Longrightarrow> length rest < length buf"
proof -
  have "length (tl (dropWhile (\<lambda>c. c \<noteq> lf) buf)) < length buf" if "buf \<noteq> []"
  proof -
    have "0 < length buf" using that by simp
    then show ?thesis unfolding length_tl using length_dropWhile_le [of "\<lambda>c. c \<noteq> lf" buf] by linarith
  qed
  then show "next_message buf = Some (m, rest) \<Longrightarrow> length rest < length buf"
    by (cases buf) (auto simp: next_message_def tryReadLine_def Let_def split: if_splits)
qed

text \<open>The loop of \<open>readBuf\<close>; a handler that does not return ends it.\<close>

function read_loop :: "('s \<Rightarrow> message \<Rightarrow> 's option) \<Rightarrow> string \<Rightarrow> 's \<Rightarrow> (string \<times> 's) option" where
  "read_loop handle buf s =
     (case next_message buf of
        None \<Rightarrow> Some (buf, s)
      | Some (m, rest) \<Rightarrow> (case handle s m of None \<Rightarrow> None | Some s' \<Rightarrow> read_loop handle rest s'))"
  by pat_completeness auto
termination
  by (relation "measure (\<lambda>(_, buf, _). length buf)") (auto simp: next_message_shorter)

declare read_loop.simps [simp del]

definition readBuf :: "('s \<Rightarrow> message \<Rightarrow> 's option) \<Rightarrow> string \<Rightarrow> string \<times> 's \<Rightarrow> (string \<times> 's) option" where
  "readBuf handle bytes st = (case st of (buf, s) \<Rightarrow> read_loop handle (buf @ bytes) s)"

section \<open>Splitting of the input does not matter\<close>

lemma byte_at_append: "i < length a \<Longrightarrow> byte_at (a @ b) i = byte_at a i"
  by (simp add: byte_at_def peek_def nth_append)

lemma header_append: "4 \<le> length a \<Longrightarrow> byte_at (a @ b) 0 = byte_at a 0 \<and> le16_at (a @ b) 2 = le16_at a 2"
  using byte_at_append [of 0 a b] byte_at_append [of 2 a b] byte_at_append [of 3 a b] by (cases a) (auto simp: le16_at_def)

lemma next_message_append:
  assumes "next_message buf = Some (m, rest)"
  shows "next_message (buf @ x) = Some (m, rest @ x)"
proof -
  have l: "4 \<le> length buf" using assms by (auto simp: next_message_def split: if_splits)
  then have b: "byte_at (buf @ x) 0 = byte_at buf 0" "le16_at (buf @ x) 2 = le16_at buf 2"
    using header_append by blast+
  show ?thesis
  proof (cases "byte_at buf 0 = CMD_MAGIC_NUMBER")
    case True
    then show ?thesis using assms l b by (auto simp: next_message_def Let_def split: if_splits)
  next
    case False
    then have n: "lf \<in> set buf" "m = Line (takeWhile (\<lambda>c. c \<noteq> lf) buf @ [lf])" "rest = tl (dropWhile (\<lambda>c. c \<noteq> lf) buf)"
      using assms l by (auto simp: next_message_def tryReadLine_def split: if_splits)
    have t: "takeWhile (\<lambda>c. c \<noteq> lf) (buf @ x) = takeWhile (\<lambda>c. c \<noteq> lf) buf"
      "dropWhile (\<lambda>c. c \<noteq> lf) (buf @ x) = dropWhile (\<lambda>c. c \<noteq> lf) buf @ x"
      using n(1) by (auto simp: takeWhile_append dropWhile_append)
    have "dropWhile (\<lambda>c. c \<noteq> lf) buf \<noteq> []" using n(1) by auto
    then show ?thesis using False l b n t by (simp add: next_message_def tryReadLine_def)
  qed
qed

lemma read_loop_append:
  "read_loop handle (a @ b) s = Option.bind (read_loop handle a s) (\<lambda>(r, s'). read_loop handle (r @ b) s')"
proof (induction handle a s rule: read_loop.induct)
  case (1 handle a s)
  show ?case
  proof (cases "next_message a")
    case None
    then show ?thesis by (subst (2) read_loop.simps) simp
  next
    case (Some mr)
    obtain m rest where mr: "next_message a = Some (m, rest)" using Some by (cases mr) simp
    show ?thesis
    proof (cases "handle s m")
      case None
      then show ?thesis using mr next_message_append [OF mr, of b]
        by (subst (1 2) read_loop.simps) simp
    next
      case (Some s')
      have "read_loop handle (a @ b) s = read_loop handle (rest @ b) s'"
        using Some next_message_append [OF mr, of b] by (subst read_loop.simps) simp
      moreover have "read_loop handle a s = read_loop handle rest s'"
        using Some mr by (subst read_loop.simps) simp
      ultimately show ?thesis using 1 [OF mr refl Some] by simp
    qed
  qed
qed

lemma readBuf_append: "readBuf handle (a @ b) st = Option.bind (readBuf handle a st) (readBuf handle b)"
proof (cases st)
  case (Pair buf s)
  have "readBuf handle b = (\<lambda>(r, s'). read_loop handle (r @ b) s')" by (auto simp: readBuf_def)
  then show ?thesis unfolding Pair readBuf_def using read_loop_append [of handle "buf @ a" b s] by simp
qed

lemma readBuf_pieces:
  "foldl (\<lambda>st c. Option.bind st (readBuf handle c)) (readBuf handle x st) cs = readBuf handle (x @ concat cs) st"
  by (induction cs arbitrary: x) (simp_all add: readBuf_append [symmetric])

text \<open>
  C32. It makes no difference whether two pieces of input arrive in one read or in two: the
  handler sees the same messages in the same order and the same bytes stay in the buffer.
\<close>

theorem readBuf_chunks:
  "readBuf handle (a @ b) st = Option.bind (readBuf handle a st) (readBuf handle b)"
  by (rule readBuf_append)

section \<open>Messages and their bytes\<close>

function frames :: "string \<Rightarrow> message list \<times> string" where
  "frames buf = (case next_message buf of None \<Rightarrow> ([], buf) | Some (m, rest) \<Rightarrow> apfst (Cons m) (frames rest))"
  by pat_completeness auto
termination
  by (relation "measure length") (auto simp: next_message_shorter)

declare frames.simps [simp del]

fun message_bytes :: "message \<Rightarrow> string" where
  "message_bytes (ExMessage x) = x"
| "message_bytes (Line l) = l"

fun message_ok :: "message \<Rightarrow> bool" where
  "message_ok (ExMessage x) \<longleftrightarrow> 4 \<le> length x \<and> byte_at x 0 = CMD_MAGIC_NUMBER \<and> unat (le16_at x 2) = length x"
| "message_ok (Line l) \<longleftrightarrow> 4 \<le> length l \<and> byte_at l 0 \<noteq> CMD_MAGIC_NUMBER \<and> last l = lf \<and> lf \<notin> set (butlast l)"

lemma next_message_bytes:
  assumes "message_ok m"
  shows "next_message (message_bytes m @ r) = Some (m, r)"
proof (cases m)
  case (ExMessage x)
  then have "next_message x = Some (m, [])" using assms by (simp add: next_message_def Let_def)
  then show ?thesis using ExMessage next_message_append by fastforce
next
  case (Line l)
  then obtain k where k: "l = k @ [lf]" "lf \<notin> set k"
    using assms by (cases l rule: rev_cases) auto
  have "takeWhile (\<lambda>c. c \<noteq> lf) (k @ [lf]) = k" "dropWhile (\<lambda>c. c \<noteq> lf) (k @ [lf]) = [lf]"
    using k(2) by (auto simp: takeWhile_append dropWhile_append)
  then have "next_message l = Some (m, [])" using assms Line k by (simp add: next_message_def tryReadLine_def)
  then show ?thesis using Line next_message_append by fastforce
qed

text \<open>What \<open>readBuf\<close> does is to hand the messages of the buffer to the handler, one after another.\<close>

lemma read_loop_run:
  "read_loop handle buf s = map_option (Pair (snd (frames buf))) (run handle s (fst (frames buf)))"
proof (induction handle buf s rule: read_loop.induct)
  case (1 handle buf s)
  show ?case
  proof (cases "next_message buf")
    case None
    then show ?thesis by (subst read_loop.simps, subst (1 2) frames.simps) simp
  next
    case (Some mr)
    obtain m rest where mr: "next_message buf = Some (m, rest)" using Some by (cases mr) simp
    have f: "frames buf = apfst (Cons m) (frames rest)" using mr by (subst frames.simps) simp
    show ?thesis using 1 [OF mr refl] mr
      by (subst read_loop.simps) (auto simp: f split: option.splits)
  qed
qed

lemma frames_messages: "list_all message_ok ms \<Longrightarrow> frames (concat (map message_bytes ms)) = (ms, [])"
proof (induction ms)
  case Nil
  then show ?case by (subst frames.simps) (simp add: next_message_def)
next
  case (Cons m ms)
  then show ?case using next_message_bytes [of m] by (subst frames.simps) simp
qed

text \<open>
  C33. A stream made of well-formed messages, whatever the reads it arrives in, is handled as
  exactly these messages in this order, and nothing stays in the buffer.
\<close>

theorem readBuf_messages:
  assumes "list_all message_ok ms" "concat chunks = concat (map message_bytes ms)"
  shows "foldl (\<lambda>st c. Option.bind st (readBuf handle c)) (Some ([], s)) chunks = map_option (Pair []) (run handle s ms)"
proof -
  have "Some ([], s) = readBuf handle [] ([], s)"
    unfolding readBuf_def by (subst prod.case, subst read_loop.simps) (simp add: next_message_def)
  then have "foldl (\<lambda>st c. Option.bind st (readBuf handle c)) (Some ([], s)) chunks =
      readBuf handle (concat (map message_bytes ms)) ([], s)"
    using readBuf_pieces [of handle "[]" "([], s)" chunks] assms(2) by simp
  then show ?thesis by (simp add: readBuf_def read_loop_run frames_messages [OF assms(1)])
qed

definition sample_message :: message where
  "sample_message = ExMessage [CHR 0x7F, CHR 0x04, CHR 0x06, CHR 0x00, CHR 0x01, CHR 0x00]"

theorem readBuf_messages_witness:
  "foldl (\<lambda>st c. Option.bind st (readBuf (\<lambda>ms m. Some (m # ms)) c)) (Some ([], []))
     [[CHR 0x7F, CHR 0x04, CHR 0x06], [CHR 0x00, CHR 0x01, CHR 0x00] @ ''abc'', [lf]] =
   Some ([], [Line (''abc'' @ [lf]), sample_message])"
proof -
  have "list_all message_ok [sample_message, Line (''abc'' @ [lf])]"
    by (simp add: sample_message_def byte_at_def le16_at_def peek_def CMD_MAGIC_NUMBER_def ord_def lf_def)
  then show ?thesis
    using readBuf_messages [of "[sample_message, Line (''abc'' @ [lf])]"
        "[[CHR 0x7F, CHR 0x04, CHR 0x06], [CHR 0x00, CHR 0x01, CHR 0x00] @ ''abc'', [lf]]" "\<lambda>ms m. Some (m # ms)" "[]"]
    by (simp add: sample_message_def)
qed

text \<open>
  C36. Once the buffer starts with a binary header whose length field is below 4, no byte is
  ever taken from it again: every further read only makes it longer, and the session sees no
  message any more.
\<close>

theorem short_length_stuck:
  assumes "4 \<le> length buf" "byte_at buf 0 = CMD_MAGIC_NUMBER" "unat (le16_at buf 2) < 4"
  shows "readBuf handle bytes (buf, s) = Some (buf @ bytes, s)"
proof -
  have "byte_at (buf @ bytes) 0 = byte_at buf 0" "le16_at (buf @ bytes) 2 = le16_at buf 2"
    using header_append [OF assms(1)] by blast+
  then have "next_message (buf @ bytes) = None" using assms by (simp add: next_message_def)
  then show ?thesis unfolding readBuf_def by (subst prod.case, subst read_loop.simps) simp
qed

theorem short_length_stuck_witness:
  "readBuf (\<lambda>_ _. None) ''hello'' ([CHR 0x7F, CHR 0x01, CHR 0x00, CHR 0x00], ()) =
     Some ([CHR 0x7F, CHR 0x01, CHR 0x00, CHR 0x00] @ ''hello'', ())"
  by (rule short_length_stuck) (simp_all add: byte_at_def le16_at_def peek_def CMD_MAGIC_NUMBER_def ord_def)

end
