(* ===== verification/Job_Repository.thy ===== *)
theory Job_Repository
  imports Ord_Map Pool_Utils Float64
begin

text \<open>
  The job repository of the stratum server: \<open>JobRepository\<close> and \<open>StratumJobEx\<close> of
  \<open>src/StratumServer.h\<close> and \<open>src/StratumServer.cc\<close>, with the \<open>broadcastStratumJob\<close> of each
  chain. What a call of \<open>sendMiningNotifyToAll\<close> sends is appended to a log. Heights are natural
  numbers; the heights of the chains fit the 32 or 64 bits the source keeps them in.
\<close>

section \<open>Jobs\<close>

record stratum_job =
  sj_jobId :: u64
  sj_height :: nat

record subpool_job =
  sp_coinbase1 :: string
  sp_coinbase2 :: string
  sp_grandCoinbase1 :: string

record sjob_bitcoin = stratum_job +
  sb_prevHash :: bytes
  sb_coinbase1 :: string
  sb_grandCoinbase1 :: string
  sb_coinbase2 :: string
  sb_merkleBranch :: "bytes list"
  sb_subPool :: "string \<rightharpoonup> subpool_job"
  sb_nVersion :: u32
  sb_nBits :: u32
  sb_nTime :: u32
  sb_minTime :: u32
  sb_networkTarget :: bytes
  sb_proxyExtraNonce2Size :: u32
  sb_proxyJobDifficulty :: u64
  sb_isMergedMiningCleanJob :: bool
  sb_prevHashBeStr :: string
  sb_nmcAuxBits :: u32
  sb_nmcAuxBlockHash :: bytes
  sb_nmcNetworkTarget :: bytes
  sb_nmcRpcAddr :: string
  sb_nmcRpcUserpass :: string
  sb_blockHashForMergedMining :: string
  sb_rskNetworkTarget :: bytes
  sb_rskdRpcAddress :: string
  sb_rskdRpcUserPwd :: string
  sb_feesForMiner :: string

record sjob_eth = stratum_job +
  se_uncles :: u32
  se_gasUsedPercent :: rat

record sjob_decred = stratum_job +
  sd_voters :: u16

record 'j job_ex =
  jx_state :: int
  jx_chainId :: nat
  jx_isClean :: bool
  jx_sjob :: 'j

definition markStale :: "'j job_ex \<Rightarrow> 'j job_ex" where
  "markStale x = x\<lparr>jx_state := 1\<rparr>"

definition isStale :: "'j job_ex \<Rightarrow> bool" where
  "isStale x \<longleftrightarrow> jx_state x = 1"

section \<open>The repository\<close>

record 'j job_repository =
  jr_chainId :: nat
  exJobs :: "(u64, 'j job_ex) omap"
  kMaxJobsLifeTime :: int
  kMiningNotifyInterval :: int
  lastJobSendTime :: int
  lastJobId :: u64
  lastJobHeight :: nat
  lastHeight :: nat
  lastVoters :: u16
  jr_sent :: "'j job_ex list"

definition jr_new :: "nat \<Rightarrow> 'j job_repository" where
  "jr_new chain = \<lparr>jr_chainId = chain, exJobs = [], kMaxJobsLifeTime = 300, kMiningNotifyInterval = 30,
     lastJobSendTime = 0, lastJobId = 0, lastJobHeight = 0, lastHeight = 0, lastVoters = 0, jr_sent = []\<rparr>"

definition setMaxJobLifeTime :: "int \<Rightarrow> 'j job_repository \<Rightarrow> 'j job_repository" where
  "setMaxJobLifeTime t r = r\<lparr>kMaxJobsLifeTime := t\<rparr>"

definition setMiningNotifyInterval :: "int \<Rightarrow> 'j job_repository \<Rightarrow> 'j job_repository" where
  "setMiningNotifyInterval t r = r\<lparr>kMiningNotifyInterval := t\<rparr>"

definition getStratumJobEx :: "u64 \<Rightarrow> 'j job_repository \<Rightarrow> 'j job_ex option" where
  "getStratumJobEx jobId r = om_find (exJobs r) jobId"

definition getLatestStratumJobEx :: "'j job_repository \<Rightarrow> 'j job_ex option" where
  "getLatestStratumJobEx r = (if exJobs r \<noteq> [] then Some (snd (last (exJobs r))) else None)"

definition createStratumJobEx :: "'j \<Rightarrow> bool \<Rightarrow> 'j job_repository \<Rightarrow> 'j job_ex" where
  "createStratumJobEx sjob isClean r =
     \<lparr>jx_state = 0, jx_chainId = jr_chainId r, jx_isClean = isClean, jx_sjob = sjob\<rparr>"

definition sendMiningNotify :: "int \<Rightarrow> 'a stratum_job_scheme job_ex \<Rightarrow> 'a stratum_job_scheme job_repository \<Rightarrow>
    'a stratum_job_scheme job_repository" where
  "sendMiningNotify now x r = r\<lparr>jr_sent := jr_sent r @ [x], lastJobSendTime := now,
     lastJobId := sj_jobId (jx_sjob x), lastJobHeight := sj_height (jx_sjob x)\<rparr>"

definition sendLatestMiningNotify :: "int \<Rightarrow> 'a stratum_job_scheme job_repository \<Rightarrow> 'a stratum_job_scheme job_repository" where
  "sendLatestMiningNotify now r = (case getLatestStratumJobEx r of None \<Rightarrow> r | Some x \<Rightarrow> sendMiningNotify now x r)"

text \<open>\<open>checkAndSendMiningNotify\<close> reads the clock to decide and again to record the sending.\<close>

definition checkAndSendMiningNotify :: "int \<Rightarrow> int \<Rightarrow> 'a stratum_job_scheme job_repository \<Rightarrow> 'a stratum_job_scheme job_repository" where
  "checkAndSendMiningNotify now now2 r =
     (if exJobs r \<noteq> [] \<and> lastJobSendTime r + kMiningNotifyInterval r \<le> now
      then sendMiningNotify now2 (snd (last (exJobs r))) r else r)"

definition markAllJobsAsStale :: "nat \<Rightarrow> 'a stratum_job_scheme job_repository \<Rightarrow> 'a stratum_job_scheme job_repository" where
  "markAllJobsAsStale height r =
     r\<lparr>exJobs := map (\<lambda>(k, x). (k, if sj_height (jx_sjob x) \<le> height then markStale x else x)) (exJobs r)\<rparr>"

text \<open>The loop of \<open>tryCleanExpiredJobs\<close>; a job's time is the upper half of its id.\<close>

definition job_expired :: "u32 \<Rightarrow> int \<Rightarrow> u64 \<Rightarrow> bool" where
  "job_expired nowTs life jobId \<longleftrightarrow> \<not> (uint nowTs < uint (drop_bit 32 jobId) + life)"

fun clean_loop :: "u32 \<Rightarrow> int \<Rightarrow> (u64, 'j job_ex) omap \<Rightarrow> (u64, 'j job_ex) omap" where
  "clean_loop nowTs life (p # q # m) =
     (if \<not> job_expired nowTs life (fst p) then p # q # m else clean_loop nowTs life (q # m))"
| "clean_loop nowTs life m = m"

definition tryCleanExpiredJobs :: "u32 \<Rightarrow> 'j job_repository \<Rightarrow> 'j job_repository" where
  "tryCleanExpiredJobs nowTs r = r\<lparr>exJobs := clean_loop nowTs (kMaxJobsLifeTime r) (exJobs r)\<rparr>"

text \<open>The task that \<open>runThreadConsume\<close> dispatches after every message or timeout.\<close>

definition jr_tick :: "int \<Rightarrow> int \<Rightarrow> u32 \<Rightarrow> 'a stratum_job_scheme job_repository \<Rightarrow> 'a stratum_job_scheme job_repository" where
  "jr_tick now now2 nowTs r = tryCleanExpiredJobs nowTs (checkAndSendMiningNotify now now2 r)"

text \<open>
  \<open>consumeStratumJob\<close>: the errors of the broker, a payload that does not parse (\<open>None\<close>), a job
  that arrives too late. The outer \<open>None\<close> is the fatal log; the inner result is the job to dispatch.
\<close>

datatype rk_err = RkNoError | RkPartitionEof | RkUnknownPartition | RkUnknownTopic | RkOther

definition consumeStratumJob :: "('j \<Rightarrow> u32) \<Rightarrow> rk_err \<Rightarrow> 'j option \<Rightarrow> int \<Rightarrow> 'j job_repository \<Rightarrow> 'j option option" where
  "consumeStratumJob jobTime err payload now r =
     (if err = RkPartitionEof then Some None
      else if err = RkUnknownPartition \<or> err = RkUnknownTopic then None
      else if err = RkOther then Some None
      else case payload of
             None \<Rightarrow> Some None
           | Some sjob \<Rightarrow> if uint (jobTime sjob) + kMaxJobsLifeTime r < now then Some None else Some (Some sjob))"

definition dispatchStratumJob :: "('a stratum_job_scheme \<Rightarrow> 'a stratum_job_scheme job_repository \<Rightarrow> 'a stratum_job_scheme job_repository) \<Rightarrow>
    'a stratum_job_scheme \<Rightarrow> 'a stratum_job_scheme job_repository \<Rightarrow> 'a stratum_job_scheme job_repository" where
  "dispatchStratumJob broadcast sjob r =
     (case getStratumJobEx (sj_jobId sjob) r of Some _ \<Rightarrow> r | None \<Rightarrow> broadcast sjob r)"

section \<open>Broadcasting\<close>

definition mark_all :: "(u64, 'j job_ex) omap \<Rightarrow> (u64, 'j job_ex) omap" where
  "mark_all m = map (\<lambda>(k, x). (k, markStale x)) m"

text \<open>The part all chains share: on a new height, mark every job stale; then insert the new one.\<close>

definition insertJob :: "bool \<Rightarrow> 'a stratum_job_scheme \<Rightarrow> 'a stratum_job_scheme job_repository \<Rightarrow>
    'a stratum_job_scheme job_ex \<times> 'a stratum_job_scheme job_repository" where
  "insertJob isClean sjob r =
     (let x = createStratumJobEx sjob isClean r;
          m = (if isClean then mark_all (exJobs r) else exJobs r)
      in (x, r\<lparr>exJobs := om_update (sj_jobId sjob) x m\<rparr>))"

text \<open>Sia: every job is clean and sent.\<close>

definition broadcast_sia :: "int \<Rightarrow> 'a stratum_job_scheme \<Rightarrow> 'a stratum_job_scheme job_repository \<Rightarrow> 'a stratum_job_scheme job_repository" where
  "broadcast_sia now sjob r = (let (x, r1) = insertJob True sjob r in sendMiningNotify now x r1)"

text \<open>Bytom, CKB, Beam and Grin: a job is clean and sent when its height is new.\<close>

definition broadcast_height :: "int \<Rightarrow> 'a stratum_job_scheme \<Rightarrow> 'a stratum_job_scheme job_repository \<Rightarrow> 'a stratum_job_scheme job_repository" where
  "broadcast_height now sjob r =
     (let isClean = (sj_height sjob > lastHeight r);
          r1 = (if isClean then r\<lparr>lastHeight := sj_height sjob\<rparr> else r);
          (x, r2) = insertJob isClean sjob r1
      in if isClean then sendMiningNotify now x r2 else r2)"

text \<open>Decred: also sent when more voters are known for the current height.\<close>

definition broadcast_decred :: "int \<Rightarrow> sjob_decred \<Rightarrow> sjob_decred job_repository \<Rightarrow> sjob_decred job_repository" where
  "broadcast_decred now sjob r =
     (let isClean = (sj_height sjob > lastHeight r);
          r1 = (if isClean then r\<lparr>lastHeight := sj_height sjob\<rparr> else r);
          moreVoters = (sd_voters sjob > lastVoters r1);
          (x, r2) = insertJob isClean sjob r1
      in if isClean \<or> (moreVoters \<and> sj_height sjob \<ge> lastHeight r2)
         then sendMiningNotify now x (r2\<lparr>lastVoters := sd_voters sjob\<rparr>) else r2)"

text \<open>Ethereum: also sent when the job brings more uncles, or transactions where there were few.\<close>

definition broadcast_eth :: "int \<Rightarrow> sjob_eth \<Rightarrow> sjob_eth job_repository \<Rightarrow> sjob_eth job_repository" where
  "broadcast_eth now sjob r =
     (let isClean = (sj_height sjob > lastHeight r);
          r1 = (if isClean then r\<lparr>lastHeight := sj_height sjob\<rparr> else r);
          lastExJob = getLatestStratumJobEx r1;
          (x, r2) = insertJob isClean sjob r1
      in if isClean then sendMiningNotify now x r2
         else case lastExJob of
                None \<Rightarrow> r2
              | Some l \<Rightarrow>
                  if (se_uncles (jx_sjob l) < se_uncles sjob \<or>
                      (se_gasUsedPercent (jx_sjob l) < 10 \<and> se_gasUsedPercent (jx_sjob l) < se_gasUsedPercent sjob)) \<and>
                     sj_height sjob \<ge> lastHeight r2
                  then sendMiningNotify now x r2 else r2)"

text \<open>Bitcoin. The extra nonce sizes are those of \<open>StratumMiner\<close> and of the server's configuration.\<close>

record server_bitcoin =
  srv_extraNonce2Size :: u32
  srv_subPoolEnabled :: bool
  srv_subPoolName :: string
  srv_versionMask :: u32

definition kExtraNonce1Size :: nat where "kExtraNonce1Size = 4"
definition kExtraNonce2Size :: nat where "kExtraNonce2Size = 8"

definition btc_discarded :: "server_bitcoin \<Rightarrow> sjob_bitcoin \<Rightarrow> bool" where
  "btc_discarded srv sjob \<longleftrightarrow> sb_proxyExtraNonce2Size sjob > 0 \<and>
     unat (sb_proxyExtraNonce2Size sjob) < kExtraNonce1Size + unat (srv_extraNonce2Size srv)"

definition btc_subpool :: "server_bitcoin \<Rightarrow> sjob_bitcoin \<Rightarrow> sjob_bitcoin" where
  "btc_subpool srv sjob =
     (if srv_subPoolEnabled srv then
        case sb_subPool sjob (srv_subPoolName srv) of
          Some p \<Rightarrow> sjob\<lparr>sb_coinbase1 := sp_coinbase1 p, sb_coinbase2 := sp_coinbase2 p,
                        sb_grandCoinbase1 := sp_grandCoinbase1 p\<rparr>
        | None \<Rightarrow> sjob
      else sjob)"

definition broadcast_bitcoin :: "server_bitcoin \<Rightarrow> int \<Rightarrow> sjob_bitcoin \<Rightarrow> sjob_bitcoin job_repository \<Rightarrow> sjob_bitcoin job_repository" where
  "broadcast_bitcoin srv now sjob0 r =
     (if btc_discarded srv sjob0 then r
      else
        let sjob = btc_subpool srv sjob0;
            height = sj_height sjob;
            isClean = (height > lastHeight r);
            r1 = (if isClean then r\<lparr>lastHeight := height\<rparr> else r);
            isMergedMiningClean0 = (sb_isMergedMiningCleanJob sjob \<and> height \<ge> lastHeight r1);
            switched = (sb_proxyJobDifficulty sjob > 0 \<and> height < lastHeight r1);
            isMergedMiningClean = (switched \<or> isMergedMiningClean0);
            r2 = (if switched then r1\<lparr>lastHeight := height\<rparr> else r1);
            lastExJob = getLatestStratumJobEx r2;
            (x, r3) = insertJob isClean sjob r2
        in if isClean \<or> isMergedMiningClean then sendMiningNotify now x r3
           else case lastExJob of
                  None \<Rightarrow> r3
                | Some l \<Rightarrow>
                    if length (sb_merkleBranch (jx_sjob l)) = 0 \<and> length (sb_merkleBranch sjob) \<noteq> 0 \<and>
                       height \<ge> lastHeight r3
                    then sendMiningNotify now x r3 else r3)"

section \<open>Cleaning\<close>

lemma job_expired_mono: "a \<le> b \<Longrightarrow> job_expired t life b \<Longrightarrow> job_expired t life a"
proof -
  assume "a \<le> b"
  then have "unat (drop_bit 32 a) \<le> unat (drop_bit 32 b)"
    by (simp add: drop_bit_eq_div unat_div word_le_nat_alt div_le_mono)
  then have "uint (drop_bit 32 a) \<le> uint (drop_bit 32 b)" by (simp only: word_le_nat_alt [symmetric] word_le_def)
  then show "job_expired t life b \<Longrightarrow> job_expired t life a" by (auto simp: job_expired_def)
qed

lemma clean_loop_filter:
  "om_inv m \<Longrightarrow> m \<noteq> [] \<Longrightarrow> clean_loop t life m =
     (let k = filter (\<lambda>p. \<not> job_expired t life (fst p)) m in if k = [] then [last m] else k)"
proof (induction t life m rule: clean_loop.induct)
  case (1 t life p q m)
  obtain k v where p: "p = (k, v)" by fastforce
  show ?case
  proof (cases "job_expired t life (fst p)")
    case True
    then show ?thesis using 1 by (simp add: p om_inv_Cons Let_def)
  next
    case False
    have "\<not> job_expired t life (fst x)" if "x \<in> set (q # m)" for x
      using that False 1(2) job_expired_mono [of k "fst x" t life] by (auto simp: p om_inv_Cons less_imp_le)
    then have "filter (\<lambda>p. \<not> job_expired t life (fst p)) (p # q # m) = p # q # m" using False by (auto simp: filter_id_conv)
    then show ?thesis using False by simp
  qed
qed (auto simp: Let_def)

lemma clean_loop_suffix: "\<exists>n. clean_loop t life m = drop n m"
proof (induction t life m rule: clean_loop.induct)
  case (1 t life p q m)
  then show ?case by (cases "job_expired t life (fst p)") (auto intro: exI [of _ "Suc _"] exI [of _ 0])
qed (auto intro: exI [of _ 0])

lemma clean_loop_Nil [simp]: "clean_loop t life m = [] \<longleftrightarrow> m = []"
  by (induction t life m rule: clean_loop.induct) auto

section \<open>Staleness\<close>

fun jx_fine :: "nat \<Rightarrow> u64 \<times> 'a stratum_job_scheme job_ex \<Rightarrow> bool" where
  "jx_fine h (k, x) \<longleftrightarrow> k = sj_jobId (jx_sjob x) \<and>
     sj_height (jx_sjob x) \<le> h \<and> (isStale x \<longrightarrow> sj_height (jx_sjob x) < h)"

definition jr_inv :: "'a stratum_job_scheme job_repository \<Rightarrow> bool" where
  "jr_inv r \<longleftrightarrow> om_inv (exJobs r) \<and> (\<forall>p\<in>set (exJobs r). jx_fine (lastHeight r) p)"

datatype 'j jr_event =
    NewJob int 'j
  | Tick int int u32
  | SendLatest int

fun jr_step :: "(int \<Rightarrow> 'a stratum_job_scheme \<Rightarrow> 'a stratum_job_scheme job_repository \<Rightarrow> 'a stratum_job_scheme job_repository) \<Rightarrow>
    'a stratum_job_scheme job_repository \<Rightarrow> 'a stratum_job_scheme jr_event \<Rightarrow> 'a stratum_job_scheme job_repository option" where
  "jr_step broadcast r (NewJob now sjob) = Some (dispatchStratumJob (broadcast now) sjob r)"
| "jr_step broadcast r (Tick now now2 nowTs) = Some (jr_tick now now2 nowTs r)"
| "jr_step broadcast r (SendLatest now) = Some (sendLatestMiningNotify now r)"

fun jr_ok :: "('j \<Rightarrow> bool) \<Rightarrow> 'j jr_event \<Rightarrow> bool" where
  "jr_ok ok (NewJob now sjob) = ok sjob"
| "jr_ok ok _ = True"

lemma mark_all_props [simp]: "om_inv (mark_all m) = om_inv m" "fst ` set (mark_all m) = fst ` set m"
  by (auto simp: mark_all_def om_inv_def comp_def case_prod_beta image_image)

lemma set_mark_all: "(k, x) \<in> set (mark_all m) \<longleftrightarrow> (\<exists>y. (k, y) \<in> set m \<and> x = markStale y)"
  by (force simp: mark_all_def)

lemma set_om_update: "om_inv m \<Longrightarrow> set (om_update k v m) = insert (k, v) {p \<in> set m. fst p \<noteq> k}"
proof (induction k v m rule: om_update.induct)
  case (2 k v a b m)
  have "\<forall>p\<in>set m. fst p \<noteq> a" "k < a \<Longrightarrow> \<forall>p\<in>set m. fst p \<noteq> k" using 2(2) by (auto simp: om_inv_Cons)
  then show ?case using 2 by (auto simp: om_inv_Cons)
qed simp

lemma jr_inv_log [simp]:
  "jr_inv (r\<lparr>jr_sent := s, lastJobSendTime := t, lastJobId := i, lastJobHeight := h\<rparr>) = jr_inv r"
  "jr_inv (r\<lparr>lastVoters := v\<rparr>) = jr_inv r"
  by (simp_all add: jr_inv_def)

lemma jr_inv_sendMiningNotify [simp]: "jr_inv (sendMiningNotify now x r) = jr_inv r"
  by (simp add: sendMiningNotify_def jr_inv_def)

lemma jr_inv_clean [simp]: "jr_inv r \<Longrightarrow> jr_inv (tryCleanExpiredJobs t r)"
proof -
  assume r: "jr_inv r"
  obtain n where n: "clean_loop t (kMaxJobsLifeTime r) (exJobs r) = drop n (exJobs r)"
    using clean_loop_suffix by blast
  have "set (drop n (exJobs r)) \<subseteq> set (exJobs r)" by (rule set_drop_subset)
  then show ?thesis using r by (simp add: tryCleanExpiredJobs_def jr_inv_def n) blast
qed

lemma jr_inv_tick: "jr_inv r \<Longrightarrow> jr_inv (jr_tick now now2 t r)"
  by (simp add: jr_tick_def checkAndSendMiningNotify_def)

lemma jr_inv_sendLatest: "jr_inv r \<Longrightarrow> jr_inv (sendLatestMiningNotify now r)"
  by (simp add: sendLatestMiningNotify_def split: option.splits)

text \<open>A repository that takes in a job of a new height, marking all others stale, or of an old one.\<close>

lemma jr_inv_insert:
  assumes "jr_inv r" and c: "c \<longleftrightarrow> sj_height j > lastHeight r"
    and e: "exJobs r' = om_update (sj_jobId j) x (if c then mark_all (exJobs r) else exJobs r)"
    and h: "lastHeight r' = max (lastHeight r) (sj_height j)"
    and x: "jx_sjob x = j" "\<not> isStale x"
  shows "jr_inv r'"
proof -
  let ?m = "if c then mark_all (exJobs r) else exJobs r"
  have inv: "om_inv (exJobs r)" using assms(1) by (simp add: jr_inv_def)
  have "jx_fine (lastHeight r') (k, y)" if "(k, y) \<in> set ?m" for k y
  proof -
    obtain z where z: "(k, z) \<in> set (exJobs r)" "jx_sjob y = jx_sjob z" "\<not> c \<longrightarrow> y = z"
      using \<open>(k, y) \<in> set ?m\<close> by (auto simp: set_mark_all markStale_def split: if_splits)
    then have "jx_fine (lastHeight r) (k, z)" using assms(1) unfolding jr_inv_def by blast
    then show ?thesis using z c h by auto
  qed
  moreover have "om_inv ?m" using inv by simp
  ultimately show ?thesis using x e h inv by (auto simp: jr_inv_def set_om_update)
qed

text \<open>
  The contract of a broadcast that follows the height of the chain. A job the policy takes
  (\<open>ok\<close>), after the chain's own preparation (\<open>prep\<close>), enters the repository with everything
  else marked stale if its height is new, and is then sent; otherwise it is sent only if it has
  the current height.
\<close>

locale height_policy =
  fixes broadcast :: "int \<Rightarrow> 'a stratum_job_scheme \<Rightarrow> 'a stratum_job_scheme job_repository \<Rightarrow> 'a stratum_job_scheme job_repository"
    and ok :: "'a stratum_job_scheme \<Rightarrow> bool"
    and prep :: "'a stratum_job_scheme \<Rightarrow> 'a stratum_job_scheme"
  assumes prep_same: "sj_jobId (prep j) = sj_jobId j" "sj_height (prep j) = sj_height j"
    and bc_jobs: "ok j \<Longrightarrow> exJobs (broadcast now j r) = om_update (sj_jobId j)
        \<lparr>jx_state = 0, jx_chainId = jr_chainId r, jx_isClean = sj_height j > lastHeight r, jx_sjob = prep j\<rparr>
        (if sj_height j > lastHeight r then mark_all (exJobs r) else exJobs r)"
    and bc_height: "ok j \<Longrightarrow> lastHeight (broadcast now j r) = max (lastHeight r) (sj_height j)"
    and bc_new: "ok j \<Longrightarrow> sj_height j > lastHeight r \<Longrightarrow> jr_sent (broadcast now j r) = jr_sent r @
        [\<lparr>jx_state = 0, jx_chainId = jr_chainId r, jx_isClean = True, jx_sjob = prep j\<rparr>]"
    and bc_old: "ok j \<Longrightarrow> sj_height j < lastHeight r \<Longrightarrow> jr_sent (broadcast now j r) = jr_sent r"
begin

lemma broadcast_inv: "jr_inv r \<Longrightarrow> ok j \<Longrightarrow> jr_inv (broadcast now j r)"
  using bc_jobs [of j now r] bc_height [of j now r] prep_same [of j]
  by (intro jr_inv_insert [of r "sj_height j > lastHeight r" "prep j" "broadcast now j r"]) (auto simp: isStale_def)

lemma step_inv: "jr_inv r \<Longrightarrow> jr_ok ok e \<Longrightarrow> \<exists>r'. jr_step broadcast r e = Some r' \<and> jr_inv r'"
  by (cases e) (auto simp: dispatchStratumJob_def jr_inv_tick jr_inv_sendLatest broadcast_inv split: option.splits)

text \<open>After a job of a new height every other job is stale.\<close>

lemma new_height_stale:
  assumes "jr_inv r" "ok j" "sj_height j > lastHeight r" "getStratumJobEx k (broadcast now j r) = Some x" "k \<noteq> sj_jobId j"
  shows "isStale x"
proof -
  have i: "om_inv (exJobs r)" using assms(1) by (simp add: jr_inv_def)
  have "om_find (mark_all (exJobs r)) k = Some x" using assms bc_jobs [of j now r] i by (simp add: getStratumJobEx_def)
  then have "(k, x) \<in> set (mark_all (exJobs r))" using om_find_in_set i by (metis mark_all_props(1))
  then show ?thesis by (auto simp: set_mark_all isStale_def markStale_def)
qed

end

sublocale height_policy \<subseteq> event_handler "jr_step broadcast" jr_inv "jr_ok ok"
  by unfold_locales (rule step_inv)

lemmas broadcast_defs = insertJob_def createStratumJobEx_def sendMiningNotify_def Let_def

interpretation hp_height: height_policy broadcast_height "\<lambda>_. True" id
  by unfold_locales (auto simp: broadcast_height_def broadcast_defs)

interpretation hp_decred: height_policy broadcast_decred "\<lambda>_. True" id
  by unfold_locales (auto simp: broadcast_decred_def broadcast_defs)

interpretation hp_eth: height_policy broadcast_eth "\<lambda>_. True" id
  by unfold_locales (auto simp: broadcast_eth_def broadcast_defs split: option.splits)

text \<open>Bitcoin follows the policy for its own jobs, those without an upstream pool.\<close>

definition btc_own :: "server_bitcoin \<Rightarrow> sjob_bitcoin \<Rightarrow> bool" where
  "btc_own srv j \<longleftrightarrow> \<not> btc_discarded srv j \<and> sb_proxyJobDifficulty j = 0"

lemma btc_subpool_same [simp]:
  "sj_jobId (btc_subpool srv j) = sj_jobId j" "sj_height (btc_subpool srv j) = sj_height j"
  "sb_proxyJobDifficulty (btc_subpool srv j) = sb_proxyJobDifficulty j"
  by (auto simp: btc_subpool_def split: option.splits)

interpretation hp_btc: height_policy "broadcast_bitcoin srv" "btc_own srv" "btc_subpool srv" for srv
  by unfold_locales (auto simp: broadcast_bitcoin_def btc_own_def broadcast_defs split: option.splits)

lemma jr_inv_new: "jr_inv (jr_new c)"
  by (simp add: jr_inv_def jr_new_def)

lemma jr_inv_find:
  assumes "jr_inv r" "getStratumJobEx k r = Some x"
  shows "jx_fine (lastHeight r) (k, x)"
proof -
  have "(k, x) \<in> set (exJobs r)" using assms om_find_in_set [of "exJobs r"] by (simp add: getStratumJobEx_def jr_inv_def)
  then show ?thesis using assms(1) unfolding jr_inv_def by blast
qed


text \<open>A job for the witnesses.\<close>

definition btc_job :: "u64 \<Rightarrow> nat \<Rightarrow> sjob_bitcoin" where
  "btc_job i h = \<lparr>sj_jobId = i, sj_height = h, sb_prevHash = [], sb_coinbase1 = [], sb_grandCoinbase1 = [],
     sb_coinbase2 = [], sb_merkleBranch = [], sb_subPool = Map.empty, sb_nVersion = 0, sb_nBits = 0, sb_nTime = 0,
     sb_minTime = 0, sb_networkTarget = [], sb_proxyExtraNonce2Size = 0, sb_proxyJobDifficulty = 0,
     sb_isMergedMiningCleanJob = False, sb_prevHashBeStr = [], sb_nmcAuxBits = 0, sb_nmcAuxBlockHash = [],
     sb_nmcNetworkTarget = [], sb_nmcRpcAddr = [], sb_nmcRpcUserpass = [], sb_blockHashForMergedMining = [],
     sb_rskNetworkTarget = [], sb_rskdRpcAddress = [], sb_rskdRpcUserPwd = [], sb_feesForMiner = []\<rparr>"

definition btc_server :: server_bitcoin where
  "btc_server = \<lparr>srv_extraNonce2Size = 8, srv_subPoolEnabled = False, srv_subPoolName = [], srv_versionMask = 0\<rparr>"

lemma btc_own_job: "btc_own btc_server (btc_job i h)"
  by (simp add: btc_own_def btc_discarded_def btc_job_def)




text \<open>
  C23. \<open>tryCleanExpiredJobs\<close> removes exactly the expired jobs, except that the newest job is kept
  when all have expired; so a repository that holds a job never becomes empty.
\<close>

theorem tryCleanExpiredJobs_exact:
  assumes "om_inv (exJobs r)" "exJobs r \<noteq> []"
  shows "exJobs (tryCleanExpiredJobs t r) =
     (let k = filter (\<lambda>p. \<not> job_expired t (kMaxJobsLifeTime r) (fst p)) (exJobs r)
      in if k = [] then [last (exJobs r)] else k) \<and> exJobs (tryCleanExpiredJobs t r) \<noteq> []"
  using clean_loop_filter [OF assms] assms(2) by (auto simp: tryCleanExpiredJobs_def Let_def)

theorem tryCleanExpiredJobs_exact_witness:
  "let r = (jr_new 0)\<lparr>exJobs := [(0x100000000, createStratumJobEx (btc_job 0x100000000 7) True (jr_new 0)), (0x3E800000000, createStratumJobEx (btc_job 0x3E800000000 8) True (jr_new 0))]\<rparr>
   in exJobs (tryCleanExpiredJobs 1000 r) = [(0x3E800000000, createStratumJobEx (btc_job 0x3E800000000 8) True (jr_new 0))]"
proof -
  let ?r = "(jr_new 0)\<lparr>exJobs := [(0x100000000, createStratumJobEx (btc_job 0x100000000 7) True (jr_new 0)), (0x3E800000000, createStratumJobEx (btc_job 0x3E800000000 8) True (jr_new 0))]\<rparr>"
  have "om_inv (exJobs ?r)" "exJobs ?r \<noteq> []" by (simp_all add: om_inv_def)
  from tryCleanExpiredJobs_exact [OF this, of 1000] show ?thesis
    by (simp add: jr_new_def job_expired_def drop_bit_eq_div)
qed

end
