(* ===== verification/Merkle.thy ===== *)
theory Merkle
  imports Pool_Prelude
begin

text \<open>
  Merkle trees: \<open>makeMerkleBranch\<close> of \<open>bitcoin/StratumBitcoin.cc\<close>, \<open>ComputeCoinbaseMerkleRoot\<close> and
  \<open>MerkleComputation\<close> of \<open>bitcoin/BitcoinUtils.cc\<close>. The hash of two nodes is a parameter \<open>h\<close>; hashes are
  of any type. \<open>merkle_root\<close> is the tree of the Bitcoin protocol, level by level, with the
  last node of an odd level taken twice.

  Proved are that the branch sent to miners leads from any coinbase to the root of the
  whole tree, and that the constant-space calculator gives the root and a branch that leads
  from the chosen leaf to it.
\<close>

section \<open>The tree, level by level\<close>

fun pair_up :: "('a \<Rightarrow> 'a \<Rightarrow> 'a) \<Rightarrow> 'a list \<Rightarrow> 'a list" where
  "pair_up h [] = []"
| "pair_up h [x] = [h x x]"
| "pair_up h (x # y # xs) = h x y # pair_up h xs"

lemma length_pair_up [simp]: "length (pair_up h xs) = (length xs + 1) div 2"
  by (induction h xs rule: pair_up.induct) simp_all

function merkle_root :: "('a \<Rightarrow> 'a \<Rightarrow> 'a) \<Rightarrow> 'a \<Rightarrow> 'a list \<Rightarrow> 'a" where
  "merkle_root h z xs = (if length xs > 1 then merkle_root h z (pair_up h xs) else if xs = [] then z else hd xs)"
  by pat_completeness auto
termination
  by (relation "measure (\<lambda>(h, z, xs). length xs)") auto

declare merkle_root.simps [simp del]

section \<open>The branch of the coinbase\<close>

text \<open>
  One round of \<open>makeMerkleBranch\<close> merges in place: position \<open>i\<close> is written while positions
  \<open>2 i + 1\<close> and \<open>2 i + 2\<close> are read.
\<close>

fun merge_loop :: "('a \<Rightarrow> 'a \<Rightarrow> 'a) \<Rightarrow> nat \<Rightarrow> nat \<Rightarrow> 'a list \<Rightarrow> 'a list" where
  "merge_loop h i 0 hashs = hashs"
| "merge_loop h i (Suc k) hashs = merge_loop h (i + 1) k (hashs[i := h (hashs ! (i * 2 + 1)) (hashs ! (i * 2 + 2))])"

lemma length_merge_loop [simp]: "length (merge_loop h i k hashs) = length hashs"
  by (induction h i k hashs rule: merge_loop.induct) simp_all

definition merge_round :: "('a \<Rightarrow> 'a \<Rightarrow> 'a) \<Rightarrow> 'a list \<Rightarrow> 'a list" where
  "merge_round h hashs =
     (let hashs = (if length hashs mod 2 = 0 then hashs @ [last hashs] else hashs);
          n = (length hashs - 1) div 2
      in take n (merge_loop h 0 n hashs))"

lemma length_merge_round: "hashs \<noteq> [] \<Longrightarrow> length (merge_round h hashs) = length hashs div 2"
  by (cases hashs) (auto simp: merge_round_def Let_def; presburger)+

function branch_loop :: "('a \<Rightarrow> 'a \<Rightarrow> 'a) \<Rightarrow> 'a list \<Rightarrow> 'a list \<Rightarrow> 'a list" where
  "branch_loop h hashs steps =
     (if length hashs > 1 then branch_loop h (merge_round h hashs) (steps @ [hd hashs]) else steps @ [hd hashs])"
  by pat_completeness auto
termination
proof (relation "measure (\<lambda>(h, hashs, steps). length hashs)", goal_cases)
  case (2 h hashs steps)
  then show ?case using length_merge_round [of hashs h] by (cases hashs) auto
qed simp

declare branch_loop.simps [simp del]

definition makeMerkleBranch :: "('a \<Rightarrow> 'a \<Rightarrow> 'a) \<Rightarrow> 'a list \<Rightarrow> 'a list" where
  "makeMerkleBranch h vtxhashs = (if length vtxhashs = 0 then [] else branch_loop h vtxhashs [])"

definition ComputeCoinbaseMerkleRoot :: "(bytes \<Rightarrow> bytes) \<Rightarrow> bytes \<Rightarrow> bytes list \<Rightarrow> bytes" where
  "ComputeCoinbaseMerkleRoot Hash coinbaseBin merkleBranch =
     foldl (\<lambda>root step. Hash (root @ step)) (Hash coinbaseBin) merkleBranch"

section \<open>The branch leads to the root\<close>

lemma merge_loop_nth:
  assumes "2 * (i + k) < length hashs"
  shows "j < length hashs \<Longrightarrow> merge_loop h i k hashs ! j =
     (if i \<le> j \<and> j < i + k then h (hashs ! (j * 2 + 1)) (hashs ! (j * 2 + 2)) else hashs ! j)"
  using assms
proof (induction h i k hashs rule: merge_loop.induct)
  case (2 h i k hashs)
  let ?h = "hashs[i := h (hashs ! (i * 2 + 1)) (hashs ! (i * 2 + 2))]"
  have "merge_loop h (i + 1) k ?h ! j =
      (if i + 1 \<le> j \<and> j < i + 1 + k then h (?h ! (j * 2 + 1)) (?h ! (j * 2 + 2)) else ?h ! j)"
    using 2 by simp
  then show ?case using 2(2,3) by (auto simp: nth_list_update)
qed auto

lemma pair_up_nth:
  "i < length (pair_up h xs) \<Longrightarrow>
   pair_up h xs ! i = (if 2 * i + 1 < length xs then h (xs ! (2 * i)) (xs ! (2 * i + 1)) else h (xs ! (2 * i)) (xs ! (2 * i)))"
proof (induction h xs arbitrary: i rule: pair_up.induct)
  case (3 h x y xs)
  then show ?case by (cases i) auto
qed auto

lemma merge_round_pair_up:
  assumes "xs \<noteq> []"
  shows "merge_round h xs = tl (pair_up h (c # xs))"
proof (rule nth_equalityI)
  show l: "length (merge_round h xs) = length (tl (pair_up h (c # xs)))"
    using assms length_merge_round [OF assms, of h] by simp
  fix i assume i: "i < length (merge_round h xs)"
  then have i2: "i < length xs div 2" using length_merge_round [OF assms] by metis
  define ys where "ys = (if length xs mod 2 = 0 then xs @ [last xs] else xs)"
  define n where "n = (length ys - 1) div 2"
  have n: "n = length xs div 2" "2 * n < length ys"
    unfolding n_def ys_def using assms by (cases xs; auto; presburger)+
  have "merge_round h xs ! i = merge_loop h 0 n ys ! i"
    using i2 n(1) by (simp add: merge_round_def Let_def ys_def n_def)
  also have "\<dots> = h (ys ! (i * 2 + 1)) (ys ! (i * 2 + 2))"
    using merge_loop_nth [of 0 n ys i h] n i2 by simp
  also have "\<dots> = pair_up h (c # xs) ! Suc i"
  proof -
    have s: "Suc i < length (pair_up h (c # xs))" using i2 by simp
    have "i * 2 + 1 < length xs" using i2 by linarith
    then have y1: "ys ! (i * 2 + 1) = xs ! (i * 2 + 1)" by (simp add: ys_def nth_append)
    show ?thesis
    proof (cases "i * 2 + 2 < length xs")
      case True
      then have "ys ! (i * 2 + 2) = xs ! (i * 2 + 2)" by (simp add: ys_def nth_append)
      then show ?thesis using pair_up_nth [OF s] y1 True by (simp add: mult.commute)
    next
      case False
      then have e: "length xs = i * 2 + 2" using i2 by linarith
      then have "ys ! (i * 2 + 2) = xs ! (i * 2 + 1)" using assms by (simp add: ys_def nth_append last_conv_nth)
      then show ?thesis using pair_up_nth [OF s] y1 e by (simp add: mult.commute)
    qed
  qed
  also have "\<dots> = tl (pair_up h (c # xs)) ! i" using i l by (simp add: nth_tl)
  finally show "merge_round h xs ! i = tl (pair_up h (c # xs)) ! i" .
qed

lemma branch_loop_root:
  "xs \<noteq> [] \<Longrightarrow> foldl h c (branch_loop h xs steps) = merkle_root h z (foldl h c steps # xs)"
proof (induction h xs steps rule: branch_loop.induct)
  case (1 h xs steps)
  let ?c = "foldl h c steps"
  obtain x ys where xs: "xs = x # ys" using 1(2) by (cases xs) auto
  have p: "pair_up h (?c # xs) = h ?c x # merge_round h xs"
    using merge_round_pair_up [OF 1(2), of h ?c] by (simp add: xs)
  have r: "merkle_root h z (?c # xs) = merkle_root h z (pair_up h (?c # xs))"
    by (subst merkle_root.simps) (simp add: xs)
  show ?case
  proof (cases "length xs > 1")
    case True
    have "merge_round h xs \<noteq> []" using True length_merge_round [OF 1(2), of h] by force
    then have "foldl h c (branch_loop h (merge_round h xs) (steps @ [hd xs])) =
        merkle_root h z (foldl h c (steps @ [hd xs]) # merge_round h xs)" using 1(1) True by simp
    then show ?thesis using True r p by (subst branch_loop.simps) (simp add: xs)
  next
    case False
    then have y: "ys = []" by (simp add: xs)
    have "merge_round h xs = []" using length_merge_round [OF 1(2), of h] False by (simp add: xs y)
    then have "merkle_root h z (?c # xs) = h ?c x" unfolding r p by (subst merkle_root.simps) simp
    then show ?thesis using False by (subst branch_loop.simps) (simp add: xs)
  qed
qed

text \<open>
  C16. Whatever coinbase the miner builds, hashing it up the branch made from the other
  transactions gives the root of the tree over the coinbase and these transactions.
\<close>

theorem merkle_branch_root:
  "foldl h c (makeMerkleBranch h txs) = merkle_root h z (c # txs)"
proof (cases "txs = []")
  case True
  then show ?thesis by (simp add: makeMerkleBranch_def merkle_root.simps)
next
  case False
  then show ?thesis using branch_loop_root [OF False, of h c "[]" z] by (simp add: makeMerkleBranch_def)
qed

section \<open>The constant-space calculator\<close>

text \<open>
  \<open>MerkleComputation\<close> with \<open>pbranch\<close> given. \<open>count\<close> is a 32-bit number in the code; with at most
  \<open>2^31\<close> leaves it never wraps. \<open>inner\<close> has 32 entries: a level of 32 is an access outside it.
  One step at a level where the bit of \<open>count\<close> is zero combines \<open>h\<close> with \<open>inner[level]\<close>.
\<close>

record 'a mc_state =
  mc_h :: 'a
  mc_matchh :: bool
  mc_branch :: "'a list"
  mc_mutated :: bool

definition mc_combine :: "('a \<Rightarrow> 'a \<Rightarrow> 'a) \<Rightarrow> 'a list \<Rightarrow> int \<Rightarrow> nat \<Rightarrow> 'a mc_state \<Rightarrow> 'a mc_state" where
  "mc_combine h inner matchlevel level st =
     \<lparr>mc_h = h (inner ! level) (mc_h st),
      mc_matchh = (mc_matchh st \<or> matchlevel = int level),
      mc_branch = (if mc_matchh st then mc_branch st @ [inner ! level]
                   else if matchlevel = int level then mc_branch st @ [mc_h st] else mc_branch st),
      mc_mutated = (mc_mutated st \<or> inner ! level = mc_h st)\<rparr>"

function mc_up :: "('a \<Rightarrow> 'a \<Rightarrow> 'a) \<Rightarrow> nat \<Rightarrow> 'a list \<Rightarrow> int \<Rightarrow> nat \<Rightarrow> 'a mc_state \<Rightarrow> (nat \<times> 'a mc_state) option" where
  "mc_up h count inner matchlevel level st =
     (if level \<ge> 32 then None
      else if bit count level then Some (level, st)
      else mc_up h count inner matchlevel (level + 1) (mc_combine h inner matchlevel level st))"
  by pat_completeness auto
termination
  by (relation "measure (\<lambda>(h, count, inner, ml, level, st). 32 - level)") auto

declare mc_up.simps [simp del]

text \<open>The first loop: every leaf is stored after it has been combined upwards.\<close>

fun mc_leaves :: "('a \<Rightarrow> 'a \<Rightarrow> 'a) \<Rightarrow> nat \<Rightarrow> 'a list \<Rightarrow> nat \<times> 'a list \<times> int \<times> 'a list \<times> bool \<Rightarrow>
    (nat \<times> 'a list \<times> int \<times> 'a list \<times> bool) option" where
  "mc_leaves h branchpos [] s = Some s"
| "mc_leaves h branchpos (leaf # leaves) (count, inner, matchlevel, branch, mutated) =
     (case mc_up h (count + 1) inner matchlevel 0
             \<lparr>mc_h = leaf, mc_matchh = (count = branchpos), mc_branch = branch, mc_mutated = mutated\<rparr> of
        None \<Rightarrow> None
      | Some (level, st) \<Rightarrow>
          mc_leaves h branchpos leaves (count + 1, inner[level := mc_h st],
            (if mc_matchh st then int level else matchlevel), mc_branch st, mc_mutated st))"

lemma mc_up_level: "mc_up h c inner ml level st = Some (level', st') \<Longrightarrow> level \<le> level' \<and> level' < 32 \<and> bit c level'"
  by (induction h c inner ml level st rule: mc_up.induct) (subst (asm) (2) mc_up.simps, auto split: if_splits)

text \<open>The final sweep: the last node of an odd level is combined with itself.\<close>

function mc_sweep :: "('a \<Rightarrow> 'a \<Rightarrow> 'a) \<Rightarrow> 'a list \<Rightarrow> int \<Rightarrow> nat \<Rightarrow> nat \<Rightarrow> 'a mc_state \<Rightarrow> 'a mc_state option" where
  "mc_sweep h inner matchlevel count level st =
     (if level \<ge> 32 then None
      else if count = 2 ^ level then Some st
      else case mc_up h (count + 2 ^ level) inner matchlevel (level + 1)
                  (st\<lparr>mc_branch := (if mc_matchh st then mc_branch st @ [mc_h st] else mc_branch st),
                      mc_h := h (mc_h st) (mc_h st)\<rparr>) of
             None \<Rightarrow> None
           | Some (level', st') \<Rightarrow> mc_sweep h inner matchlevel (count + 2 ^ level) level' (st'\<lparr>mc_mutated := mc_mutated st\<rparr>))"
  by pat_completeness auto
termination
proof (relation "measure (\<lambda>(h, inner, ml, count, level, st). 32 - level)", goal_cases)
  case (2 h inner ml count level st a level' st')
  then show ?case using mc_up_level [of h "count + 2 ^ level" inner ml "level + 1"] by fastforce
qed simp

declare mc_sweep.simps [simp del]

function mc_lowest :: "nat \<Rightarrow> nat \<Rightarrow> nat option" where
  "mc_lowest count level = (if level \<ge> 32 then None else if bit count level then Some level else mc_lowest count (level + 1))"
  by pat_completeness auto
termination
  by (relation "measure (\<lambda>(count, level). 32 - level)") auto

declare mc_lowest.simps [simp del]

definition MerkleComputation :: "('a \<Rightarrow> 'a \<Rightarrow> 'a) \<Rightarrow> 'a \<Rightarrow> 'a list \<Rightarrow> nat \<Rightarrow> ('a \<times> bool \<times> 'a list) option" where
  "MerkleComputation h z leaves branchpos =
     (if length leaves = 0 then Some (z, False, [])
      else do {
        (count, inner, matchlevel, branch, mutated) \<leftarrow> mc_leaves h branchpos leaves (0, replicate 32 z, - 1, [], False);
        level \<leftarrow> mc_lowest count 0;
        st \<leftarrow> mc_sweep h inner matchlevel count level
          \<lparr>mc_h = inner ! level, mc_matchh = (matchlevel = int level), mc_branch = branch, mc_mutated = mutated\<rparr>;
        Some (mc_h st, mutated, mc_branch st)
      })"

definition ComputeMerkleBranch :: "('a \<Rightarrow> 'a \<Rightarrow> 'a) \<Rightarrow> 'a \<Rightarrow> 'a list \<Rightarrow> nat \<Rightarrow> 'a list option" where
  "ComputeMerkleBranch h z leaves position = map_option (\<lambda>(_, _, b). b) (MerkleComputation h z leaves position)"

section \<open>The calculator gives the root and a branch to it\<close>

text \<open>The nodes of one level, and the way from a leaf up its branch.\<close>

fun lev :: "('a \<Rightarrow> 'a \<Rightarrow> 'a) \<Rightarrow> 'a list \<Rightarrow> nat \<Rightarrow> 'a list" where
  "lev h xs 0 = xs"
| "lev h xs (Suc l) = pair_up h (lev h xs l)"

fun from_branch :: "('a \<Rightarrow> 'a \<Rightarrow> 'a) \<Rightarrow> 'a \<Rightarrow> 'a list \<Rightarrow> nat \<Rightarrow> 'a" where
  "from_branch h x [] p = x"
| "from_branch h x (s # ss) p = from_branch h (if odd p then h s x else h x s) ss (p div 2)"

lemma from_branch_snoc:
  "from_branch h x (ss @ [s]) p =
     (let y = from_branch h x ss p in if odd (p div 2 ^ length ss) then h s y else h y s)"
  by (induction h x ss p rule: from_branch.induct) (simp_all add: Let_def div_mult2_eq)

definition on_path :: "('a \<Rightarrow> 'a \<Rightarrow> 'a) \<Rightarrow> 'a list \<Rightarrow> nat \<Rightarrow> nat \<Rightarrow> 'a list \<Rightarrow> bool" where
  "on_path h xs p l b \<longleftrightarrow> length b = l \<and> from_branch h (xs ! p) b p = lev h xs l ! (p div 2 ^ l)"

lemma lev_up:
  assumes "i < length (lev h xs (Suc l))"
  shows "lev h xs (Suc l) ! i = (if 2 * i + 1 < length (lev h xs l)
     then h (lev h xs l ! (2 * i)) (lev h xs l ! (2 * i + 1)) else h (lev h xs l ! (2 * i)) (lev h xs l ! (2 * i)))"
  using pair_up_nth [of i h "lev h xs l"] assms by simp

lemma length_lev: "length (lev h xs l) = (length xs + (2 ^ l - 1)) div 2 ^ l"
proof (induction l)
  case (Suc l)
  have "((n + (2 ^ l - 1)) div 2 ^ l + 1) div 2 = (n + (2 * 2 ^ l - 1)) div (2 * 2 ^ l)" for n :: nat
  proof -
    have "(n + (2 ^ l - 1)) div 2 ^ l + 1 = (n + (2 ^ l - 1) + 2 ^ l) div 2 ^ l"
      by (rule div_add_self2 [symmetric]) simp
    also have "n + (2 ^ l - 1) + 2 ^ l = n + (2 * 2 ^ l - 1)" by (simp add: algebra_simps)
    finally show ?thesis by (metis div_mult2_eq mult.commute)
  qed
  then show ?case using Suc by simp
qed simp

lemma path_up:
  assumes "on_path h xs p l b" "p div 2 ^ l < length (lev h xs l)"
    "s = (if odd (p div 2 ^ l) then lev h xs l ! (p div 2 ^ l - 1)
          else if p div 2 ^ l + 1 < length (lev h xs l) then lev h xs l ! (p div 2 ^ l + 1) else lev h xs l ! (p div 2 ^ l))"
  shows "on_path h xs p (Suc l) (b @ [s])"
proof -
  define i where "i = p div 2 ^ Suc l"
  have i: "i = p div 2 ^ l div 2" by (metis i_def div_mult2_eq power_Suc2)
  have ii: "p div (2 * 2 ^ l) = i" by (simp add: i_def)
  have "i < length (lev h xs (Suc l))" using assms(2) i by simp
  note up = lev_up [OF this]
  show ?thesis
  proof (cases "odd (p div 2 ^ l)")
    case True
    then have "p div 2 ^ l = 2 * i + 1" unfolding i by (metis odd_two_times_div_two_succ)
    then show ?thesis using assms up True by (simp add: on_path_def from_branch_snoc Let_def ii)
  next
    case False
    then have "p div 2 ^ l = 2 * i" unfolding i by (metis even_two_times_div_two)
    then show ?thesis using assms up False by (auto simp: on_path_def from_branch_snoc Let_def ii)
  qed
qed

lemma not_bit_dvd:
  assumes "2 ^ l dvd c" "\<not> bit c l"
  shows "2 ^ Suc l dvd (c :: nat)"
proof -
  obtain m where m: "c = 2 ^ l * m" using assms(1) by (elim dvdE)
  then have "even m" using assms(2) by (simp add: bit_iff_odd)
  then show ?thesis unfolding m by (auto elim!: evenE)
qed

lemma pow_dvd_less: "2 ^ l dvd c \<Longrightarrow> 0 < c \<Longrightarrow> c < 2 ^ k \<Longrightarrow> l < k" for c :: nat
  by (metis dvd_imp_le le_less_trans nat_power_less_imp_less numeral_2_eq_2 zero_less_Suc)

lemma mc_combine_up:
  assumes c: "2 ^ Suc l dvd c" "0 < c" "c div 2 ^ l \<le> length (lev h xs l)"
    and inner: "inner ! l = lev h xs l ! (c div 2 ^ l - 2)"
    and st: "mc_h st = lev h xs l ! (c div 2 ^ l - 1)"
      "mc_matchh st \<Longrightarrow> p div 2 ^ l = c div 2 ^ l - 1 \<and> on_path h xs p l (mc_branch st)"
      "\<not> mc_matchh st \<Longrightarrow> ml = int l \<Longrightarrow> p div 2 ^ l = c div 2 ^ l - 2 \<and> on_path h xs p l (mc_branch st)"
  defines "st' \<equiv> mc_combine h inner ml l st"
  shows "mc_h st' = lev h xs (Suc l) ! (c div 2 ^ Suc l - 1)"
    and "mc_matchh st' \<Longrightarrow> p div 2 ^ Suc l = c div 2 ^ Suc l - 1 \<and> on_path h xs p (Suc l) (mc_branch st')"
proof -
  obtain k where k: "c = 2 ^ Suc l * k" "0 < k" using c(1,2) by (auto elim!: dvdE)
  have d: "c div 2 ^ l = 2 * k" "c div 2 ^ Suc l = k" by (simp_all add: k mult.assoc mult.left_commute)
  have len: "2 * k \<le> length (lev h xs l)" using c(3) d by simp
  have i: "k - 1 < length (lev h xs (Suc l))" using len k(2) by simp
  have j: "2 * (k - 1) = 2 * k - 2" "2 * (k - 1) + 1 = 2 * k - 1" "2 * k - 1 < length (lev h xs l)" using k(2) len by linarith+
  have u: "lev h xs (Suc l) ! (k - 1) = h (lev h xs l ! (2 * k - 2)) (lev h xs l ! (2 * k - 1))"
    unfolding lev_up [OF i] j(2) using j(3) by (simp only: j(1) if_True)
  show "mc_h st' = lev h xs (Suc l) ! (c div 2 ^ Suc l - 1)"
    unfolding d(2) u st'_def mc_combine_def by (simp add: inner st(1) d(1))
  assume m: "mc_matchh st'"
  have half: "p div 2 ^ Suc l = p div 2 ^ l div 2" by (metis div_mult2_eq power_Suc2)
  show "p div 2 ^ Suc l = c div 2 ^ Suc l - 1 \<and> on_path h xs p (Suc l) (mc_branch st')"
  proof (cases "mc_matchh st")
    case True
    have p: "p div 2 ^ l = 2 * k - 1" "on_path h xs p l (mc_branch st)" using st(2) [OF True] d by auto
    have o: "odd (2 * k - 1)" using k(2) by simp
    have "on_path h xs p (Suc l) (mc_branch st @ [inner ! l])"
      by (rule path_up [OF p(2)]) (use p(1) len k(2) o inner d in \<open>auto simp: numeral_2_eq_2\<close>)
    moreover have "(2 * k - 1) div 2 = k - 1" using k(2) by linarith
    ultimately show ?thesis using True p(1) unfolding half d(2) st'_def mc_combine_def by simp
  next
    case False
    then have e: "ml = int l" using m by (simp add: st'_def mc_combine_def)
    have p: "p div 2 ^ l = 2 * k - 2" "on_path h xs p l (mc_branch st)" using st(3) [OF False e] d by auto
    have "2 * k - 2 + 1 = 2 * k - 1" "2 * k - 1 < length (lev h xs l)" using len k(2) by auto
    then have "on_path h xs p (Suc l) (mc_branch st @ [mc_h st])"
      by (intro path_up [OF p(2)]) (use p(1) len k(2) st(1) d in auto)
    moreover have "(2 * k - 2) div 2 = k - 1" by linarith
    ultimately show ?thesis using False e p(1) unfolding half d(2) st'_def mc_combine_def by simp
  qed
qed

definition mc_done :: "('a \<Rightarrow> 'a \<Rightarrow> 'a) \<Rightarrow> 'a list \<Rightarrow> nat \<Rightarrow> nat \<Rightarrow> int \<Rightarrow> nat \<Rightarrow> 'a mc_state \<Rightarrow> nat \<Rightarrow> 'a mc_state \<Rightarrow> bool" where
  "mc_done h xs p c ml level st level' st' \<longleftrightarrow>
     level \<le> level' \<and> bit c level' \<and> 2 ^ level' dvd c \<and>
     mc_h st' = lev h xs level' ! (c div 2 ^ level' - 1) \<and>
     (mc_matchh st' \<longrightarrow> p div 2 ^ level' = c div 2 ^ level' - 1 \<and> on_path h xs p level' (mc_branch st')) \<and>
     (mc_matchh st' \<longleftrightarrow> mc_matchh st \<or> (\<exists>l. ml = int l \<and> level \<le> l \<and> l < level')) \<and>
     (\<not> mc_matchh st' \<longrightarrow> mc_branch st' = mc_branch st)"

lemma mc_done_step:
  assumes "mc_done h xs p c ml (Suc level) (mc_combine h inner ml level st) level' st'"
  shows "mc_done h xs p c ml level st level' st'"
proof -
  have "ml = int level \<or> (\<exists>l. ml = int l \<and> Suc level \<le> l \<and> l < level') \<longleftrightarrow> (\<exists>l. ml = int l \<and> level \<le> l \<and> l < level')"
    if "Suc level \<le> level'"
    using that by (auto simp: Suc_le_eq le_less)
  then show ?thesis using assms by (auto simp: mc_done_def mc_combine_def)
qed

lemma mc_up_spec:
  assumes "\<And>l. level \<le> l \<Longrightarrow> c div 2 ^ l \<le> length (lev h xs l)" "0 < c" "c < 2 ^ 32"
    "\<And>l. level \<le> l \<Longrightarrow> 2 ^ Suc l dvd c \<Longrightarrow> inner ! l = lev h xs l ! (c div 2 ^ l - 2)"
    "2 ^ level dvd c" "mc_h st = lev h xs level ! (c div 2 ^ level - 1)"
    "mc_matchh st \<Longrightarrow> p div 2 ^ level = c div 2 ^ level - 1 \<and> on_path h xs p level (mc_branch st)"
    "\<And>l. \<not> mc_matchh st \<Longrightarrow> ml = int l \<Longrightarrow> level \<le> l \<Longrightarrow> 2 ^ Suc l dvd c \<Longrightarrow>
       p div 2 ^ l = c div 2 ^ l - 2 \<and> on_path h xs p l (mc_branch st)"
  shows "\<exists>level' st'. mc_up h c inner ml level st = Some (level', st') \<and> mc_done h xs p c ml level st level' st'"
  using assms(1,4-8)
proof (induction "32 - level" arbitrary: level st rule: less_induct)
  case less
  have l: "level < 32" by (rule pow_dvd_less [OF less(4) assms(2,3)])
  show ?case
  proof (cases "bit c level")
    case True
    then show ?thesis using less(4-6) l by (subst mc_up.simps) (auto simp: mc_done_def)
  next
    case False
    let ?st = "mc_combine h inner ml level st"
    have d: "2 ^ Suc level dvd c" by (rule not_bit_dvd [OF less(4) False])
    note up = mc_combine_up [OF d assms(2) less(2) [OF order_refl] less(3) [OF order_refl d] less(5,6)]
    have "\<exists>level' st'. mc_up h c inner ml (Suc level) ?st = Some (level', st') \<and> mc_done h xs p c ml (Suc level) ?st level' st'"
    proof (rule less(1))
      show "mc_h ?st = lev h xs (Suc level) ! (c div 2 ^ Suc level - 1)"
        by (rule up(1)) (use less(7) [OF _ _ order_refl d] in auto)
      show "p div 2 ^ Suc level = c div 2 ^ Suc level - 1 \<and> on_path h xs p (Suc level) (mc_branch ?st)" if "mc_matchh ?st"
        by (rule up(2) [OF _ _ that]) (use less(7) [OF _ _ order_refl d] in auto)
      show "p div 2 ^ l = c div 2 ^ l - 2 \<and> on_path h xs p l (mc_branch ?st)"
        if "\<not> mc_matchh ?st" "ml = int l" "Suc level \<le> l" "2 ^ Suc l dvd c" for l
        using less(7) [OF _ that(2) Suc_leD [OF that(3)] that(4)] that(1) by (simp add: mc_combine_def split: if_splits)
      show "inner ! l = lev h xs l ! (c div 2 ^ l - 2)" if "Suc level \<le> l" "2 ^ Suc l dvd c" for l
        by (rule less(3) [OF Suc_leD [OF that(1)] that(2)])
    qed (use l d less(2) in auto)
    then obtain level' st' where "mc_up h c inner ml (Suc level) ?st = Some (level', st')" "mc_done h xs p c ml level st level' st'"
      by (elim exE conjE) (drule mc_done_step, rule that)
    then show ?thesis using l False by (subst mc_up.simps) simp
  qed
qed

text \<open>Adding \<open>e\<close> to \<open>c\<close> carries up to level \<open>L\<close>, the lowest bit of the sum.\<close>

lemma div_borrow: "c + e = d * m \<Longrightarrow> 0 < e \<Longrightarrow> e \<le> d \<Longrightarrow> c div d = m - 1" for c :: nat
  by (cases m) (simp, intro div_nat_eqI, simp_all)

lemma carry_below:
  assumes "2 ^ Suc l dvd c + e" "0 < e" "e \<le> 2 ^ l"
  shows "bit c l" "c div 2 ^ l - 1 = (c + e) div 2 ^ l - (2 :: nat)"
proof -
  obtain k where k: "c + e = 2 ^ Suc l * k" using assms(1) by (elim dvdE)
  have "0 < k" using k assms(2) by (cases k) auto
  have q: "c div 2 ^ l = 2 * k - 1" using k assms(2,3) by (intro div_borrow) auto
  then show "bit c l" using \<open>0 < k\<close> by (simp add: bit_iff_odd)
  show "c div 2 ^ l - 1 = (c + e) div 2 ^ l - 2" unfolding q k by simp
qed

lemma carry_above:
  assumes "2 ^ L dvd c + e" "bit (c + e) L" "0 < e" "e \<le> 2 ^ L"
  shows "\<not> bit c L" "L < l \<Longrightarrow> c div 2 ^ l = (c + e :: nat) div 2 ^ l" "L < l \<Longrightarrow> bit c l = bit (c + e) l"
proof -
  obtain m where m: "c + e = 2 ^ L * m" using assms(1) by (elim dvdE)
  have o: "odd m" using assms(2) by (simp add: m bit_iff_odd)
  have q: "c div 2 ^ L = m - 1" by (rule div_borrow [OF m assms(3,4)])
  then show "\<not> bit c L" using o by (simp add: bit_iff_odd)
  have r: "c div 2 ^ l = (c + e) div 2 ^ l" if lt: "L < l" for l
  proof -
    obtain j where j: "l = Suc (L + j)" using less_imp_Suc_add [OF lt] by (elim exE)
    have h: "x div 2 ^ l = x div 2 ^ L div 2 div 2 ^ j" for x :: nat
      unfolding j by (simp add: power_add div_mult2_eq [symmetric] mult.commute mult.left_commute)
    have "(m - 1) div 2 = m div 2" using o by (elim oddE) simp
    then show ?thesis unfolding h q unfolding m by simp
  qed
  then show "L < l \<Longrightarrow> c div 2 ^ l = (c + e) div 2 ^ l" .
  show "bit c l = bit (c + e) l" if "L < l" unfolding bit_iff_odd r [OF that] by (rule refl)
qed

definition inner_ok :: "('a \<Rightarrow> 'a \<Rightarrow> 'a) \<Rightarrow> 'a list \<Rightarrow> nat \<Rightarrow> nat \<Rightarrow> 'a list \<Rightarrow> bool" where
  "inner_ok h xs c level inner \<longleftrightarrow> length inner = 32 \<and>
     (\<forall>l. level \<le> l \<and> l < 32 \<and> bit c l \<longrightarrow> inner ! l = lev h xs l ! (c div 2 ^ l - 1))"

definition pending :: "('a \<Rightarrow> 'a \<Rightarrow> 'a) \<Rightarrow> 'a list \<Rightarrow> nat \<Rightarrow> nat \<Rightarrow> nat \<Rightarrow> int \<Rightarrow> 'a list \<Rightarrow> bool" where
  "pending h xs p c level ml b \<longleftrightarrow>
     (\<exists>l\<ge>level. ml = int l \<and> bit c l \<and> p div 2 ^ l = c div 2 ^ l - 1 \<and> on_path h xs p l b)"

lemma mc_carry:
  assumes len: "\<And>l. level \<le> l \<Longrightarrow> (c + e) div 2 ^ l \<le> length (lev h xs l)" and c: "c + e < 2 ^ 32"
    and e: "0 < e" "e \<le> 2 ^ level" "2 ^ level dvd c + e"
    and inner: "inner_ok h xs c level inner"
    and st: "mc_h st = lev h xs level ! ((c + e) div 2 ^ level - 1)"
      "mc_matchh st \<Longrightarrow> p div 2 ^ level = (c + e) div 2 ^ level - 1 \<and> on_path h xs p level (mc_branch st)"
      "\<not> mc_matchh st \<Longrightarrow> pending h xs p c level ml (mc_branch st) \<or> ml = - 1"
  obtains level' st' where "mc_up h (c + e) inner ml level st = Some (level', st')"
    "mc_done h xs p (c + e) ml level st level' st'" "level' < 32" "inner_ok h xs (c + e) (Suc level') inner"
    "\<not> mc_matchh st' \<Longrightarrow> pending h xs p (c + e) (Suc level') ml (mc_branch st') \<or> ml = - 1"
proof -
  have lt: "l < 32" if "2 ^ Suc l dvd c + e" for l using pow_dvd_less [OF that _ c] e(1) by simp
  have le: "e \<le> 2 ^ l" if "level \<le> l" for l by (rule order_trans [OF e(2) power_increasing [OF that]]) simp
  have "\<exists>level' st'. mc_up h (c + e) inner ml level st = Some (level', st') \<and> mc_done h xs p (c + e) ml level st level' st'"
  proof (rule mc_up_spec [OF len])
    show "inner ! l = lev h xs l ! ((c + e) div 2 ^ l - 2)" if "level \<le> l" "2 ^ Suc l dvd c + e" for l
      using inner carry_below [OF that(2) e(1) le [OF that(1)]] that(1) lt [OF that(2)] by (simp add: inner_ok_def)
    show "p div 2 ^ l = (c + e) div 2 ^ l - 2 \<and> on_path h xs p l (mc_branch st)"
      if "\<not> mc_matchh st" "ml = int l" "level \<le> l" "2 ^ Suc l dvd c + e" for l
      using st(3) [OF that(1)] that(2) carry_below [OF that(4) e(1) le [OF that(3)]] by (auto simp: pending_def)
  qed (use c e st in auto)
  then obtain level' st' where r: "mc_up h (c + e) inner ml level st = Some (level', st')"
    "mc_done h xs p (c + e) ml level st level' st'" by (elim exE conjE)
  have d: "level \<le> level'" "2 ^ level' dvd c + e" "bit (c + e) level'" using r(2) by (simp_all add: mc_done_def)
  note up = carry_above [OF d(2,3) e(1) le [OF d(1)]]
  have "level' < 32" using mc_up_level [OF r(1)] by simp
  moreover have "inner_ok h xs (c + e) (Suc level') inner" using inner up d(1) by (simp add: inner_ok_def)
  moreover have "pending h xs p (c + e) (Suc level') ml (mc_branch st') \<or> ml = - 1" if "\<not> mc_matchh st'"
  proof -
    have m: "\<not> mc_matchh st" "mc_branch st' = mc_branch st" "\<And>l. ml = int l \<Longrightarrow> level \<le> l \<Longrightarrow> level' \<le> l"
      using r(2) that by (auto simp: mc_done_def not_less)
    then show ?thesis using st(3) up by (fastforce simp: pending_def Suc_le_eq le_less)
  qed
  ultimately show ?thesis using r that by blast
qed

lemma dvd_lowest_bit: "2 ^ L dvd c \<Longrightarrow> bit c l \<Longrightarrow> L \<le> l" for c :: nat
  by (elim dvdE) (simp add: bit_push_bit_iff flip: push_bit_eq_mult mult.commute [of _ "2 ^ L"])

lemma inner_ok_store:
  assumes "inner_ok h xs c (Suc l) inner" "2 ^ l dvd c" "x = lev h xs l ! (c div 2 ^ l - 1)"
  shows "inner_ok h xs c level (inner[l := x])"
  unfolding inner_ok_def
proof (intro conjI allI impI)
  fix k
  assume k: "level \<le> k \<and> k < 32 \<and> bit c k"
  then have "k = l \<or> Suc l \<le> k" using dvd_lowest_bit [OF assms(2), of k] by auto
  then show "inner[l := x] ! k = lev h xs k ! (c div 2 ^ k - 1)" using assms(1,3) k by (auto simp: inner_ok_def)
qed (use assms(1) in \<open>simp add: inner_ok_def\<close>)

definition leaves_inv :: "('a \<Rightarrow> 'a \<Rightarrow> 'a) \<Rightarrow> 'a list \<Rightarrow> nat \<Rightarrow> nat \<times> 'a list \<times> int \<times> 'a list \<times> bool \<Rightarrow> bool" where
  "leaves_inv h xs p s = (case s of (c, inner, ml, b, mut) \<Rightarrow> inner_ok h xs c 0 inner \<and>
     (if c \<le> p then ml = - 1 \<and> b = [] else pending h xs p c 0 ml b))"

lemma div_le_lev: "c \<le> length xs \<Longrightarrow> c div 2 ^ l \<le> length (lev h xs l)"
  unfolding length_lev by (intro div_le_mono trans_le_add1)

lemma mc_leaves_step:
  assumes "leaves_inv h xs p (c, inner, ml, b, mut)" "c < length xs" "length xs \<le> 2 ^ 31"
  obtains level st where "mc_up h (c + 1) inner ml 0 \<lparr>mc_h = xs ! c, mc_matchh = (c = p), mc_branch = b, mc_mutated = mut\<rparr> = Some (level, st)"
    "leaves_inv h xs p (c + 1, inner[level := mc_h st], (if mc_matchh st then int level else ml), mc_branch st, mc_mutated st)"
proof -
  let ?st = "\<lparr>mc_h = xs ! c, mc_matchh = (c = p), mc_branch = b, mc_mutated = mut\<rparr>"
  have "\<exists>level st. mc_up h (c + 1) inner ml 0 ?st = Some (level, st) \<and> mc_done h xs p (c + 1) ml 0 ?st level st \<and> level < 32 \<and>
     inner_ok h xs (c + 1) (Suc level) inner \<and> (\<not> mc_matchh st \<longrightarrow> pending h xs p (c + 1) (Suc level) ml (mc_branch st) \<or> ml = - 1)"
    by (rule mc_carry [of 0 c 1 h xs inner ?st p ml])
      (use assms div_le_lev [of "c + 1" xs] in \<open>auto simp: leaves_inv_def on_path_def split: if_splits\<close>)
  then obtain level st where r: "mc_up h (c + 1) inner ml 0 ?st = Some (level, st)" "mc_done h xs p (c + 1) ml 0 ?st level st"
     "inner_ok h xs (c + 1) (Suc level) inner" "\<not> mc_matchh st \<longrightarrow> pending h xs p (c + 1) (Suc level) ml (mc_branch st) \<or> ml = - 1"
    by (elim exE conjE)
  have "inner_ok h xs (c + 1) 0 (inner[level := mc_h st])"
    by (rule inner_ok_store [OF r(3)]) (use r(2) in \<open>simp_all add: mc_done_def\<close>)
  moreover have "if c + 1 \<le> p then (if mc_matchh st then int level else ml) = - 1 \<and> mc_branch st = []
     else pending h xs p (c + 1) 0 (if mc_matchh st then int level else ml) (mc_branch st)"
  proof (cases "mc_matchh st")
    case True
    then have "\<not> c + 1 \<le> p" using r(2) assms(1) by (auto simp: mc_done_def leaves_inv_def)
    then show ?thesis using True r(2) by (auto simp: mc_done_def pending_def)
  next
    case False
    then have "c \<noteq> p" "mc_branch st = b" using r(2) by (auto simp: mc_done_def)
    then show ?thesis using False r(4) assms(1) by (auto simp: leaves_inv_def pending_def)
  qed
  ultimately show ?thesis by (intro that [OF r(1)]) (simp only: leaves_inv_def prod.case)
qed

lemma mc_leaves_spec:
  assumes "length xs \<le> 2 ^ 31" "leaves_inv h xs p (c, inner, ml, b, mut)" "c \<le> length xs"
  shows "\<exists>s. mc_leaves h p (drop c xs) (c, inner, ml, b, mut) = Some (length xs, s) \<and> leaves_inv h xs p (length xs, s)"
  using assms(2,3)
proof (induction "length xs - c" arbitrary: c inner ml b mut)
  case 0
  then show ?case by auto
next
  case (Suc n)
  then have c: "c < length xs" by simp
  obtain level st where r: "mc_up h (c + 1) inner ml 0 \<lparr>mc_h = xs ! c, mc_matchh = (c = p), mc_branch = b, mc_mutated = mut\<rparr> = Some (level, st)"
    "leaves_inv h xs p (c + 1, inner[level := mc_h st], (if mc_matchh st then int level else ml), mc_branch st, mc_mutated st)"
    by (rule mc_leaves_step [OF Suc(3) c assms(1)])
  have "n = length xs - (c + 1)" "c + 1 \<le> length xs" using Suc(2) c by auto
  from Suc(1) [OF this(1) r(2) this(2)] show ?case using r(1) by (simp add: Cons_nth_drop_Suc [OF c, symmetric])
qed

lemma dvd_div_two: "2 ^ Suc l dvd c \<Longrightarrow> 0 < c \<Longrightarrow> 2 \<le> c div 2 ^ l" for c :: nat
  by (elim dvdE) (auto simp: mult.assoc mult.left_commute)

definition sweep_inv :: "('a \<Rightarrow> 'a \<Rightarrow> 'a) \<Rightarrow> 'a list \<Rightarrow> nat \<Rightarrow> 'a list \<Rightarrow> int \<Rightarrow> nat \<Rightarrow> nat \<Rightarrow> 'a mc_state \<Rightarrow> bool" where
  "sweep_inv h xs p inner ml c level st \<longleftrightarrow>
     2 ^ level dvd c \<and> bit c level \<and> length xs \<le> c \<and> c < length xs + 2 ^ level \<and> c \<le> 2 ^ 31 \<and>
     mc_h st = lev h xs level ! (c div 2 ^ level - 1) \<and>
     (mc_matchh st \<longrightarrow> p div 2 ^ level = c div 2 ^ level - 1 \<and> on_path h xs p level (mc_branch st)) \<and>
     (\<not> mc_matchh st \<longrightarrow> pending h xs p c (Suc level) ml (mc_branch st)) \<and>
     inner_ok h xs c (Suc level) inner \<and> (\<forall>l<level. 1 < length (lev h xs l))"

lemma lev_add: "lev h xs (a + j) = lev h (lev h xs a) j"
  by (induction j) simp_all

lemma length_lev_up:
  assumes "length xs \<le> c" "c < length xs + 2 ^ l" "2 ^ l dvd c"
  shows "length (lev h xs l) = c div 2 ^ l"
proof -
  obtain m where m: "c = 2 ^ l * m" using assms(3) by (elim dvdE)
  have "(length xs + (2 ^ l - 1)) div 2 ^ l = m"
    by (rule div_nat_eqI) (use assms(1,2) in \<open>simp_all add: m algebra_simps\<close>)
  then show ?thesis by (simp add: length_lev m)
qed

lemma sweep_double:
  assumes "2 ^ level dvd c" "bit c level" "c \<noteq> 2 ^ level" "c \<le> 2 ^ 31"
  shows "2 ^ Suc level dvd c + 2 ^ level" "c + 2 ^ level \<le> (2 :: nat) ^ 31"
    "(c + 2 ^ level) div 2 ^ Suc level = (c div 2 ^ level - 1) div 2 + 1"
proof -
  obtain k where k: "c = 2 ^ level * k" using assms(1) by (elim dvdE)
  have "odd k" using assms(2) by (simp add: k bit_iff_odd)
  then obtain j where j: "k = 2 * j + 1" by (elim oddE)
  have s: "c + 2 ^ level = 2 ^ Suc level * (j + 1)" by (simp add: k j algebra_simps)
  then show "2 ^ Suc level dvd c + 2 ^ level" by (metis dvd_triv_left)
  show "(c + 2 ^ level) div 2 ^ Suc level = (c div 2 ^ level - 1) div 2 + 1" unfolding s by (simp add: k j)
  have "0 < j" using assms(3) k j by (cases j) auto
  have "2 ^ Suc level \<le> c" using k j \<open>0 < j\<close> by (cases j) auto
  then have "2 ^ Suc level \<le> (2 :: nat) ^ 31" using assms(4) by (rule order_trans)
  then have "level \<le> 30" by (subst (asm) power_increasing_iff) simp_all
  then have e: "(2 :: nat) ^ 31 = 2 ^ level * (2 * 2 ^ (30 - level))" by (simp flip: power_add power_Suc)
  have "2 * j + 1 \<le> 2 * 2 ^ (30 - level)" using assms(4) unfolding e k j by (rule mult_left_le_imp_le) simp
  then have "j + 1 \<le> 2 ^ (30 - level)" by linarith
  then have "2 ^ Suc level * (j + 1) \<le> 2 ^ Suc level * 2 ^ (30 - level)" by (rule mult_le_mono2)
  then show "c + 2 ^ level \<le> 2 ^ 31" unfolding s e by (simp add: mult.assoc mult.left_commute)
qed

lemma sweep_step:
  assumes inv: "sweep_inv h xs p inner ml c level st" and c: "c \<noteq> 2 ^ level"
  defines "st1 \<equiv> st\<lparr>mc_branch := (if mc_matchh st then mc_branch st @ [mc_h st] else mc_branch st), mc_h := h (mc_h st) (mc_h st)\<rparr>"
  obtains level' st' where "mc_up h (c + 2 ^ level) inner ml (level + 1) st1 = Some (level', st')"
    "sweep_inv h xs p inner ml (c + 2 ^ level) level' st'"
proof -
  have i: "2 ^ level dvd c" "bit c level" "length xs \<le> c" "c < length xs + 2 ^ level" "c \<le> 2 ^ 31"
    "mc_h st = lev h xs level ! (c div 2 ^ level - 1)" "inner_ok h xs c (Suc level) inner"
    "mc_matchh st \<longrightarrow> p div 2 ^ level = c div 2 ^ level - 1 \<and> on_path h xs p level (mc_branch st)"
    "\<not> mc_matchh st \<longrightarrow> pending h xs p c (Suc level) ml (mc_branch st)" "\<forall>l<level. 1 < length (lev h xs l)"
    using inv by (simp_all add: sweep_inv_def)
  define i0 where "i0 = (c div 2 ^ level - 1) div 2"
  note dbl = sweep_double [OF i(1,2) c i(5)]
  have o: "odd (c div 2 ^ level)" using i(2) by (simp add: bit_iff_odd)
  then have i0: "c div 2 ^ level = 2 * i0 + 1" by (auto simp: i0_def elim!: oddE)
  have len: "length (lev h xs level) = 2 * i0 + 1" using length_lev_up [OF i(3,4,1)] i0 by simp
  note ix = dbl(3) [folded i0_def]
  have hd1: "mc_h st1 = lev h xs (Suc level) ! i0"
    using lev_up [of i0 h xs level] len i(6) i0 by (simp add: st1_def)
  have m1: "p div 2 ^ Suc level = i0 \<and> on_path h xs p (Suc level) (mc_branch st1)" if "mc_matchh st1"
  proof -
    have m: "mc_matchh st" "p div 2 ^ level = 2 * i0" "on_path h xs p level (mc_branch st)" using i(8) that i0 by (auto simp: st1_def)
    have "on_path h xs p (Suc level) (mc_branch st @ [mc_h st])" by (rule path_up [OF m(3)]) (use m len i(6) i0 in auto)
    moreover have "p div 2 ^ Suc level = p div 2 ^ level div 2" by (metis div_mult2_eq power_Suc2)
    ultimately show ?thesis using m by (simp add: st1_def)
  qed
  have lens: "(c + 2 ^ level) div 2 ^ l \<le> length (lev h xs l)" if l: "Suc level \<le> l" for l
  proof -
    obtain j where j: "l = Suc level + j" using l le_iff_add by (metis (no_types))
    have "(c + 2 ^ level) div 2 ^ l = (i0 + 1) div 2 ^ j" unfolding j power_add div_mult2_eq ix by (rule refl)
    also have "\<dots> \<le> length (lev h (lev h xs (Suc level)) j)" by (rule div_le_lev) (simp add: len)
    finally show ?thesis unfolding j lev_add .
  qed
  have "\<exists>level' st'. mc_up h (c + 2 ^ level) inner ml (Suc level) st1 = Some (level', st') \<and>
     mc_done h xs p (c + 2 ^ level) ml (Suc level) st1 level' st' \<and> inner_ok h xs (c + 2 ^ level) (Suc level') inner \<and>
     (\<not> mc_matchh st' \<longrightarrow> pending h xs p (c + 2 ^ level) (Suc level') ml (mc_branch st') \<or> ml = - 1)"
    by (rule mc_carry [OF lens _ _ _ dbl(1) i(7), of st1 p ml])
      (use dbl(2) i(9) hd1 m1 ix in \<open>auto simp: st1_def\<close>)
  then obtain level' st' where r: "mc_up h (c + 2 ^ level) inner ml (Suc level) st1 = Some (level', st')"
     "mc_done h xs p (c + 2 ^ level) ml (Suc level) st1 level' st'" "inner_ok h xs (c + 2 ^ level) (Suc level') inner"
     "\<not> mc_matchh st' \<longrightarrow> pending h xs p (c + 2 ^ level) (Suc level') ml (mc_branch st') \<or> ml = - 1"
    by (elim exE conjE)
  have "sweep_inv h xs p inner ml (c + 2 ^ level) level' st'"
  proof -
    have "ml \<noteq> - 1" if "\<not> mc_matchh st'" using that r(2) i(9) by (auto simp: mc_done_def st1_def pending_def)
    moreover have "2 * 2 ^ level \<le> (2 :: nat) ^ level'"
      using r(2) power_increasing [of "Suc level" level' "2 :: nat"] by (simp add: mc_done_def)
    moreover have "1 < length (lev h xs l)" if "l < level'" for l
    proof -
      consider "l < level" | "l = level" | "Suc level \<le> l" by linarith
      then show ?thesis
      proof cases
        case 2
        then show ?thesis using len c i0 i(1) by (cases i0) auto
      next
        case 3
        have "2 ^ Suc l dvd c + 2 ^ level"
          using r(2) \<open>l < level'\<close> le_imp_power_dvd [of "Suc l" level' "2 :: nat"] by (auto simp: mc_done_def intro: dvd_trans)
        from dvd_div_two [OF this] show ?thesis using lens [OF 3] by simp
      qed (use i(10) in simp)
    qed
    ultimately show ?thesis using r(2-4) i(3,4) dbl(2) by (auto simp: sweep_inv_def mc_done_def)
  qed
  then show ?thesis using that r(1) by simp
qed

lemma mc_sweep_spec:
  assumes "sweep_inv h xs p inner ml c level st"
  shows "\<exists>st' l. mc_sweep h inner ml c level st = Some st' \<and> length (lev h xs l) = 1 \<and> (\<forall>k<l. 1 < length (lev h xs k)) \<and>
    mc_h st' = lev h xs l ! 0 \<and> p div 2 ^ l = 0 \<and> on_path h xs p l (mc_branch st')"
  using assms
proof (induction "32 - level" arbitrary: c level st rule: less_induct)
  case less
  have i: "2 ^ level dvd c" "bit c level" "length xs \<le> c" "c < length xs + 2 ^ level" "c \<le> 2 ^ 31"
    using less(2) by (simp_all add: sweep_inv_def)
  have "0 < c" using i(2) by (cases c) simp_all
  then have l: "level < 32" using pow_dvd_less [OF i(1)] i(5) by simp
  show ?case
  proof (cases "c = 2 ^ level")
    case True
    have "mc_matchh st" using less(2) True by (auto simp: sweep_inv_def pending_def bit_exp_iff)
    then show ?thesis using True l less(2) length_lev_up [OF i(3,4,1), of h]
      by (intro exI [of _ st] exI [of _ level]) (subst mc_sweep.simps, simp add: sweep_inv_def)
  next
    case False
    obtain level' st' where r: "mc_up h (c + 2 ^ level) inner ml (level + 1)
        (st\<lparr>mc_branch := (if mc_matchh st then mc_branch st @ [mc_h st] else mc_branch st), mc_h := h (mc_h st) (mc_h st)\<rparr>) = Some (level', st')"
      "sweep_inv h xs p inner ml (c + 2 ^ level) level' st'" by (rule sweep_step [OF less(2) False])
    have "32 - level' < 32 - level" using mc_up_level [OF r(1)] by linarith
    moreover have "sweep_inv h xs p inner ml (c + 2 ^ level) level' (st'\<lparr>mc_mutated := mc_mutated st\<rparr>)" using r(2) by (simp add: sweep_inv_def)
    ultimately show ?thesis using less(1) [of level'] l False r(1) by (subst mc_sweep.simps) simp
  qed
qed

lemma merkle_root_lev:
  assumes "length (lev h xs l) = 1" "\<forall>k<l. 1 < length (lev h xs k)"
  shows "merkle_root h z xs = lev h xs l ! 0"
  using assms
proof (induction l arbitrary: xs)
  case 0
  then show ?case by (subst merkle_root.simps) (auto simp: length_Suc_conv)
next
  case (Suc l)
  have s: "lev h xs (Suc j) = lev h (pair_up h xs) j" for j using lev_add [of h xs 1 j] by simp
  have "merkle_root h z (pair_up h xs) = lev h (pair_up h xs) l ! 0"
  proof (rule Suc(1))
    show "\<forall>k<l. 1 < length (lev h (pair_up h xs) k)" using Suc(3) unfolding s [symmetric] by (blast intro: Suc_mono)
  qed (use Suc(2) in \<open>simp only: s\<close>)
  moreover have "1 < length xs" using Suc(3) by force
  ultimately show ?case unfolding s by (subst merkle_root.simps) simp
qed

lemma mc_lowest_spec:
  "0 < c \<Longrightarrow> c < 2 ^ 32 \<Longrightarrow> 2 ^ l dvd c \<Longrightarrow> \<exists>l'. mc_lowest c l = Some l' \<and> 2 ^ l' dvd c \<and> bit c l'"
proof (induction c l rule: mc_lowest.induct)
  case (1 c l)
  then show ?case using pow_dvd_less [OF 1(4,2,3)] not_bit_dvd [OF 1(4)] by (subst mc_lowest.simps) auto
qed

lemma leaves_sweep:
  assumes "leaves_inv h xs p (length xs, inner, ml, b, mut)" "p < length xs" "length xs \<le> 2 ^ 31"
    "2 ^ level dvd length xs" "bit (length xs) level"
  shows "sweep_inv h xs p inner ml (length xs) level
    \<lparr>mc_h = inner ! level, mc_matchh = (ml = int level), mc_branch = b, mc_mutated = mut\<rparr>"
proof -
  have n: "0 < length xs" by (rule le_less_trans [OF le0 assms(2)])
  have inv: "inner_ok h xs (length xs) 0 inner" "pending h xs p (length xs) 0 ml b" using assms(1,2) by (simp_all add: leaves_inv_def)
  have "level < 32" using pow_dvd_less [OF assms(4) n] assms(3) by simp
  then have "inner ! level = lev h xs level ! (length xs div 2 ^ level - 1)" "inner_ok h xs (length xs) (Suc level) inner"
    using inv(1) assms(5) by (simp_all add: inner_ok_def)
  moreover have "pending h xs p (length xs) (Suc level) ml b" if "ml \<noteq> int level"
    using inv(2) that dvd_lowest_bit [OF assms(4)] by (fastforce simp: pending_def Suc_le_eq intro: le_neq_implies_less)
  moreover have "p div 2 ^ level = length xs div 2 ^ level - 1 \<and> on_path h xs p level b" if "ml = int level"
    using inv(2) that by (auto simp: pending_def)
  moreover have "1 < length (lev h xs l)" if "l < level" for l
  proof -
    have "2 ^ Suc l dvd length xs" using assms(4) le_imp_power_dvd [of "Suc l" level "2 :: nat"] that by (auto intro: dvd_trans)
    from dvd_div_two [OF this n] show ?thesis using div_le_lev [of "length xs" xs l h] by simp
  qed
  ultimately show ?thesis using assms(3-5) by (simp add: sweep_inv_def)
qed

text \<open>
  C21. For any position among at most \<open>2^31\<close> leaves the calculator returns: never does it leave
  its 32 entries. Its result is the root of the tree, and climbing the branch it returns from the
  leaf at the position gives this root.
\<close>

theorem MerkleComputation_correct:
  assumes "p < length leaves" "length leaves \<le> 2 ^ 31"
  shows "\<exists>mutated b. MerkleComputation h z leaves p = Some (merkle_root h z leaves, mutated, b) \<and>
    ComputeMerkleBranch h z leaves p = Some b \<and> from_branch h (leaves ! p) b p = merkle_root h z leaves"
proof -
  have "leaves_inv h leaves p (0, replicate 32 z, - 1, [], False)" by (simp add: leaves_inv_def inner_ok_def)
  from mc_leaves_spec [OF assms(2) this] obtain inner ml b mut where
    r: "mc_leaves h p leaves (0, replicate 32 z, - 1, [], False) = Some (length leaves, inner, ml, b, mut)"
      "leaves_inv h leaves p (length leaves, inner, ml, b, mut)" by auto
  obtain level where l: "mc_lowest (length leaves) 0 = Some level" "2 ^ level dvd length leaves" "bit (length leaves) level"
    using mc_lowest_spec [of "length leaves" 0] le_less_trans [OF le0 assms(1)] assms(2) by auto
  from mc_sweep_spec [OF leaves_sweep [OF r(2) assms l(2,3)]]
  obtain st k where s: "mc_sweep h inner ml (length leaves) level
      \<lparr>mc_h = inner ! level, mc_matchh = (ml = int level), mc_branch = b, mc_mutated = mut\<rparr> = Some st"
    "length (lev h leaves k) = 1" "\<forall>j<k. 1 < length (lev h leaves j)"
    "mc_h st = lev h leaves k ! 0" "p div 2 ^ k = 0" "on_path h leaves p k (mc_branch st)" by (elim exE conjE)
  have "MerkleComputation h z leaves p = Some (merkle_root h z leaves, mut, mc_branch st)"
    using r(1) l(1) s(1,4) merkle_root_lev [OF s(2,3), of z] assms(1) by (auto simp: MerkleComputation_def)
  then show ?thesis using s(5,6) merkle_root_lev [OF s(2,3), of z] by (simp add: ComputeMerkleBranch_def on_path_def)
qed

theorem MerkleComputation_correct_witness:
  "\<exists>mutated b. MerkleComputation (\<lambda>a b. 3 * a + b) 0 [5, 7, 9 :: nat] 2 = Some (merkle_root (\<lambda>a b. 3 * a + b) 0 [5, 7, 9], mutated, b) \<and>
    ComputeMerkleBranch (\<lambda>a b. 3 * a + b) 0 [5, 7, 9] 2 = Some b \<and>
    from_branch (\<lambda>a b. 3 * a + b) 9 b 2 = merkle_root (\<lambda>a b. 3 * a + b) 0 [5, 7, 9]"
  using MerkleComputation_correct [of 2 "[5, 7, 9 :: nat]" "\<lambda>a b. 3 * a + b" 0] by simp

end
