(* ===== verification/Share_Bitcoin.thy ===== *)
theory Share_Bitcoin
  imports Difficulty Share_Stats "HOL-Library.Product_Lexorder"
begin

text \<open>
  The shares of the Bitcoin chains: the message \<open>ShareBitcoin\<close> with its score and validity, the
  two older binary layouts and how a message is read from any of them (bitcoin/StratumBitcoin.h),
  the conversion of the tools between the layouts (tools/common/shares.hpp), the address union of
  Network.h, and the order of the shares a local job keeps. Integers are words; a signed field is
  read with \<open>scast\<close> where the code converts it. The protobuf coding is a parameter.
\<close>

section \<open>Addresses\<close>

definition WriteLE64 :: "u64 \<Rightarrow> bytes" where
  "WriteLE64 x = [ucast x, ucast (drop_bit 8 x), ucast (drop_bit 16 x), ucast (drop_bit 24 x),
     ucast (drop_bit 32 x), ucast (drop_bit 40 x), ucast (drop_bit 48 x), ucast (drop_bit 56 x)]"

text \<open>The union \<open>IpAddress\<close> as its 16 bytes; words are read in the byte order of the host.\<close>

definition addrUint32 :: "bytes \<Rightarrow> nat \<Rightarrow> u32" where
  "addrUint32 a i = ReadLE32 (drop (4 * i) a)"

definition addrUint16 :: "bytes \<Rightarrow> nat \<Rightarrow> u16" where
  "addrUint16 a i = (ucast (a ! (2 * i)) :: u16) OR push_bit 8 (ucast (a ! (2 * i + 1)))"

definition ip_of_num :: "u64 \<Rightarrow> bytes" where
  "ip_of_num n = WriteLE64 n @ WriteLE64 n"

definition fromIpv4Int :: "u32 \<Rightarrow> bytes" where
  "fromIpv4Int ip = replicate 12 0 @ WriteLE32 ip"

definition toIpv4Int :: "bytes \<Rightarrow> u32" where
  "toIpv4Int a = addrUint32 a 3"

definition isIpv4 :: "bytes \<Rightarrow> bool" where
  "isIpv4 a \<longleftrightarrow> addrUint32 a 0 = 0 \<and> addrUint32 a 1 = 0 \<and>
     (addrUint32 a 2 = 0 \<or> addrUint16 a 4 = 0 \<and> addrUint16 a 5 = 0xffff)"

definition isIpv4_str :: "string \<Rightarrow> bool" where
  "isIpv4_str ipStr \<longleftrightarrow> CHR '':'' \<notin> set ipStr"

text \<open>
  \<open>inet_ntop\<close> of the C library for IPv4 writes the four bytes in decimal; for IPv6 it is a
  parameter. \<open>toString\<close> reads the text after the scope of its buffer: the model takes what
  \<open>inet_ntop\<close> wrote there.
\<close>

definition inet_ntop4 :: "bytes \<Rightarrow> string" where
  "inet_ntop4 b = to_string (unat (b ! 0)) @ ''.'' @ to_string (unat (b ! 1)) @ ''.'' @
     to_string (unat (b ! 2)) @ ''.'' @ to_string (unat (b ! 3))"

definition ip_toString :: "(bytes \<Rightarrow> string) \<Rightarrow> bytes \<Rightarrow> string" where
  "ip_toString inet_ntop6 a = (if isIpv4 a then inet_ntop4 (drop 12 a) else inet_ntop6 a)"

text \<open>\<open>inet_pton(AF_INET, \<dots>)\<close> is a parameter: the four bytes of a dotted address, if it is one.\<close>

definition ip_fromString :: "(string \<Rightarrow> bytes option) \<Rightarrow> string \<Rightarrow> bytes \<Rightarrow> bool \<times> bytes" where
  "ip_fromString inet_pton4 ipStr a =
     (if isIpv4_str ipStr
      then case inet_pton4 ipStr of
             Some b \<Rightarrow> (True, replicate 12 0 @ b)
           | None \<Rightarrow> (False, replicate 12 0 @ drop 12 a)
      else case inet_pton4 ipStr of
             Some b \<Rightarrow> (True, b @ drop 4 a)
           | None \<Rightarrow> (False, a))"

section \<open>The message\<close>

definition SHARE_BYTES_VERSION :: u32 where "SHARE_BYTES_VERSION = 0x00010003"
definition SHARE_CURRENT_VERSION :: u32 where "SHARE_CURRENT_VERSION = 0x00010004"

record share_bitcoin =
  shb_version :: u32
  shb_workerhashid :: u64
  shb_userid :: u32
  shb_status :: u32
  shb_timestamp :: u64
  shb_ip :: string
  shb_jobid :: u64
  shb_sharediff :: u64
  shb_blkbits :: u32
  shb_height :: u32
  shb_nonce :: u32
  shb_sessionid :: u32
  shb_versionmask :: u32
  shb_extuserid :: "u32 option"
  shb_bitsreached :: "u32 option"

definition ShareBitcoin0 :: share_bitcoin where
  "ShareBitcoin0 = \<lparr>shb_version = SHARE_CURRENT_VERSION, shb_workerhashid = 0, shb_userid = 0, shb_status = 0,
     shb_timestamp = 0, shb_ip = ''0.0.0.0'', shb_jobid = 0, shb_sharediff = 0, shb_blkbits = 0, shb_height = 0,
     shb_nonce = 0, shb_sessionid = 0, shb_versionmask = 0,
     shb_extuserid = None, shb_bitsreached = None\<rparr>"

text \<open>A share that solves a block of infinite difficulty scores nothing: \<open>x / \<infinity> = 0\<close>.\<close>

definition share_score :: "u32 \<Rightarrow> share_bitcoin \<Rightarrow> f64" where
  "share_score DiffOneBits s =
     (if shb_sharediff s = 0 \<or> shb_blkbits s = 0 then 0
      else case BitsToDifficulty_double DiffOneBits (shb_blkbits s) of
             None \<Rightarrow> 0
           | Some networkDifficulty \<Rightarrow>
               let d = f64_of_int (uint (shb_sharediff s))
               in if networkDifficulty < d then 1 else d div networkDifficulty)"

definition share_isValid :: "share_bitcoin \<Rightarrow> bool" where
  "share_isValid s \<longleftrightarrow> shb_version s = SHARE_CURRENT_VERSION \<and>
     \<not> (shb_jobid s = 0 \<or> shb_userid s = 0 \<or> shb_workerhashid s = 0 \<or> shb_height s = 0 \<or>
        shb_blkbits s = 0 \<or> shb_sharediff s = 0)"

section \<open>The binary layouts\<close>

record share_v1 =
  v1_jobId :: u64
  v1_workerHashId :: u64
  v1_ip :: u32
  v1_userId :: u32
  v1_shareDiff :: u64
  v1_timestamp :: u32
  v1_blkBits :: u32
  v1_result :: u32
  v1_padding :: u32

record share_v2 =
  v2_version :: u32
  v2_checkSum :: u32
  v2_workerHashId :: u64
  v2_userId :: u32
  v2_status :: u32
  v2_timestamp :: u64
  v2_ip :: bytes
  v2_jobId :: u64
  v2_shareDiff :: u64
  v2_blkBits :: u32
  v2_height :: u32
  v2_nonce :: u32
  v2_sessionId :: u32

definition checkSum :: "share_v2 \<Rightarrow> u32" where
  "checkSum s = (let c = (ucast (v2_version s) :: u64) + v2_workerHashId s + scast (v2_userId s) + scast (v2_status s) +
       v2_timestamp s + GetUint64 (v2_ip s) 0 + GetUint64 (v2_ip s) 1 + v2_jobId s + v2_shareDiff s +
       ucast (v2_blkBits s) + ucast (v2_height s) + ucast (v2_nonce s) + ucast (v2_sessionId s)
     in ucast c + ucast (drop_bit 32 c))"

text \<open>The structs over the bytes of a message, and their bytes: little-endian, without padding.\<close>

definition share_v1_of :: "bytes \<Rightarrow> share_v1" where
  "share_v1_of d = \<lparr>v1_jobId = GetUint64 d 0, v1_workerHashId = GetUint64 d 1, v1_ip = ReadLE32 (drop 16 d),
     v1_userId = ReadLE32 (drop 20 d), v1_shareDiff = GetUint64 d 3, v1_timestamp = ReadLE32 (drop 32 d),
     v1_blkBits = ReadLE32 (drop 36 d), v1_result = ReadLE32 (drop 40 d), v1_padding = ReadLE32 (drop 44 d)\<rparr>"

definition share_v2_of :: "bytes \<Rightarrow> share_v2" where
  "share_v2_of d = \<lparr>v2_version = ReadLE32 d, v2_checkSum = ReadLE32 (drop 4 d), v2_workerHashId = GetUint64 d 1,
     v2_userId = ReadLE32 (drop 16 d), v2_status = ReadLE32 (drop 20 d), v2_timestamp = GetUint64 d 3,
     v2_ip = take 16 (drop 32 d), v2_jobId = GetUint64 d 6, v2_shareDiff = GetUint64 d 7,
     v2_blkBits = ReadLE32 (drop 64 d), v2_height = ReadLE32 (drop 68 d), v2_nonce = ReadLE32 (drop 72 d),
     v2_sessionId = ReadLE32 (drop 76 d)\<rparr>"

definition share_v1_bytes :: "share_v1 \<Rightarrow> bytes" where
  "share_v1_bytes s = WriteLE64 (v1_jobId s) @ WriteLE64 (v1_workerHashId s) @ WriteLE32 (v1_ip s) @ WriteLE32 (v1_userId s) @
     WriteLE64 (v1_shareDiff s) @ WriteLE32 (v1_timestamp s) @ WriteLE32 (v1_blkBits s) @ WriteLE32 (v1_result s) @ WriteLE32 (v1_padding s)"

definition share_v2_bytes :: "share_v2 \<Rightarrow> bytes" where
  "share_v2_bytes s = WriteLE32 (v2_version s) @ WriteLE32 (v2_checkSum s) @ WriteLE64 (v2_workerHashId s) @ WriteLE32 (v2_userId s) @
     WriteLE32 (v2_status s) @ WriteLE64 (v2_timestamp s) @ v2_ip s @ WriteLE64 (v2_jobId s) @ WriteLE64 (v2_shareDiff s) @
     WriteLE32 (v2_blkBits s) @ WriteLE32 (v2_height s) @ WriteLE32 (v2_nonce s) @ WriteLE32 (v2_sessionId s)"

section \<open>Reading and writing messages\<close>

text \<open>
  \<open>UnserializeWithVersion\<close> on a message whose fields may already be set; the data is
  \<^term>\<open>None\<close> for a null pointer. It reads four bytes before it looks at the size: fewer are a
  read outside the data. \<open>ParseFromArray\<close> of protobuf is a parameter: whether it accepts the
  bytes, and the message it leaves. The height of an old share depends on the chain of the build.
\<close>

definition of_v2 :: "(bytes \<Rightarrow> string) \<Rightarrow> share_v2 \<Rightarrow> share_bitcoin \<Rightarrow> share_bitcoin" where
  "of_v2 inet_ntop6 share s = s\<lparr>shb_version := SHARE_CURRENT_VERSION, shb_workerhashid := v2_workerHashId share,
     shb_userid := v2_userId share, shb_status := v2_status share, shb_timestamp := v2_timestamp share,
     shb_ip := ip_toString inet_ntop6 (v2_ip share), shb_jobid := v2_jobId share, shb_sharediff := v2_shareDiff share,
     shb_blkbits := v2_blkBits share, shb_height := v2_height share, shb_nonce := v2_nonce share,
     shb_sessionid := v2_sessionId share\<rparr>"

definition of_v1 :: "bool \<Rightarrow> share_v1 \<Rightarrow> share_bitcoin \<Rightarrow> share_bitcoin" where
  "of_v1 ubtc share s = s\<lparr>shb_version := SHARE_CURRENT_VERSION, shb_workerhashid := v1_workerHashId share,
     shb_userid := v1_userId share, shb_status := word_of_int (if v1_result share = 1 then ACCEPT else REJECT_NO_REASON),
     shb_timestamp := ucast (v1_timestamp share), shb_ip := inet_ntop4 (WriteLE32 (v1_ip share)),
     shb_jobid := v1_jobId share, shb_sharediff := v1_shareDiff share, shb_blkbits := v1_blkBits share,
     shb_height := (if ubtc then 758000 else 570000)\<rparr>"

definition UnserializeWithVersion ::
  "(bytes \<Rightarrow> bool \<times> share_bitcoin) \<Rightarrow> (bytes \<Rightarrow> string) \<Rightarrow> bool \<Rightarrow> bytes option \<Rightarrow> share_bitcoin \<Rightarrow> (bool \<times> share_bitcoin) option" where
  "UnserializeWithVersion ParseFromArray inet_ntop6 ubtc data s =
     (case data of
        None \<Rightarrow> Some (False, s)
      | Some d \<Rightarrow>
          if length d = 0 then Some (False, s)
          else if length d < 4 then None
          else let version = ReadLE32 d
               in if version = SHARE_CURRENT_VERSION then Some (ParseFromArray (drop 4 d))
                  else if version = SHARE_BYTES_VERSION \<and> length d = 80
                  then let share = share_v2_of d
                       in Some (if checkSum share \<noteq> v2_checkSum share then (False, s) else (True, of_v2 inet_ntop6 share s))
                  else if length d = 48 then Some (True, of_v1 ubtc (share_v1_of d) s)
                  else Some (False, s))"

text \<open>
  The coding the other chains share (Stratum.h): the version in front of the protobuf bytes.
  \<open>AppendToString\<close> of protobuf fails for a message without its required fields.
\<close>

definition SerializeToStringWithVersion :: "('m \<Rightarrow> bytes option) \<Rightarrow> ('m \<Rightarrow> u32) \<Rightarrow> 'm \<Rightarrow> bytes option" where
  "SerializeToStringWithVersion AppendToString version m = map_option (\<lambda>b. WriteLE32 (version m) @ b) (AppendToString m)"

definition UnserializeWithVersion_base :: "u32 \<Rightarrow> (bytes \<Rightarrow> bool \<times> 'm) \<Rightarrow> bytes option \<Rightarrow> 'm \<Rightarrow> bool \<times> 'm" where
  "UnserializeWithVersion_base CURRENT ParseFromArray data s =
     (case data of
        None \<Rightarrow> (False, s)
      | Some d \<Rightarrow> if length d \<le> 4 then (False, s)
                  else if ReadLE32 d = CURRENT then ParseFromArray (drop 4 d) else (False, s))"

section \<open>The conversion of the tools\<close>

definition share_v2_isValid :: "share_v2 \<Rightarrow> bool" where
  "share_v2_isValid s \<longleftrightarrow> v2_version s = SHARE_BYTES_VERSION \<and> v2_checkSum s = checkSum s \<and>
     \<not> (v2_jobId s = 0 \<or> v2_userId s = 0 \<or> v2_workerHashId s = 0 \<or> v2_height s = 0 \<or> v2_blkBits s = 0 \<or> v2_shareDiff s = 0)"

definition toShareBitcoinV1 :: "share_v2 \<Rightarrow> share_v1 \<Rightarrow> bool \<times> share_v1" where
  "toShareBitcoinV1 s shareV1 =
     (if \<not> share_v2_isValid s then (False, shareV1)
      else (True, shareV1\<lparr>v1_jobId := v2_jobId s, v1_workerHashId := v2_workerHashId s, v1_ip := toIpv4Int (v2_ip s),
        v1_userId := v2_userId s, v1_shareDiff := v2_shareDiff s, v1_timestamp := ucast (v2_timestamp s),
        v1_blkBits := v2_blkBits s, v1_result := (if isAccepted (sint (v2_status s)) then 1 else 0)\<rparr>))"

section \<open>The shares a local job keeps\<close>

datatype LocalShareBitcoinGrand = LocalShareBitcoinGrand
  (exNonce2: u64) (ls_nonce: u32) (ls_time: u32) (ls_versionMask: u32) (exGrandNonce1: u32)

definition local_share_less :: "LocalShareBitcoinGrand \<Rightarrow> LocalShareBitcoinGrand \<Rightarrow> bool" where
  "local_share_less l r \<longleftrightarrow>
     exNonce2 l < exNonce2 r \<or>
     exNonce2 l = exNonce2 r \<and> ls_nonce l < ls_nonce r \<or>
     exNonce2 l = exNonce2 r \<and> ls_nonce l = ls_nonce r \<and> ls_time l < ls_time r \<or>
     exNonce2 l = exNonce2 r \<and> ls_nonce l = ls_nonce r \<and> ls_time l = ls_time r \<and> ls_versionMask l < ls_versionMask r \<or>
     exNonce2 l = exNonce2 r \<and> ls_nonce l = ls_nonce r \<and> ls_time l = ls_time r \<and> ls_versionMask l = ls_versionMask r \<and>
       exGrandNonce1 l < exGrandNonce1 r"

text \<open>The comparison is the lexicographic order of the fields.\<close>

definition ls_key :: "LocalShareBitcoinGrand \<Rightarrow> u64 \<times> u32 \<times> u32 \<times> u32 \<times> u32" where
  "ls_key l = (exNonce2 l, ls_nonce l, ls_time l, ls_versionMask l, exGrandNonce1 l)"

lemma ls_key_inj: "ls_key l = ls_key r \<longleftrightarrow> l = r"
  by (cases l; cases r) (simp add: ls_key_def)

lemma local_share_less_key: "local_share_less l r \<longleftrightarrow> ls_key l < ls_key r"
  unfolding local_share_less_def ls_key_def less_prod_simp le_less by blast

instantiation LocalShareBitcoinGrand :: linorder
begin

definition less_LocalShareBitcoinGrand :: "LocalShareBitcoinGrand \<Rightarrow> LocalShareBitcoinGrand \<Rightarrow> bool" where
  "less_LocalShareBitcoinGrand l r \<longleftrightarrow> local_share_less l r"

definition less_eq_LocalShareBitcoinGrand :: "LocalShareBitcoinGrand \<Rightarrow> LocalShareBitcoinGrand \<Rightarrow> bool" where
  "less_eq_LocalShareBitcoinGrand l r \<longleftrightarrow> local_share_less l r \<or> l = r"

instance
  by standard (auto simp: less_LocalShareBitcoinGrand_def less_eq_LocalShareBitcoinGrand_def local_share_less_key
      simp flip: ls_key_inj)

end

section \<open>The layouts round trip\<close>

lemma GetUint64_drop: "GetUint64 d k = GetUint64 (drop (8 * k) d) 0"
  by (simp add: GetUint64_def mult.commute)

lemma bit_byte_piece:
  "bit (push_bit m (ucast (ucast (drop_bit m x) :: u8)) :: u64) n \<longleftrightarrow> m \<le> n \<and> n < m + 8 \<and> n < 64 \<and> bit x n" for x :: u64
  by (auto simp: bit_push_bit_iff bit_ucast_iff bit_drop_bit_eq)

lemma GetUint64_WriteLE64 [simp]: "GetUint64 (WriteLE64 x @ r) 0 = x"
proof (rule bit_word_eqI)
  fix n assume "n < LENGTH(64)"
  then have n: "n < 64" by simp
  have "GetUint64 (WriteLE64 x @ r) 0 = push_bit 0 (ucast (ucast (drop_bit 0 x) :: u8)) OR push_bit 8 (ucast (ucast (drop_bit 8 x) :: u8)) OR
     push_bit 16 (ucast (ucast (drop_bit 16 x) :: u8)) OR push_bit 24 (ucast (ucast (drop_bit 24 x) :: u8)) OR
     push_bit 32 (ucast (ucast (drop_bit 32 x) :: u8)) OR push_bit 40 (ucast (ucast (drop_bit 40 x) :: u8)) OR
     push_bit 48 (ucast (ucast (drop_bit 48 x) :: u8)) OR push_bit 56 (ucast (ucast (drop_bit 56 x) :: u8))"
    by (simp add: GetUint64_def WriteLE64_def)
  then have "bit (GetUint64 (WriteLE64 x @ r) 0) n \<longleftrightarrow> bit x n \<and> (n < 8 \<or> 8 \<le> n \<and> n < 16 \<or> 16 \<le> n \<and> n < 24 \<or> 24 \<le> n \<and> n < 32 \<or>
     32 \<le> n \<and> n < 40 \<or> 40 \<le> n \<and> n < 48 \<or> 48 \<le> n \<and> n < 56 \<or> 56 \<le> n)"
    using n by (simp only: bit_or_iff bit_byte_piece) auto
  moreover have "n < 8 \<or> 8 \<le> n \<and> n < 16 \<or> 16 \<le> n \<and> n < 24 \<or> 24 \<le> n \<and> n < 32 \<or>
     32 \<le> n \<and> n < 40 \<or> 40 \<le> n \<and> n < 48 \<or> 48 \<le> n \<and> n < 56 \<or> 56 \<le> n" by linarith
  ultimately show "bit (GetUint64 (WriteLE64 x @ r) 0) n \<longleftrightarrow> bit x n" by (simp only: simp_thms)
qed

lemma length_WriteLE [simp]: "length (WriteLE64 x) = 8" "length (WriteLE32 y) = 4"
  by (simp_all add: WriteLE64_def WriteLE32_def)

lemma ReadLE32_WriteLE32_nil [simp]: "ReadLE32 (WriteLE32 x) = x"
  using ReadLE32_WriteLE32 [of x "[]"] by simp

lemma share_v1_round_trip: "share_v1_of (share_v1_bytes s) = s"
  by (cases s) (simp add: share_v1_of_def share_v1_bytes_def GetUint64_drop [of _ "Suc 0"] GetUint64_drop [of _ 3] ReadLE32_WriteLE32)

lemma share_v2_round_trip:
  assumes "length (v2_ip s) = 16"
  shows "share_v2_of (share_v2_bytes s) = s"
  using assms by (cases s) (simp add: share_v2_of_def share_v2_bytes_def GetUint64_drop [of _ "Suc 0"] GetUint64_drop [of _ 3]
      GetUint64_drop [of _ 6] GetUint64_drop [of _ 7] ReadLE32_WriteLE32)

lemma length_share_bytes [simp]: "length (share_v1_bytes s) = 48" "length (v2_ip t) = 16 \<Longrightarrow> length (share_v2_bytes t) = 80"
  by (simp_all add: share_v1_bytes_def share_v2_bytes_def)

lemma ucast_low_byte: "m + 8 \<le> 32 \<Longrightarrow> (ucast (drop_bit m (ucast x :: u32)) :: u8) = ucast (drop_bit m x)" for x :: u64
  by (rule bit_word_eqI) (simp add: bit_ucast_iff bit_drop_bit_eq)

lemma ReadLE32_WriteLE64: "ReadLE32 (WriteLE64 x @ r) = ucast x"
proof -
  have "WriteLE64 x @ r = WriteLE32 (ucast x) @ drop 4 (WriteLE64 x) @ r"
    using ucast_low_byte [of 0 x] ucast_low_byte [of 8 x] ucast_low_byte [of 16 x] ucast_low_byte [of 24 x]
    by (simp add: WriteLE64_def WriteLE32_def)
  then show ?thesis using ReadLE32_WriteLE32 [of "ucast x"] by metis
qed

lemma share_bytes_version: "ReadLE32 (share_v1_bytes s) = ucast (v1_jobId s)" "ReadLE32 (share_v2_bytes t) = v2_version t"
  by (simp_all add: share_v1_bytes_def share_v2_bytes_def ReadLE32_WriteLE32 ReadLE32_WriteLE64)

lemmas version_consts = SHARE_CURRENT_VERSION_def SHARE_BYTES_VERSION_def

lemma read_v1:
  assumes "ucast (v1_jobId w) \<noteq> SHARE_CURRENT_VERSION"
  shows "UnserializeWithVersion P I u (Some (share_v1_bytes w)) m = Some (True, of_v1 u w m)"
proof -
  have "share_v1_bytes w \<noteq> []" using length_share_bytes(1) [of w] by (metis list.size(3) zero_neq_numeral)
  then show ?thesis using assms by (simp add: UnserializeWithVersion_def share_bytes_version share_v1_round_trip)
qed

lemma read_v2:
  assumes "length (v2_ip s) = 16" "v2_version s = SHARE_BYTES_VERSION"
  shows "UnserializeWithVersion P I u (Some (share_v2_bytes s)) m =
    Some (if checkSum s \<noteq> v2_checkSum s then (False, m) else (True, of_v2 I s m))"
proof -
  have "share_v2_bytes s \<noteq> []" using length_share_bytes(2) [OF assms(1)] by (metis list.size(3) zero_neq_numeral)
  then show ?thesis
    using assms by (simp add: UnserializeWithVersion_def share_bytes_version share_v2_round_trip version_consts)
qed


definition example_v2 :: share_v2 where
  "example_v2 = \<lparr>v2_version = SHARE_BYTES_VERSION, v2_checkSum = 1, v2_workerHashId = 7, v2_userId = 5, v2_status = 0,
     v2_timestamp = 0x15d5a4c00, v2_ip = fromIpv4Int 0x0100007f, v2_jobId = 9, v2_shareDiff = 1024, v2_blkBits = 0x1d00ffff,
     v2_height = 600000, v2_nonce = 3, v2_sessionId = 4\<rparr>"

definition example_share :: share_v2 where
  "example_share = example_v2\<lparr>v2_checkSum := checkSum example_v2\<rparr>"

lemma example_share_valid:
  "length (v2_ip example_share) = 16" "share_v2_isValid example_share" "ucast (v2_jobId example_share) \<noteq> SHARE_CURRENT_VERSION"
  by (simp_all add: example_share_def example_v2_def fromIpv4Int_def share_v2_isValid_def version_consts checkSum_def)


section \<open>Which messages are refused\<close>



section \<open>What the check sum detects\<close>

definition fold32 :: "u64 \<Rightarrow> u32" where
  "fold32 c = ucast c + ucast (drop_bit 32 c)"

lemma unat_less64: "unat (x :: u64) < 2 ^ 64"
  by (rule order_less_le_trans [OF unsigned_less]) simp

lemma unat_less32: "unat (x :: u32) < 2 ^ 32"
  by (rule order_less_le_trans [OF unsigned_less]) simp

lemma unat_fold32: "unat (fold32 c) = (unat c + unat c div 2 ^ 32) mod 2 ^ 32"
proof -
  have "unat c div 2 ^ 32 < 2 ^ 64" using unat_less64 [of c] by (intro le_less_trans [OF div_le_dividend]) simp
  then show ?thesis
    by (simp add: fold32_def unat_word_ariths unsigned_ucast_eq take_bit_eq_mod unsigned_drop_bit_eq drop_bit_eq_div mod_simps)
qed

lemma fold_mod: "(M mod (p * p) + M mod (p * p) div p) mod p = (M + M div p) mod p" if "0 < p" for M p :: nat
proof -
  have "(M mod (p * p) + M mod (p * p) div p) mod p = (M mod p + M div p mod p) mod p"
    using that unfolding mod_mult2_eq by (simp add: add.assoc)
  then show ?thesis by (simp only: mod_add_eq)
qed

text \<open>Two summands that give the same check sum are equal, or the extremes.\<close>

lemma fold32_inj_nat:
  fixes B X Y p :: nat
  assumes "X < Y" "Y < p" "(B + X + (B + X) div p) mod p = (B + Y + (B + Y) div p) mod p"
  shows "X = 0 \<and> Y = p - 1"
proof -
  have le: "(B + X) div p \<le> (B + Y) div p" by (rule div_le_mono) (use assms(1) in simp)
  have "(B + Y) div p \<le> (B + X + p) div p" by (rule div_le_mono) (use assms(2) in simp)
  then have ge: "(B + Y) div p \<le> (B + X) div p + 1" using assms(2) by simp
  have "p dvd (B + Y + (B + Y) div p) - (B + X + (B + X) div p)"
    using assms(3) by (metis mod_eq_dvd_iff_nat add_le_mono assms(1) le less_imp_le_nat add_left_mono)
  moreover have "(B + Y + (B + Y) div p) - (B + X + (B + X) div p) = Y - X + ((B + Y) div p - (B + X) div p)" using le assms(1) by simp
  ultimately have "p \<le> Y - X + ((B + Y) div p - (B + X) div p)" using assms(1) by (simp add: dvd_imp_le)
  then show ?thesis using ge assms(1,2) by linarith
qed

lemma unat_fold32_add: "unat (fold32 (b + ucast x)) = (unat b + unat x + (unat b + unat x) div 2 ^ 32) mod 2 ^ 32" for x :: u32
proof -
  have "unat (ucast x :: u64) = unat x" using unat_less32 [of x] by (simp add: unsigned_ucast_eq take_bit_eq_mod)
  then show ?thesis using fold_mod [of "2 ^ 32" "unat b + unat x"] by (simp add: unat_fold32 unat_word_ariths)
qed

lemma fold32_inj:
  fixes x y :: u32
  assumes "fold32 (b + ucast x) = fold32 (b + ucast y)" "{x, y} \<noteq> {0, - 1}"
  shows "x = y"
proof (rule ccontr)
  assume ne: "x \<noteq> y"
  note e = assms(1) [THEN arg_cong [of _ _ unat], unfolded unat_fold32_add]
  have m: "unat (- 1 :: u32) = 2 ^ 32 - 1" by (simp add: unsigned_minus_1_eq_mask mask_eq_exp_minus_1)
  have lt: "unat x < 2 ^ 32" "unat y < 2 ^ 32" using unat_less32 [of x] unat_less32 [of y] by simp_all
  consider "unat x < unat y" | "unat y < unat x" using ne by (metis linorder_neqE_nat word_unat_eq_iff)
  then show False
  proof cases
    case 1
    then have "unat x = 0" "unat y = 2 ^ 32 - 1" using fold32_inj_nat [OF 1 lt(2) e] by auto
    then have "x = 0" "y = - 1" using m by (auto simp: word_unat_eq_iff)
    then show False using assms(2) by simp
  next
    case 2
    then have "unat y = 0" "unat x = 2 ^ 32 - 1" using fold32_inj_nat [OF 2 lt(1) e [symmetric]] by auto
    then have "y = 0" "x = - 1" using m by (auto simp: word_unat_eq_iff)
    then show False using assms(2) by (simp add: insert_commute)
  qed
qed

text \<open>The fields of the second layout that enter the sum as unsigned 32-bit numbers.\<close>

definition fields32 :: "((share_v2 \<Rightarrow> u32) \<times> ((u32 \<Rightarrow> u32) \<Rightarrow> share_v2 \<Rightarrow> share_v2)) list" where
  "fields32 = [(v2_blkBits, v2_blkBits_update), (v2_height, v2_height_update), (v2_nonce, v2_nonce_update), (v2_sessionId, v2_sessionId_update)]"

lemma checkSum_field:
  assumes "(get, upd) \<in> set fields32"
  shows "\<exists>b. \<forall>x. checkSum (upd (\<lambda>_. x) s) = fold32 (b + ucast x)" "upd (\<lambda>_. get s) s = s"
    "v2_checkSum (upd (\<lambda>_. x) s) = v2_checkSum s" "v2_version (upd (\<lambda>_. x) s) = v2_version s" "v2_ip (upd (\<lambda>_. x) s) = v2_ip s"
proof -
  define w where "w = (ucast (v2_version s) :: u64) + v2_workerHashId s + scast (v2_userId s) + scast (v2_status s) +
       v2_timestamp s + GetUint64 (v2_ip s) 0 + GetUint64 (v2_ip s) 1 + v2_jobId s + v2_shareDiff s"
  have "\<exists>b. \<forall>x. checkSum (s\<lparr>v2_blkBits := x\<rparr>) = fold32 (b + ucast x)"
    by (rule exI [of _ "w + ucast (v2_height s) + ucast (v2_nonce s) + ucast (v2_sessionId s)"])
      (simp add: checkSum_def fold32_def Let_def w_def ac_simps)
  moreover have "\<exists>b. \<forall>x. checkSum (s\<lparr>v2_height := x\<rparr>) = fold32 (b + ucast x)"
    by (rule exI [of _ "w + ucast (v2_blkBits s) + ucast (v2_nonce s) + ucast (v2_sessionId s)"])
      (simp add: checkSum_def fold32_def Let_def w_def ac_simps)
  moreover have "\<exists>b. \<forall>x. checkSum (s\<lparr>v2_nonce := x\<rparr>) = fold32 (b + ucast x)"
    by (rule exI [of _ "w + ucast (v2_blkBits s) + ucast (v2_height s) + ucast (v2_sessionId s)"])
      (simp add: checkSum_def fold32_def Let_def w_def ac_simps)
  moreover have "\<exists>b. \<forall>x. checkSum (s\<lparr>v2_sessionId := x\<rparr>) = fold32 (b + ucast x)"
    by (rule exI [of _ "w + ucast (v2_blkBits s) + ucast (v2_height s) + ucast (v2_nonce s)"])
      (simp add: checkSum_def fold32_def Let_def w_def ac_simps)
  ultimately show "\<exists>b. \<forall>x. checkSum (upd (\<lambda>_. x) s) = fold32 (b + ucast x)" using assms by (auto simp: fields32_def)
qed (use assms in \<open>auto simp: fields32_def\<close>)

text \<open>
  C38. A message of the second layout in which the bits, the height, the nonce or the session id was
  altered after the check sum was taken is refused, unless the field went from one extreme of its
  range to the other.
\<close>

theorem altered_share_refused:
  assumes "length (v2_ip s) = 16" "v2_version s = SHARE_BYTES_VERSION" "v2_checkSum s = checkSum s"
    "(get, upd) \<in> set fields32" "x \<noteq> get s" "{get s, x} \<noteq> {0, - 1}"
  shows "UnserializeWithVersion P I u (Some (share_v2_bytes (upd (\<lambda>_. x) s))) m = Some (False, m)"
proof -
  obtain b where b: "\<And>y. checkSum (upd (\<lambda>_. y) s) = fold32 (b + ucast y)" using checkSum_field(1) [OF assms(4), of s] by auto
  have "checkSum s = fold32 (b + ucast (get s))" using b [of "get s"] checkSum_field(2) [OF assms(4), of s] by simp
  then have "checkSum (upd (\<lambda>_. x) s) \<noteq> checkSum s" using b [of x] fold32_inj [of b "get s" x] assms(5,6) by auto
  then show ?thesis using assms(1-3) by (simp add: read_v2 checkSum_field(3-5) [OF assms(4)])
qed

theorem altered_share_refused_witness:
  "UnserializeWithVersion (\<lambda>_. (True, ShareBitcoin0)) (\<lambda>_. ''::'') False (Some (share_v2_bytes (example_share\<lparr>v2_nonce := 8\<rparr>))) ShareBitcoin0 =
     Some (False, ShareBitcoin0)"
proof -
  have "v2_version example_share = SHARE_BYTES_VERSION" "v2_checkSum example_share = checkSum example_share" "v2_nonce example_share = 3"
    using example_share_valid(2) by (simp_all add: share_v2_isValid_def example_share_def example_v2_def)
  then show ?thesis
    by (intro altered_share_refused [OF example_share_valid(1), of v2_nonce v2_nonce_update]) (simp_all add: fields32_def doubleton_eq_iff)
qed

section \<open>Scores\<close>

lemma rnd53_le_one: "0 \<le> q \<Longrightarrow> q \<le> 1 \<Longrightarrow> rnd53 q \<le> 1"
proof -
  assume q: "0 \<le> q" "q \<le> 1"
  consider "q = 0" | "q = 1" | "0 < q" "q < 1" using q by linarith
  then show ?thesis
  proof cases
    case 3
    let ?e = "ilog2 q" let ?k = "?e - 52" let ?m = "round_even (q / pow2 ?k)"
    have b: "pow2 ?e \<le> q" "q < pow2 (?e + 1)" using ilog2_bounds [OF 3(1)] by auto
    have p0: "pow2 0 = 1" by (simp add: pow2_def)
    have "?e < 0"
    proof (rule ccontr)
      assume "\<not> ?e < 0"
      then have "pow2 0 \<le> pow2 ?e" by (intro pow2_mono) simp
      then show False using b(1) 3(2) p0 by linarith
    qed
    then have one: "2 ^ 53 * pow2 ?k \<le> 1" using pow2_mono [of "?e + 1" 0] pow2_add_nat [of ?k 53] by (simp add: p0 add.commute)
    have "q < 2 ^ 53 * pow2 ?k" using b(2) pow2_add_nat [of ?k 53] by (simp add: add.commute)
    then have "\<bar>q / pow2 ?k\<bar> < of_int (2 ^ 53)" using 3(1) by (simp add: abs_divide divide_less_eq)
    then have "?m \<le> 2 ^ 53" using round_even_abs_le [of "q / pow2 ?k" "2 ^ 53"] by linarith
    then have "(of_int ?m :: rat) \<le> of_int (2 ^ 53)" by (simp only: of_int_le_iff)
    then have "of_int ?m * pow2 ?k \<le> of_int (2 ^ 53) * pow2 ?k" by (rule mult_right_mono) (simp add: less_imp_le)
    moreover have "rnd53 q = of_int ?m * pow2 ?k" using 3(1) by (simp add: rnd53_def Let_def)
    moreover have "of_int (2 ^ 53) * pow2 ?k \<le> 1" using one by simp
    ultimately show ?thesis by (metis order_trans)
  qed (use rnd53_of_int [of 1] in \<open>simp_all add: rnd53_def\<close>)
qed

lemma rnd53_nonneg: "0 \<le> q \<Longrightarrow> 0 \<le> rnd53 q"
  using rnd53_pos [of q] by (cases "q = 0") (simp_all add: rnd53_def less_imp_le)

lemma share_score_bounds: "0 \<le> share_score b s \<and> share_score b s \<le> 1"
proof -
  have r: "0 \<le> d div n \<and> d div n \<le> 1" if "0 \<le> f64_val d" "\<not> n < d" for d n :: f64
  proof -
    have "0 \<le> f64_val d / f64_val n" "f64_val d / f64_val n \<le> 1" using that by (auto simp: less_f64_def divide_le_eq_1 not_less)
    then show ?thesis by (simp add: less_eq_f64_def zero_f64_def one_f64_def divide_f64_def rnd53_nonneg rnd53_le_one)
  qed
  have d: "0 \<le> f64_val (f64_of_int (uint x))" for x :: u64 
    unfolding f64_of_int_def f64_of_def f64.sel by (rule rnd53_nonneg) (simp only: of_int_0_le_iff unsigned_greater_eq)
  have "(0 :: f64) \<le> 1" by (simp add: less_eq_f64_def zero_f64_def one_f64_def)
  then show ?thesis using r [OF d] by (simp add: share_score_def Let_def split: option.splits)
qed

section \<open>Versioned coding and addresses\<close>

text \<open>A coding that protobuf reads back is read back with the version in front.\<close>

lemma versioned_round_trip:
  assumes "AppendToString m = Some b" "ParseFromArray b = (True, m)" "b \<noteq> []" "ver m = CURRENT"
  shows "\<exists>d. SerializeToStringWithVersion AppendToString ver m = Some d \<and> UnserializeWithVersion_base CURRENT ParseFromArray (Some d) s = (True, m)"
  using assms by (cases b) (auto simp: SerializeToStringWithVersion_def UnserializeWithVersion_base_def ReadLE32_WriteLE32)

text \<open>The four bytes of an IPv4 address are kept; a text with a colon is read as IPv4 and refused.\<close>

lemma ipv4_int_round_trip: "toIpv4Int (fromIpv4Int ip) = ip \<and> isIpv4 (fromIpv4Int ip) \<and> length (fromIpv4Int ip) = 16"
  by (simp add: toIpv4Int_def fromIpv4Int_def isIpv4_def addrUint32_def ReadLE32_def numeral_eq_Suc)
    (use ReadLE32_WriteLE32_nil [of ip] in \<open>simp add: ReadLE32_def numeral_eq_Suc\<close>)

lemma ip_fromString_ipv6_fails:
  assumes "CHR '':'' \<in> set str" "\<And>t b. inet_pton4 t = Some b \<Longrightarrow> CHR '':'' \<notin> set t"
  shows "ip_fromString inet_pton4 str a = (False, a)"
  using assms by (cases "inet_pton4 str") (auto simp: ip_fromString_def isIpv4_str_def)

end
