(* ===== verification/Check_Share.thy ===== *)
theory Check_Share
  imports Job_Repository Merkle Share_Bitcoin
begin

text \<open>
  The Bitcoin server's side of a share (bitcoin/StratumServerBitcoin.cc): the texts of a job that a
  session sends out (\<open>StratumJobExBitcoin::init\<close>), the coinbase and the block header a share stands
  for, and \<open>checkShare\<close>. The block header and its hash come from the Bitcoin library: hashing and
  serialization are parameters. The solved shares sent to Kafka and the jobs marked stale are a log
  of effects. The Zcash build, which checks an Equihash solution, is not modelled.
\<close>

section \<open>Formats\<close>

text \<open>\<open>%0wx\<close>: lower-case hex digits, filled up with zeros to \<open>w\<close> characters.\<close>

fun hex_digits :: "nat \<Rightarrow> string" where
  "hex_digits n = (if n < 16 then [hexchars ! n] else hex_digits (n div 16) @ [hexchars ! (n mod 16)])"

declare hex_digits.simps [simp del]

definition format_x :: "nat \<Rightarrow> nat \<Rightarrow> string" where
  "format_x w n = (let d = hex_digits n in replicate (w - length d) (CHR ''0'') @ d)"

text \<open>\<open>snprintf(buf, n, "%s", s)\<close> on a zeroed buffer of \<open>n\<close> characters.\<close>

definition snprintf_s :: "nat \<Rightarrow> string \<Rightarrow> string" where
  "snprintf_s n s = take (n - 1) (c_str s)"

section \<open>The texts of a job\<close>

record job_notify =
  miningNotify1 :: string
  miningNotify2 :: string
  jn_coinbase1 :: string
  jn_grandCoinbase1 :: string
  miningNotify3 :: string
  miningNotify3Clean :: string

definition merkleBranchStr :: "bytes list \<Rightarrow> string" where
  "merkleBranchStr bs = butlast (concat (map (\<lambda>b. ''\"'' @ Bin2Hex b @ ''\",'') bs))"

definition jobExtraNonce2Size :: "sjob_bitcoin \<Rightarrow> int" where
  "jobExtraNonce2Size sjob =
     (if sb_proxyExtraNonce2Size sjob > 0 then uint (sb_proxyExtraNonce2Size sjob) - int kExtraNonce1Size else int kExtraNonce2Size)"

definition notify3 :: "sjob_bitcoin \<Rightarrow> string \<Rightarrow> string" where
  "notify3 sjob clean = ''\",\"'' @ sb_coinbase2 sjob @ ''\",['' @ merkleBranchStr (sb_merkleBranch sjob) @ ''],\"'' @
     format_x 8 (unat (sb_nVersion sjob)) @ ''\",\"'' @ format_x 8 (unat (sb_nBits sjob)) @ ''\",\"'' @
     format_x 8 (unat (sb_nTime sjob)) @ ''\",'' @ clean @ '']}'' @ [CHR 0x0a]"

definition jobex_init :: "u32 \<Rightarrow> bool \<Rightarrow> sjob_bitcoin \<Rightarrow> job_notify" where
  "jobex_init extraNonce2Size isClean sjob =
     \<lparr>miningNotify1 = ''{\"id\":null,\"method\":\"mining.notify\",\"params\":[\"'',
      miningNotify2 = ''\",\"'' @ sb_prevHashBeStr sjob @ ''\",\"'',
      jn_coinbase1 = c_str (sb_coinbase1 sjob) @
        (if jobExtraNonce2Size sjob > uint extraNonce2Size
         then replicate (nat ((jobExtraNonce2Size sjob - uint extraNonce2Size) * 2)) (CHR ''0'') else []),
      jn_grandCoinbase1 = c_str (sb_grandCoinbase1 sjob),
      miningNotify3 = notify3 sjob (if isClean then ''true'' else ''false''),
      miningNotify3Clean = notify3 sjob ''true''\<rparr>"

section \<open>Coinbase and header of a share\<close>

record block_header =
  bh_nVersion :: u32
  bh_hashPrevBlock :: bytes
  bh_hashMerkleRoot :: bytes
  bh_nTime :: u32
  bh_nBits :: u32
  bh_nNonce :: u32

text \<open>What the Bitcoin library provides: \<open>Hash\<close>, the hash of a header, its serialization and its memory.\<close>

record chain_lib =
  cl_Hash :: "bytes \<Rightarrow> bytes"
  cl_headerHash :: "block_header \<Rightarrow> bytes"
  cl_serialize :: "block_header \<Rightarrow> bytes"
  cl_memory :: "block_header \<Rightarrow> bytes"

definition coinbase_hex :: "sjob_bitcoin \<Rightarrow> u32 \<Rightarrow> string \<Rightarrow> bool \<Rightarrow> u32 \<Rightarrow> string" where
  "coinbase_hex sjob extraNonce1 extraNonce2Hex isGrandPoolClient extraGrandNonce1 =
     (if isGrandPoolClient
      then sb_grandCoinbase1 sjob @ format_x 8 (unat extraNonce1) @ format_x 8 (unat extraGrandNonce1) @ extraNonce2Hex
      else sb_coinbase1 sjob @ format_x 8 (unat extraNonce1) @ extraNonce2Hex) @ sb_coinbase2 sjob"

definition generateCoinbaseTx :: "sjob_bitcoin \<Rightarrow> u32 \<Rightarrow> string \<Rightarrow> bool \<Rightarrow> u32 \<Rightarrow> bytes" where
  "generateCoinbaseTx sjob extraNonce1 extraNonce2Hex isGrandPoolClient extraGrandNonce1 =
     snd (Hex2Bin (c_str (coinbase_hex sjob extraNonce1 extraNonce2Hex isGrandPoolClient extraGrandNonce1)))"

definition generateBlockHeader :: "chain_lib \<Rightarrow> sjob_bitcoin \<Rightarrow> bytes \<Rightarrow> u32 \<Rightarrow> u32 \<Rightarrow> u32 \<Rightarrow> block_header" where
  "generateBlockHeader lib sjob coinbaseBin nTime nonce versionMask =
     \<lparr>bh_nVersion = sb_nVersion sjob XOR versionMask, bh_hashPrevBlock = sb_prevHash sjob,
      bh_hashMerkleRoot = ComputeCoinbaseMerkleRoot (cl_Hash lib) coinbaseBin (sb_merkleBranch sjob),
      bh_nTime = nTime, bh_nBits = sb_nBits sjob, bh_nNonce = nonce\<rparr>"

section \<open>Solved shares\<close>

text \<open>\<open>BitcoinHeaderData::set\<close>: \<^term>\<open>None\<close> is the failed \<open>assert\<close> on the size.\<close>

definition BitcoinHeaderSize :: nat where "BitcoinHeaderSize = 80"

definition headerData_set :: "chain_lib \<Rightarrow> block_header \<Rightarrow> bytes option" where
  "headerData_set lib header = (let b = cl_serialize lib header in
     if length b \<le> BitcoinHeaderSize then Some (b @ replicate (BitcoinHeaderSize - length b) 0) else None)"

record found_block =
  fb_jobId :: u64
  fb_workerId :: u64
  fb_userId :: u32
  fb_height :: nat
  fb_headerData :: bytes
  fb_workerFullName :: string

record rsk_solved = found_block +
  rs_feesForMiner :: string
  rs_rpcAddress :: string
  rs_rpcUserPwd :: string

datatype check_effect =
    SolvedShare found_block bytes
  | MarkStale nat
  | RskSolvedShare rsk_solved bytes
  | AuxSolvedShare string

section \<open>Checking a share\<close>

text \<open>
  The server's settings that a check reads. \<open>cs_singleUserId\<close> is the pool's user in single-user
  mode, for the chain of the share.
\<close>

record check_server = server_bitcoin +
  cs_DiffOneBits :: u32
  cs_isSubmitInvalidBlock :: bool
  cs_isEnableSimulator :: bool
  cs_singleUserMode :: bool
  cs_singleUserId :: u32

definition early_status :: "'a server_bitcoin_scheme \<Rightarrow> bool \<Rightarrow> sjob_bitcoin \<Rightarrow> u32 \<Rightarrow> u32 \<Rightarrow> int" where
  "early_status srv stale sjob nTime versionMask =
     (let s0 = (if stale then STALE_SHARE else UNKNOWN_STATUS);
          s1 = (if s0 = UNKNOWN_STATUS \<and> nTime < sb_minTime sjob then TIME_TOO_OLD else s0);
          s2 = (if s1 = UNKNOWN_STATUS \<and> nTime > sb_nTime sjob + 600 then TIME_TOO_NEW else s1)
      in if s2 = UNKNOWN_STATUS \<and> versionMask \<noteq> 0 \<and> (NOT (srv_versionMask srv)) AND versionMask \<noteq> 0
         then ILLEGAL_VERMASK else s2)"

definition found_block_data :: "check_server \<Rightarrow> share_bitcoin \<Rightarrow> sjob_bitcoin \<Rightarrow> string \<Rightarrow> bytes \<Rightarrow> found_block" where
  "found_block_data srv share sjob workFullName headerData =
     \<lparr>fb_jobId = shb_jobid share, fb_workerId = shb_workerhashid share,
      fb_userId = (if cs_singleUserMode srv then cs_singleUserId srv else shb_userid share),
      fb_height = sj_height sjob, fb_headerData = headerData, fb_workerFullName = snprintf_s 40 workFullName\<rparr>"

definition rsk_solved_data :: "share_bitcoin \<Rightarrow> sjob_bitcoin \<Rightarrow> string \<Rightarrow> bytes \<Rightarrow> rsk_solved" where
  "rsk_solved_data share sjob workFullName headerData =
     \<lparr>fb_jobId = shb_jobid share, fb_workerId = shb_workerhashid share, fb_userId = shb_userid share,
      fb_height = sj_height sjob, fb_headerData = headerData, fb_workerFullName = snprintf_s 40 workFullName,
      rs_feesForMiner = snprintf_s 80 (sb_feesForMiner sjob), rs_rpcAddress = snprintf_s 80 (sb_rskdRpcAddress sjob),
      rs_rpcUserPwd = snprintf_s 80 (sb_rskdRpcUserPwd sjob)\<rparr>"

definition auxSolvedShare :: "chain_lib \<Rightarrow> share_bitcoin \<Rightarrow> sjob_bitcoin \<Rightarrow> block_header \<Rightarrow> bytes \<Rightarrow> string" where
  "auxSolvedShare lib share sjob header coinbaseBin =
     ''{\"job_id\":'' @ to_string (unat (shb_jobid share)) @
     '',\"aux_block_hash\":\"'' @ blob_GetHex (sb_nmcAuxBlockHash sjob) @
     ''\",\"block_header\":\"'' @ Bin2Hex (cl_memory lib header) @
     ''\",\"coinbase_tx\":\"'' @ Bin2Hex coinbaseBin @
     ''\",\"rpc_addr\":\"'' @ sb_nmcRpcAddr sjob @
     ''\",\"rpc_userpass\":\"'' @ sb_nmcRpcUserpass sjob @ ''\"}''"

text \<open>
  The part of the check that runs in the share workers; \<open>shareStatus\<close> is the early status. The log
  line for a share of high difficulty divides by the hash and by the network target: \<^term>\<open>None\<close> if
  one of them is zero.
\<close>

definition check_in_worker ::
  "chain_lib \<Rightarrow> check_server \<Rightarrow> share_bitcoin \<Rightarrow> bytes \<Rightarrow> int \<Rightarrow> string \<Rightarrow> sjob_bitcoin \<Rightarrow> block_header \<Rightarrow> bytes \<Rightarrow>
   (int \<times> u32 \<times> check_effect list) option" where
  "check_in_worker lib srv share jobTarget shareStatus workFullName sjob header coinbaseBin =
     (let blkHash = cl_headerHash lib header;
          bnBlockHash = UintToArith256 blkHash;
          bnNetworkTarget = UintToArith256 (sb_networkTarget sjob)
      in do {
        bitsReached \<leftarrow> GetCompact False bnBlockHash;
        solved \<leftarrow> (if shareStatus = UNKNOWN_STATUS \<and> (cs_isSubmitInvalidBlock srv \<or> CompareTo bnBlockHash bnNetworkTarget \<le> 0)
          then do {
            headerData \<leftarrow> headerData_set lib header;
            Some (SolvedShare (found_block_data srv share sjob workFullName headerData) coinbaseBin #
              (if sb_proxyJobDifficulty sjob > 0 then [] else [MarkStale (sj_height sjob)]))
          } else Some []);
        _ \<leftarrow> (if sb_proxyJobDifficulty sjob = 0 \<and> CompareTo (au_shr bnBlockHash 10) bnNetworkTarget \<le> 0
          then do {
            _ \<leftarrow> TargetToDiff (cs_DiffOneBits srv) blkHash;
            TargetToDiff (cs_DiffOneBits srv) (sb_networkTarget sjob)
          } else Some 0);
        rsk \<leftarrow> (if sb_blockHashForMergedMining sjob \<noteq> [] \<and>
             (cs_isSubmitInvalidBlock srv \<or> CompareTo bnBlockHash (UintToArith256 (sb_rskNetworkTarget sjob)) \<le> 0)
          then do {
            headerData \<leftarrow> headerData_set lib header;
            Some [RskSolvedShare (rsk_solved_data share sjob workFullName headerData) coinbaseBin]
          } else Some []);
        let aux = (if sb_nmcAuxBits sjob \<noteq> 0 \<and>
             (cs_isSubmitInvalidBlock srv \<or> CompareTo bnBlockHash (UintToArith256 (sb_nmcNetworkTarget sjob)) \<le> 0)
          then [AuxSolvedShare (auxSolvedShare lib share sjob header coinbaseBin)] else []);
        let s1 = (if shareStatus = UNKNOWN_STATUS \<and> \<not> cs_isEnableSimulator srv \<and> CompareTo bnBlockHash (UintToArith256 jobTarget) > 0
          then LOW_DIFFICULTY else shareStatus);
        let s2 = (if s1 = UNKNOWN_STATUS then ACCEPT else s1);
        Some (s2, bitsReached, solved @ rsk @ aux)
      })"

definition checkShare ::
  "chain_lib \<Rightarrow> check_server \<Rightarrow> sjob_bitcoin job_repository \<Rightarrow> share_bitcoin \<Rightarrow> u32 \<Rightarrow> string \<Rightarrow> u32 \<Rightarrow> u32 \<Rightarrow> u32 \<Rightarrow> bytes \<Rightarrow>
   string \<Rightarrow> bool \<Rightarrow> u32 \<Rightarrow> (int \<times> u32 \<times> check_effect list) option" where
  "checkShare lib srv repo share extraNonce1 extraNonce2Hex nTime nonce versionMask jobTarget workFullName
     isGrandPoolClient extraGrandNonce1 =
     (case getStratumJobEx (shb_jobid share) repo of
        None \<Rightarrow> Some (JOB_NOT_FOUND, 0, [])
      | Some exJob \<Rightarrow>
          let sjob = jx_sjob exJob;
              shareStatus = early_status srv (isStale exJob) sjob nTime versionMask;
              coinbaseBin = generateCoinbaseTx sjob extraNonce1 extraNonce2Hex isGrandPoolClient extraGrandNonce1;
              header = generateBlockHeader lib sjob coinbaseBin nTime nonce versionMask
          in check_in_worker lib srv share jobTarget shareStatus workFullName sjob header coinbaseBin)"

section \<open>Verdicts\<close>

text \<open>The number a hash or a target stands for.\<close>

definition num256 :: "bytes \<Rightarrow> nat" where
  "num256 b = au_val (UintToArith256 b)"

lemma length_UintToArith256 [simp]: "length (UintToArith256 b) = WIDTH"
  by (simp add: UintToArith256_def)

lemma CompareTo_num256:
  "CompareTo (UintToArith256 a) (UintToArith256 b) \<le> 0 \<longleftrightarrow> num256 a \<le> num256 b"
  "CompareTo (UintToArith256 a) (UintToArith256 b) > 0 \<longleftrightarrow> num256 b < num256 a"
  by (simp_all add: CompareTo_val num256_def sgn_if)

lemma GetCompact_returns: "length a = WIDTH \<Longrightarrow> \<exists>c. GetCompact False a = Some c"
  using GetCompact_eq(1) [OF _ refl refl refl, of a] by blast

lemma TargetToDiff_returns: "num256 t \<noteq> 0 \<Longrightarrow> \<exists>d. TargetToDiff bits t = Some d"
  using au_div_val [of "GetDiffOneTarget bits" "UintToArith256 t"]
  by (auto simp: num256_def TargetToDiff_def GetDiffOneTarget_def compact_value_length)

text \<open>The checks before the share workers, in their order, and the checks as one condition.\<close>

definition in_time :: "sjob_bitcoin \<Rightarrow> u32 \<Rightarrow> bool" where
  "in_time sjob nTime \<longleftrightarrow> sb_minTime sjob \<le> nTime \<and> nTime \<le> sb_nTime sjob + 600"

definition mask_allowed :: "'a server_bitcoin_scheme \<Rightarrow> u32 \<Rightarrow> bool" where
  "mask_allowed srv versionMask \<longleftrightarrow> (NOT (srv_versionMask srv)) AND versionMask = 0"

lemma early_status_unknown:
  "early_status srv stale sjob nTime versionMask = UNKNOWN_STATUS \<longleftrightarrow> \<not> stale \<and> in_time sjob nTime \<and> mask_allowed srv versionMask"
  by (auto simp: early_status_def Let_def in_time_def mask_allowed_def status_defs not_less)

lemma early_status_cases:
  "early_status srv stale sjob nTime versionMask =
     (if stale then STALE_SHARE else if nTime < sb_minTime sjob then TIME_TOO_OLD
      else if nTime > sb_nTime sjob + 600 then TIME_TOO_NEW
      else if \<not> mask_allowed srv versionMask then ILLEGAL_VERMASK else UNKNOWN_STATUS)"
  by (auto simp: early_status_def Let_def mask_allowed_def status_defs)

definition solves_block :: "check_server \<Rightarrow> int \<Rightarrow> sjob_bitcoin \<Rightarrow> bytes \<Rightarrow> bool" where
  "solves_block srv status sjob blkHash \<longleftrightarrow>
     status = UNKNOWN_STATUS \<and> (cs_isSubmitInvalidBlock srv \<or> num256 blkHash \<le> num256 (sb_networkTarget sjob))"

lemma check_in_worker_result:
  assumes "length (cl_serialize lib header) \<le> 80" "num256 (cl_headerHash lib header) \<noteq> 0" "num256 (sb_networkTarget sjob) \<noteq> 0"
  obtains bits headerData merged where
    "check_in_worker lib srv share jobTarget status name sjob header cb =
       Some (if status \<noteq> UNKNOWN_STATUS then status
             else if \<not> cs_isEnableSimulator srv \<and> num256 jobTarget < num256 (cl_headerHash lib header) then LOW_DIFFICULTY else ACCEPT, bits,
             (if solves_block srv status sjob (cl_headerHash lib header)
              then SolvedShare (found_block_data srv share sjob name headerData) cb #
                (if sb_proxyJobDifficulty sjob > 0 then [] else [MarkStale (sj_height sjob)]) else []) @ merged)"
    "headerData_set lib header = Some headerData" "take (length (cl_serialize lib header)) headerData = cl_serialize lib header"
    "\<forall>e \<in> set merged. (\<exists>r c. e = RskSolvedShare r c) \<or> (\<exists>t. e = AuxSolvedShare t)"
proof -
  obtain bits where b: "GetCompact False (UintToArith256 (cl_headerHash lib header)) = Some bits"
    using GetCompact_returns [OF length_UintToArith256] by blast
  obtain hd where h: "headerData_set lib header = Some hd" "take (length (cl_serialize lib header)) hd = cl_serialize lib header"
    using assms(1) by (simp add: headerData_set_def Let_def BitcoinHeaderSize_def)
  obtain d d' where d: "TargetToDiff (cs_DiffOneBits srv) (cl_headerHash lib header) = Some d"
    "TargetToDiff (cs_DiffOneBits srv) (sb_networkTarget sjob) = Some d'"
    using TargetToDiff_returns assms(2,3) by blast
  define rsk where "rsk = (if sb_blockHashForMergedMining sjob \<noteq> [] \<and> (cs_isSubmitInvalidBlock srv \<or>
      num256 (cl_headerHash lib header) \<le> num256 (sb_rskNetworkTarget sjob)) then [RskSolvedShare (rsk_solved_data share sjob name hd) cb] else [])"
  define aux where "aux = (if sb_nmcAuxBits sjob \<noteq> 0 \<and> (cs_isSubmitInvalidBlock srv \<or>
      num256 (cl_headerHash lib header) \<le> num256 (sb_nmcNetworkTarget sjob)) then [AuxSolvedShare (auxSolvedShare lib share sjob header cb)] else [])"
  define solved where "solved = (if solves_block srv status sjob (cl_headerHash lib header)
      then SolvedShare (found_block_data srv share sjob name hd) cb # (if sb_proxyJobDifficulty sjob > 0 then [] else [MarkStale (sj_height sjob)]) else [])"
  have m: "\<forall>e \<in> set (rsk @ aux). (\<exists>r c. e = RskSolvedShare r c) \<or> (\<exists>t. e = AuxSolvedShare t)"
    by (auto simp: rsk_def aux_def)
  have s: "(if status = UNKNOWN_STATUS \<and> (cs_isSubmitInvalidBlock srv \<or> num256 (cl_headerHash lib header) \<le> num256 (sb_networkTarget sjob))
      then Some (SolvedShare (found_block_data srv share sjob name hd) cb #
         (if sb_proxyJobDifficulty sjob > 0 then [] else [MarkStale (sj_height sjob)])) else Some []) = Some solved"
    by (simp add: solved_def solves_block_def)
  have r: "(if sb_blockHashForMergedMining sjob \<noteq> [] \<and> (cs_isSubmitInvalidBlock srv \<or> num256 (cl_headerHash lib header) \<le> num256 (sb_rskNetworkTarget sjob))
      then Some [RskSolvedShare (rsk_solved_data share sjob name hd) cb] else Some []) = Some rsk"
    by (simp add: rsk_def)
  have u: "LOW_DIFFICULTY \<noteq> UNKNOWN_STATUS" by (simp add: status_defs)
  have "check_in_worker lib srv share jobTarget status name sjob header cb =
       Some (if status \<noteq> UNKNOWN_STATUS then status
             else if \<not> cs_isEnableSimulator srv \<and> num256 jobTarget < num256 (cl_headerHash lib header) then LOW_DIFFICULTY else ACCEPT, bits,
             solved @ rsk @ aux)"
    unfolding check_in_worker_def Let_def CompareTo_num256 b h(1) d Option.bind.bind_lunit s r aux_def [symmetric]
    by (simp add: u)
  then show ?thesis by (intro that [OF _ h m]) (simp only: solved_def)
qed

lemma checkShare_found:
  assumes "getStratumJobEx (shb_jobid share) repo = Some x" "sjob = jx_sjob x" "cb = generateCoinbaseTx sjob e1 en2 grand eg"
    "header = generateBlockHeader lib sjob cb nTime nonce vm" "status = early_status srv (isStale x) sjob nTime vm"
    "length (cl_serialize lib header) \<le> 80" "num256 (cl_headerHash lib header) \<noteq> 0" "num256 (sb_networkTarget sjob) \<noteq> 0"
  obtains bits headerData merged where
    "checkShare lib srv repo share e1 en2 nTime nonce vm target name grand eg =
       Some (if status \<noteq> UNKNOWN_STATUS then status
             else if \<not> cs_isEnableSimulator srv \<and> num256 target < num256 (cl_headerHash lib header) then LOW_DIFFICULTY else ACCEPT, bits,
             (if solves_block srv status sjob (cl_headerHash lib header)
              then SolvedShare (found_block_data srv share sjob name headerData) cb #
                (if sb_proxyJobDifficulty sjob > 0 then [] else [MarkStale (sj_height sjob)]) else []) @ merged)"
    "take (length (cl_serialize lib header)) headerData = cl_serialize lib header"
    "\<forall>e \<in> set merged. (\<exists>r c. e = RskSolvedShare r c) \<or> (\<exists>t. e = AuxSolvedShare t)"
proof -
  have "checkShare lib srv repo share e1 en2 nTime nonce vm target name grand eg =
      check_in_worker lib srv share target status name sjob header cb"
    by (simp add: checkShare_def Let_def assms(1-5))
  then show ?thesis using check_in_worker_result [OF assms(6-8), of srv share target status name cb] that by metis
qed


definition lib0 :: chain_lib where
  "lib0 = \<lparr>cl_Hash = (\<lambda>b. replicate 32 (of_nat (length b))), cl_headerHash = (\<lambda>_. 5 # replicate 31 0), cl_serialize = (\<lambda>_. []), cl_memory = (\<lambda>_. [])\<rparr>"

definition srv0 :: check_server where
  "srv0 = \<lparr>srv_extraNonce2Size = 8, srv_subPoolEnabled = False, srv_subPoolName = [], srv_versionMask = 0, cs_DiffOneBits = 0x1d00ffff,
     cs_isSubmitInvalidBlock = False, cs_isEnableSimulator = False, cs_singleUserMode = False, cs_singleUserId = 0\<rparr>"

definition repo0 :: "sjob_bitcoin job_repository" where
  "repo0 = (jr_new 0)\<lparr>exJobs := [(7, \<lparr>jx_state = 0, jx_chainId = 0, jx_isClean = True,
     jx_sjob = (btc_job 7 100)\<lparr>sb_networkTarget := 4 # replicate 31 0\<rparr>\<rparr>)]\<rparr>"

definition share0 :: share_bitcoin where
  "share0 = ShareBitcoin0\<lparr>shb_jobid := 7\<rparr>"

lemma ucast_high_byte: "8 \<le> m \<Longrightarrow> (ucast (drop_bit m (ucast b :: u32)) :: u8) = 0" for b :: u8
  by (rule bit_word_eqI) (auto simp: bit_ucast_iff bit_drop_bit_eq dest!: bit_imp_le_length)

lemma num256_byte: "num256 (b # replicate 31 0) = unat b"
proof -
  have "(ucast (ucast b :: u32) :: u8) = b" by (rule bit_word_eqI) (simp add: bit_ucast_iff)
  then have "WriteLE32 (ucast b) = [b, 0, 0, 0]" "WriteLE32 0 = [0, 0, 0, 0]" by (simp_all add: WriteLE32_def ucast_high_byte)
  then have "b # replicate 31 0 = ArithToUint256 [ucast b, 0, 0, 0, 0, 0, 0, 0]"
    by (simp add: ArithToUint256_def) (simp add: numeral_eq_Suc)
  moreover have "unat b < 2 ^ 8" by (rule order_less_le_trans [OF unsigned_less]) simp
  then have "take_bit 32 (unat b) = unat b" by (intro take_bit_nat_eq_self) simp
  ultimately show ?thesis using UintToArith256_ArithToUint256 [of "[ucast b, 0, 0, 0, 0, 0, 0, 0]"]
    by (simp add: num256_def unsigned_ucast_eq)
qed

lemma find_job0: "getStratumJobEx (shb_jobid share0) repo0 = Some \<lparr>jx_state = 0, jx_chainId = 0, jx_isClean = True,
     jx_sjob = (btc_job 7 100)\<lparr>sb_networkTarget := 4 # replicate 31 0\<rparr>\<rparr>"
  by (simp add: getStratumJobEx_def share0_def repo0_def om_find_def)


section \<open>The coinbase a miner builds\<close>

text \<open>A miner joins the parts of the notification and its two extra nonces.\<close>

definition miner_coinbase :: "job_notify \<Rightarrow> sjob_bitcoin \<Rightarrow> u32 \<Rightarrow> string \<Rightarrow> string" where
  "miner_coinbase n sjob extraNonce1 extraNonce2Hex =
     jn_coinbase1 n @ format_x 8 (unat extraNonce1) @ extraNonce2Hex @ sb_coinbase2 sjob"

text \<open>
  C39. The coinbase of a miner is the one the server checks exactly if the job leaves no more room
  for the second extra nonce than the server hands out: the zeros that the notification is padded
  with otherwise are missing in the server's.
\<close>

theorem coinbase_agrees_iff:
  assumes "nul \<notin> set (sb_coinbase1 sjob)"
  shows "coinbase_hex sjob extraNonce1 extraNonce2Hex False eg =
      miner_coinbase (jobex_init en2size isClean sjob) sjob extraNonce1 extraNonce2Hex \<longleftrightarrow> jobExtraNonce2Size sjob \<le> uint en2size"
proof -
  have "c_str (sb_coinbase1 sjob) = sb_coinbase1 sjob" using assms by (auto simp: c_str_def takeWhile_eq_all_conv)
  then show ?thesis by (auto simp: coinbase_hex_def miner_coinbase_def jobex_init_def not_less dest!: arg_cong [of _ _ length])
qed

theorem coinbase_agrees_iff_witness:
  "coinbase_hex (btc_job 7 100) 1 ''00000000'' False 0 \<noteq> miner_coinbase (jobex_init 4 True (btc_job 7 100)) (btc_job 7 100) 1 ''00000000'' \<and>
   coinbase_hex (btc_job 7 100) 1 ''0000000000000000'' False 0 =
     miner_coinbase (jobex_init 8 True (btc_job 7 100)) (btc_job 7 100) 1 ''0000000000000000''"
  using coinbase_agrees_iff [of "btc_job 7 100" 1 "''00000000''" 0 4 True]
    coinbase_agrees_iff [of "btc_job 7 100" 1 "''0000000000000000''" 0 8 True]
  by (simp add: btc_job_def jobExtraNonce2Size_def kExtraNonce2Size_def)

end
