(* ===== verification/Stratum_Miner.thy ===== *)
theory Stratum_Miner
  imports Diff_Controller Stratum_Worker Stratum_Framing Json_Node Check_Share "HOL-Library.AList"
begin

text \<open>
  A miner of a session (StratumMiner.cc, StratumMiner.h, bitcoin/StratumMinerBitcoin.cc): its
  difficulty, the difficulty of each job sent to it, and the way of a submitted share: from the text
  or the binary message through the duplicate check of the local job to the check of the server, and
  from the result of this check to the answer and to Kafka. The check runs in another thread: its
  outcome is kept as a \<open>pending\<close> record and handled by a later step, when the miner may be gone.
  A step sees one reading of the clock. Answers, statistics and messages to Kafka are effects.
\<close>

section \<open>What a step sees of the server\<close>

text \<open>
  Functions take the chain. Parameters from outside the repository: the Bitcoin library, the
  protobuf writer, the logarithm and the text of an IPv6 address.
\<close>

record pool_env =
  pe_now :: int
  pe_repo :: "nat \<Rightarrow> sjob_bitcoin job_repository"
  pe_srv :: "nat \<Rightarrow> check_server"
  pe_niceHashForced :: "nat \<Rightarrow> bool"
  pe_niceHashMinDiff :: "nat \<Rightarrow> u64"
  pe_acceptStale :: bool
  pe_useShareV1 :: bool
  pe_subPoolExtUserId :: u32
  pe_controller :: diff_controller
  pe_TableSize :: nat
  pe_lib :: chain_lib
  pe_AppendToString :: "share_bitcoin \<Rightarrow> bytes option"
  pe_lg :: "u64 \<Rightarrow> u64"
  pe_inet_ntop6 :: "bytes \<Rightarrow> string"

datatype miner_effect =
    Report nat int u64
  | RespAccepted string
  | RespAcceptedWithStatus string int
  | RespError string int
  | Checked nat "check_effect list"
  | KafkaShare nat bytes

section \<open>The miner\<close>

record miner =
  mi_controller :: diff_controller
  mi_curDiff :: u64
  mi_clientAgent :: string
  mi_isNiceHashClient :: bool
  mi_overrideDifficulty :: bool
  mi_workerName :: string
  mi_workerId :: int
  mi_invalidShares :: "int stats_window"
  mi_jobDiffs :: "(nat \<times> u64) list"

text \<open>Local jobs have addresses that a miner keeps its difficulties under: \<open>lj_addr\<close>, never reused.\<close>

record local_job_bitcoin = "LocalShareBitcoinGrand local_job" +
  lj_shortJobId :: u8
  lj_blkBits :: u32
  lj_addr :: nat

definition INVALID_SHARE_SLIDING_WINDOWS_SIZE :: int where "INVALID_SHARE_SLIDING_WINDOWS_SIZE = 60"
definition INVALID_SHARE_SLIDING_WINDOWS_MAX_LIMIT :: int where "INVALID_SHARE_SLIDING_WINDOWS_MAX_LIMIT = 20"

definition mi_setMinDiff :: "u64 \<Rightarrow> miner \<Rightarrow> miner" where
  "mi_setMinDiff d m = m\<lparr>mi_overrideDifficulty := True, mi_controller := setMinDiff d (mi_controller m)\<rparr>"

definition mi_resetCurDiff :: "u64 \<Rightarrow> miner \<Rightarrow> miner" where
  "mi_resetCurDiff d m = m\<lparr>mi_controller := resetCurDiff d (mi_controller m)\<rparr>"

definition mi_calcCurDiff :: "pool_env \<Rightarrow> nat \<Rightarrow> miner \<Rightarrow> (u64 \<times> miner) option" where
  "mi_calcCurDiff env chainId m = do {
     let c = (if \<not> mi_overrideDifficulty m \<and> (pe_niceHashForced env chainId \<or> mi_isNiceHashClient m)
              then setMinDiff (pe_niceHashMinDiff env chainId) (mi_controller m) else mi_controller m);
     (d, c') \<leftarrow> calcCurDiff (pe_now env) (pe_now env) c;
     Some (d, m\<lparr>mi_controller := c', mi_curDiff := d\<rparr>)
   }"

definition mi_addLocalJob :: "pool_env \<Rightarrow> nat \<Rightarrow> nat \<Rightarrow> miner \<Rightarrow> (u64 \<times> miner) option" where
  "mi_addLocalJob env chainId addr m = do {
     (d, m') \<leftarrow> mi_calcCurDiff env chainId m;
     Some (d, m'\<lparr>mi_jobDiffs := AList.update addr d (mi_jobDiffs m')\<rparr>)
   }"

definition mi_removeLocalJob :: "nat \<Rightarrow> miner \<Rightarrow> miner" where
  "mi_removeLocalJob addr m = m\<lparr>mi_jobDiffs := AList.delete addr (mi_jobDiffs m)\<rparr>"

text \<open>The constructor copies the controller and takes over the local jobs of the session.\<close>

fun mi_addLocalJobs :: "pool_env \<Rightarrow> nat \<Rightarrow> nat list \<Rightarrow> miner \<Rightarrow> miner option" where
  "mi_addLocalJobs env chainId [] m = Some m"
| "mi_addLocalJobs env chainId (a # as) m = do { (_, m') \<leftarrow> mi_addLocalJob env chainId a m; mi_addLocalJobs env chainId as m' }"

definition mi_new :: "pool_env \<Rightarrow> nat \<Rightarrow> nat list \<Rightarrow> string \<Rightarrow> string \<Rightarrow> int \<Rightarrow> miner option" where
  "mi_new env chainId addrs clientAgent workerName workerId = do {
     c \<leftarrow> dc_copy (pe_controller env);
     w \<leftarrow> sw_new INVALID_SHARE_SLIDING_WINDOWS_SIZE;
     mi_addLocalJobs env chainId addrs
       \<lparr>mi_controller = c, mi_curDiff = 0, mi_clientAgent = clientAgent, mi_isNiceHashClient = isNiceHashAgent clientAgent,
        mi_overrideDifficulty = False, mi_workerName = workerName, mi_workerId = workerId, mi_invalidShares = w, mi_jobDiffs = []\<rparr>
   }"

section \<open>Answering a share\<close>

definition share_response :: "pool_env \<Rightarrow> string \<Rightarrow> int \<Rightarrow> miner_effect" where
  "share_response env idStr status =
     (if isAccepted status \<and> (pe_acceptStale env \<or> \<not> isAcceptedStale status)
      then (if isAcceptedStale status then RespAcceptedWithStatus idStr status else RespAccepted idStr)
      else RespError idStr status)"

definition mi_handleShare :: "pool_env \<Rightarrow> string \<Rightarrow> int \<Rightarrow> u64 \<Rightarrow> nat \<Rightarrow> miner \<Rightarrow> (bool \<times> miner_effect list \<times> miner) option" where
  "mi_handleShare env idStr status shareDiff chainId m =
     (if status = SOLVED_PRELIMINARY then Some (True, [], m)
      else do {
        c \<leftarrow> addShare (pe_now env) shareDiff (mi_controller m);
        Some (isAccepted status, [Report chainId status shareDiff, share_response env idStr status], m\<lparr>mi_controller := c\<rparr>)
      })"

definition handleCheckedShare :: "pool_env \<Rightarrow> string \<Rightarrow> nat \<Rightarrow> share_bitcoin \<Rightarrow> miner \<Rightarrow> (bool \<times> miner_effect list \<times> miner) option" where
  "handleCheckedShare env idStr chainId share m = do {
     (accepted, eff, m1) \<leftarrow> mi_handleShare env idStr (sint (shb_status share)) (shb_sharediff share) chainId m;
     if accepted then Some (True, eff, m1)
     else do {
       (_, w) \<leftarrow> sw_insert (mi_invalidShares m1) (pe_now env) 1;
       invalidSharesNum \<leftarrow> sw_sum w (pe_now env) INVALID_SHARE_SLIDING_WINDOWS_SIZE;
       Some (invalidSharesNum < INVALID_SHARE_SLIDING_WINDOWS_MAX_LIMIT, eff, m1\<lparr>mi_invalidShares := w\<rparr>)
     }
   }"

section \<open>Submitting a share\<close>

record session_view =
  sv_sessionId :: u32
  sv_worker :: stratum_worker
  sv_clientIp :: u32
  sv_isGrandPoolClient :: bool

record submit =
  su_idStr :: string
  su_shortJobId :: u8
  su_extraNonce2 :: u64
  su_nonce :: u32
  su_nTime :: u32
  su_versionMask :: u32
  su_extraGrandNonce1 :: u32

record pending =
  pc_idStr :: string
  pc_chainId :: nat
  pc_ip :: u32
  pc_share :: share_bitcoin
  pc_status :: int
  pc_bitsReached :: u32

definition findLocalJob :: "u8 \<Rightarrow> local_job_bitcoin list \<Rightarrow> local_job_bitcoin option" where
  "findLocalJob shortJobId jobs = find (\<lambda>j. lj_shortJobId j = shortJobId) (rev jobs)"

definition masked_extraNonce2 :: "'a server_bitcoin_scheme \<Rightarrow> u64 \<Rightarrow> u64" where
  "masked_extraNonce2 srv extraNonce2 =
     (if unat (srv_extraNonce2Size srv) < 8
      then extraNonce2 AND (push_bit (unat (srv_extraNonce2Size srv) * 8) 1 - 1) else extraNonce2)"

text \<open>The block time of a share (the job's when it sends none) and what it is known by in its local job.\<close>

definition submitted_nTime :: "submit \<Rightarrow> sjob_bitcoin \<Rightarrow> u32" where
  "submitted_nTime su sjob = (if su_nTime su = 0 then sb_nTime sjob else su_nTime su)"

definition submitted_key :: "'a server_bitcoin_scheme \<Rightarrow> submit \<Rightarrow> sjob_bitcoin \<Rightarrow> LocalShareBitcoinGrand" where
  "submitted_key srv su sjob = LocalShareBitcoinGrand (masked_extraNonce2 srv (su_extraNonce2 su)) (su_nonce su)
     (submitted_nTime su sjob) (su_versionMask su) (su_extraGrandNonce1 su)"

definition submitted_share :: "pool_env \<Rightarrow> session_view \<Rightarrow> submit \<Rightarrow> local_job_bitcoin \<Rightarrow> sjob_bitcoin \<Rightarrow> u64 \<Rightarrow> int \<Rightarrow> miner \<Rightarrow> share_bitcoin" where
  "submitted_share env sv su job sjob diff userId m =
     (let srv = pe_srv env (lj_chainId job);
          share = ShareBitcoin0\<lparr>shb_jobid := lj_jobId job, shb_workerhashid := word_of_int (mi_workerId m), shb_userid := word_of_int userId,
            shb_sharediff := diff, shb_blkbits := lj_blkBits job, shb_timestamp := word_of_int (pe_now env),
            shb_height := of_nat (sj_height sjob), shb_versionmask := su_versionMask su, shb_sessionid := sv_sessionId sv,
            shb_status := word_of_int REJECT_NO_REASON, shb_ip := ip_toString (pe_inet_ntop6 env) (fromIpv4Int (sv_clientIp sv)),
            shb_nonce := su_nonce su\<rparr>
      in if cs_singleUserMode srv then share\<lparr>shb_extuserid := Some (shb_userid share), shb_userid := cs_singleUserId srv\<rparr>
         else if srv_subPoolEnabled srv then share\<lparr>shb_extuserid := Some (pe_subPoolExtUserId env)\<rparr> else share)"

definition mi_submit :: "pool_env \<Rightarrow> session_view \<Rightarrow> submit \<Rightarrow> local_job_bitcoin list \<Rightarrow> miner \<Rightarrow>
    (local_job_bitcoin list \<times> miner \<times> miner_effect list \<times> pending option) option" where
  "mi_submit env sv su jobs m =
     (let srv0 = pe_srv env (wk_chainId (sv_worker sv));
          extraNonce2 = masked_extraNonce2 srv0 (su_extraNonce2 su);
          extraNonce2Hex = format_x (unat (srv_extraNonce2Size srv0) * 2) (unat extraNonce2);
          rejectJobNotFound = (\<lambda>chainId. do {
            (_, eff, m') \<leftarrow> mi_handleShare env (su_idStr su) JOB_NOT_FOUND 0 chainId m;
            Some (jobs, m', eff, None) })
      in if length extraNonce2Hex \<noteq> unat (srv_extraNonce2Size srv0) * 2 then None
         else case findLocalJob (su_shortJobId su) jobs of
           None \<Rightarrow> rejectJobNotFound (wk_chainId (sv_worker sv))
         | Some job \<Rightarrow>
           case getStratumJobEx (lj_jobId job) (pe_repo env (lj_chainId job)) of
             None \<Rightarrow> rejectJobNotFound (lj_chainId job)
           | Some exjob \<Rightarrow>
             let sjob = jx_sjob exjob; nTime = submitted_nTime su sjob
             in case map_of (mi_jobDiffs m) (lj_addr job) of
               None \<Rightarrow> rejectJobNotFound (lj_chainId job)
             | Some diff \<Rightarrow> do {
                 userId \<leftarrow> worker_userId (sv_worker sv) (lj_chainId job);
                 let share = submitted_share env sv su job sjob diff userId m;
                 jobTarget \<leftarrow> DiffToTarget (pe_lg env) (cs_DiffOneBits srv0) (pe_TableSize env) (shb_sharediff share) True;
                 case addLocalShare (submitted_key srv0 su sjob) job of
                   (False, _) \<Rightarrow> do {
                     (_, eff, m') \<leftarrow> handleCheckedShare env (su_idStr su) (lj_chainId job)
                       (share\<lparr>shb_status := word_of_int DUPLICATE_SHARE\<rparr>) m;
                     Some (jobs, m', eff, None) }
                 | (True, job') \<Rightarrow> do {
                     (status, bitsReached, ce) \<leftarrow> checkShare (pe_lib env) (pe_srv env (lj_chainId job)) (pe_repo env (lj_chainId job)) share
                       (sv_sessionId sv) extraNonce2Hex nTime (su_nonce su) (su_versionMask su) jobTarget (wk_fullName (sv_worker sv))
                       (sv_isGrandPoolClient sv) (su_extraGrandNonce1 su);
                     Some (map (\<lambda>j. if lj_addr j = lj_addr job then job' else j) jobs, m, [Checked (lj_chainId job) ce],
                       Some \<lparr>pc_idStr = su_idStr su, pc_chainId = lj_chainId job, pc_ip = sv_clientIp sv, pc_share = share,
                             pc_status = status, pc_bitsReached = bitsReached\<rparr>) }
               })"

text \<open>The callback of the check; \<open>alive\<close> tells whether the miner still exists.\<close>

definition sharev1_of :: "u32 \<Rightarrow> share_bitcoin \<Rightarrow> share_v1" where
  "sharev1_of ip share = \<lparr>v1_jobId = shb_jobid share, v1_workerHashId = shb_workerhashid share, v1_ip = ip,
     v1_userId = shb_userid share, v1_shareDiff = shb_sharediff share, v1_timestamp = ucast (shb_timestamp share),
     v1_blkBits = shb_blkbits share, v1_result = (if isAccepted (sint (shb_status share)) then 1 else 0), v1_padding = 0\<rparr>"

definition kafka_share :: "pool_env \<Rightarrow> nat \<Rightarrow> u32 \<Rightarrow> share_bitcoin \<Rightarrow> miner_effect list" where
  "kafka_share env chainId ip share =
     (if pe_useShareV1 env then [KafkaShare chainId (share_v1_bytes (sharev1_of ip share))]
      else case SerializeToStringWithVersion (pe_AppendToString env) shb_version share of
             None \<Rightarrow> [] | Some message \<Rightarrow> [KafkaShare chainId message])"

definition checked_share :: "pending \<Rightarrow> share_bitcoin" where
  "checked_share p = (let s = (pc_share p)\<lparr>shb_status := word_of_int (pc_status p)\<rparr>
     in if pc_bitsReached p > 0 then s\<lparr>shb_bitsreached := Some (pc_bitsReached p)\<rparr> else s)"

definition mi_checked :: "pool_env \<Rightarrow> pending \<Rightarrow> miner \<Rightarrow> (miner_effect list \<times> miner) option" where
  "mi_checked env p m = do {
     let share = checked_share p;
     (send, eff, m') \<leftarrow> handleCheckedShare env (pc_idStr p) (pc_chainId p) share m;
     Some (eff @ (if send then kafka_share env (pc_chainId p) (pc_ip p) share else []), m')
   }"

definition mi_checked_gone :: "pool_env \<Rightarrow> pending \<Rightarrow> miner_effect list" where
  "mi_checked_gone env p = kafka_share env (pc_chainId p) (pc_ip p) (checked_share p)"

section \<open>Decoding a submission\<close>

text \<open>The parameters of \<open>mining.submit\<close>; \<^term>\<open>Inl\<close> is the code of the error answered.\<close>

definition json_submit :: "bool \<Rightarrow> bool \<Rightarrow> string \<Rightarrow> Node \<Rightarrow> (int + submit) option" where
  "json_submit isNiceHashClient isGrandPoolClient idStr jparams =
     (if length (nchildren jparams) < 5 then Some (Inl ILLEGAL_PARARMS)
      else do {
        p0 \<leftarrow> child_at jparams 0; p1 \<leftarrow> child_at jparams 1; p2 \<leftarrow> child_at jparams 2;
        p3 \<leftarrow> child_at jparams 3; p4 \<leftarrow> child_at jparams 4;
        versionMask \<leftarrow> (if length (nchildren jparams) \<ge> 6 then map_option node_uint32_hex (child_at jparams 5) else Some 0);
        Some (Inr \<lparr>su_idStr = idStr,
          su_shortJobId = (if isNiceHashClient then ucast (node_uint64 p1 mod 256) else ucast (node_uint32 p1)),
          su_extraNonce2 = node_uint64_hex p2, su_nonce = node_uint32_hex p4, su_nTime = node_uint32_hex p3,
          su_versionMask = versionMask,
          su_extraGrandNonce1 = (if isGrandPoolClient then node_uint32_hex p0 else 0)\<rparr>)
      })"

definition SUBMIT_SHARE :: u8 where "SUBMIT_SHARE = 0x02"
definition SUBMIT_SHARE_WITH_TIME :: u8 where "SUBMIT_SHARE_WITH_TIME = 0x03"
definition SUBMIT_SHARE_WITH_VER :: u8 where "SUBMIT_SHARE_WITH_VER = 0x12"
definition SUBMIT_SHARE_WITH_TIME_VER :: u8 where "SUBMIT_SHARE_WITH_TIME_VER = 0x13"

text \<open>A binary submission; \<^term>\<open>None\<close> is one that is ignored. The id is filled in by the dispatcher.\<close>

definition ex_submit_share :: "string \<Rightarrow> bool \<Rightarrow> bool \<Rightarrow> submit option" where
  "ex_submit_share exMessage isWithTime isWithVersion =
     (let msgSize = 15 + (if isWithTime then 4 else 0) + (if isWithVersion then 4 else 0);
          sessionId = le16_at exMessage 5
      in if length exMessage \<noteq> msgSize then None
         else if sessionId > AGENT_MAX_SESSION_ID then None
         else Some \<lparr>su_idStr = [], su_shortJobId = byte_at exMessage 4,
                su_extraNonce2 = push_bit 32 (ucast sessionId) OR ucast (le32_at exMessage 7),
                su_nonce = le32_at exMessage 11, su_nTime = (if isWithTime then le32_at exMessage 15 else 0),
                su_versionMask = (if isWithVersion then le32_at exMessage (msgSize - 4) else 0), su_extraGrandNonce1 = 0\<rparr>)"

definition ex_submit :: "string \<Rightarrow> submit option" where
  "ex_submit exMessage =
     (let command = byte_at exMessage 1
      in if command = SUBMIT_SHARE then ex_submit_share exMessage False False
         else if command = SUBMIT_SHARE_WITH_TIME then ex_submit_share exMessage True False
         else if command = SUBMIT_SHARE_WITH_VER then ex_submit_share exMessage False True
         else if command = SUBMIT_SHARE_WITH_TIME_VER then ex_submit_share exMessage True True
         else None)"

section \<open>Every step of a miner returns\<close>

definition mi_inv :: "int \<Rightarrow> miner \<Rightarrow> bool" where
  "mi_inv w m \<longleftrightarrow> dc_inv (mi_controller m) \<and> kDiffWindow (mi_controller m) = w \<and>
     sw_wf (mi_invalidShares m) \<and> windowSize (mi_invalidShares m) = INVALID_SHARE_SLIDING_WINDOWS_SIZE"

text \<open>The environment of a step: a clock past the windows and a usable default controller.\<close>

definition env_ok :: "int \<Rightarrow> pool_env \<Rightarrow> bool" where
  "env_ok w env \<longleftrightarrow> w \<le> pe_now env \<and> 60 \<le> pe_now env \<and> dc_inv (pe_controller env) \<and> kDiffWindow (pe_controller env) = w"

lemma mi_inv_set [simp]: "mi_inv w m \<Longrightarrow> mi_inv w (mi_setMinDiff d m)" "mi_inv w m \<Longrightarrow> mi_inv w (mi_resetCurDiff d m)"
  "mi_inv w m \<Longrightarrow> mi_inv w (mi_removeLocalJob a m)"
  by (simp_all add: mi_inv_def mi_setMinDiff_def mi_resetCurDiff_def mi_removeLocalJob_def)

lemma mi_calcCurDiff_ok:
  assumes "mi_inv w m" "env_ok w env"
  obtains d m' where "mi_calcCurDiff env chainId m = Some (d, m')" "mi_inv w m'" "d \<noteq> 0" "mi_curDiff m' = d"
    "mi_jobDiffs m' = mi_jobDiffs m"
proof -
  define c where "c = (if \<not> mi_overrideDifficulty m \<and> (pe_niceHashForced env chainId \<or> mi_isNiceHashClient m)
              then setMinDiff (pe_niceHashMinDiff env chainId) (mi_controller m) else mi_controller m)"
  have c: "dc_inv c" "kDiffWindow c = w" using assms(1) by (auto simp: c_def mi_inv_def)
  obtain c' where c': "calcCurDiff (pe_now env) (pe_now env) c = Some (max (minDiff c') (curDiff c'), c')" "dc_adjusted c c'"
    using calcCurDiff_ok [OF c(1), of "pe_now env" "pe_now env"] assms(2) c(2) by (auto simp: dc_time_def env_ok_def)
  have "dc_inv c'" "kDiffWindow c' = w" using c' c by (auto simp: dc_adjusted_def dc_same_def)
  moreover have "1 \<le> curDiff c'" using \<open>dc_inv c'\<close> by (auto simp: dc_inv_def intro: order_trans)
  then have "max (minDiff c') (curDiff c') \<noteq> 0" by (metis max.cobounded2 word_le_0_iff zero_neq_one)
  ultimately show ?thesis using that [of "max (minDiff c') (curDiff c')" "m\<lparr>mi_controller := c', mi_curDiff := max (minDiff c') (curDiff c')\<rparr>"] c' assms(1)
    by (simp add: mi_calcCurDiff_def c_def [symmetric] mi_inv_def)
qed

lemma mi_addLocalJob_ok:
  assumes "mi_inv w m" "env_ok w env"
  obtains d m' where "mi_addLocalJob env chainId a m = Some (d, m')" "mi_inv w m'" "d \<noteq> 0" "mi_curDiff m' = d"
    "mi_jobDiffs m' = AList.update a d (mi_jobDiffs m)"
proof -
  obtain d m' where "mi_calcCurDiff env chainId m = Some (d, m')" "mi_inv w m'" "d \<noteq> 0" "mi_curDiff m' = d" "mi_jobDiffs m' = mi_jobDiffs m"
    by (rule mi_calcCurDiff_ok [OF assms])
  then show ?thesis using that [of d "m'\<lparr>mi_jobDiffs := AList.update a d (mi_jobDiffs m')\<rparr>"] by (simp add: mi_addLocalJob_def mi_inv_def)
qed

lemma mi_addLocalJobs_ok:
  assumes "mi_inv w m" "env_ok w env"
  shows "\<exists>m'. mi_addLocalJobs env chainId as m = Some m' \<and> mi_inv w m' \<and>
    dom (map_of (mi_jobDiffs m')) = dom (map_of (mi_jobDiffs m)) \<union> set as"
  using assms
proof (induction env chainId as m rule: mi_addLocalJobs.induct)
  case (2 env chainId a as m)
  obtain d m' where m': "mi_addLocalJob env chainId a m = Some (d, m')" "mi_inv w m'" "mi_jobDiffs m' = AList.update a d (mi_jobDiffs m)"
    by (rule mi_addLocalJob_ok [OF 2(2,3)])
  then show ?case using 2(1) [of "(d, m')" d m'] 2(3) by (auto simp: update_conv')
qed simp

lemma mi_new_ok:
  assumes "env_ok w env"
  shows "\<exists>m. mi_new env chainId as agent name i = Some m \<and> mi_inv w m \<and> dom (map_of (mi_jobDiffs m)) = set as"
proof -
  obtain c where c: "dc_copy (pe_controller env) = Some c" "dc_inv c" "dc_same (pe_controller env) c"
    using dc_inv_copy [of "pe_controller env"] assms by (auto simp: env_ok_def)
  obtain sw :: "int stats_window" where sw: "sw_new INVALID_SHARE_SLIDING_WINDOWS_SIZE = Some sw" "sw_wf sw" "windowSize sw = INVALID_SHARE_SLIDING_WINDOWS_SIZE"
    using sw_new_wf [of INVALID_SHARE_SLIDING_WINDOWS_SIZE] by (auto simp: INVALID_SHARE_SLIDING_WINDOWS_SIZE_def)
  let ?m = "\<lparr>mi_controller = c, mi_curDiff = 0, mi_clientAgent = agent, mi_isNiceHashClient = isNiceHashAgent agent,
        mi_overrideDifficulty = False, mi_workerName = name, mi_workerId = i, mi_invalidShares = sw, mi_jobDiffs = []\<rparr>"
  have "mi_inv w ?m" using c sw assms by (simp add: mi_inv_def dc_same_def env_ok_def)
  from mi_addLocalJobs_ok [OF this assms] show ?thesis using c sw by (simp add: mi_new_def)
qed

lemma mi_handleShare_ok:
  assumes "mi_inv w m" "env_ok w env" "status \<noteq> SOLVED_PRELIMINARY"
  obtains m' where "mi_handleShare env idStr status diff chainId m =
      Some (isAccepted status, [Report chainId status diff, share_response env idStr status], m')"
    "mi_inv w m'" "mi_jobDiffs m' = mi_jobDiffs m"
proof -
  obtain c where c: "addShare (pe_now env) diff (mi_controller m) = Some c" "dc_inv c" "dc_same (mi_controller m) c"
    using addShare_ok [of "mi_controller m" "pe_now env" diff] assms by (auto simp: mi_inv_def env_ok_def dc_time_def)
  show ?thesis
    by (rule that [of "m\<lparr>mi_controller := c\<rparr>"]) (use c assms(1,3) in \<open>simp_all add: mi_handleShare_def mi_inv_def dc_same_def\<close>)
qed

lemma handleCheckedShare_ok:
  assumes "mi_inv w m" "env_ok w env" "sint (shb_status share) \<noteq> SOLVED_PRELIMINARY"
  obtains send m' where "handleCheckedShare env idStr chainId share m =
      Some (send, [Report chainId (sint (shb_status share)) (shb_sharediff share), share_response env idStr (sint (shb_status share))], m')"
    "mi_inv w m'" "mi_jobDiffs m' = mi_jobDiffs m" "isAccepted (sint (shb_status share)) \<Longrightarrow> send"
proof -
  obtain m1 where m1: "mi_handleShare env idStr (sint (shb_status share)) (shb_sharediff share) chainId m =
      Some (isAccepted (sint (shb_status share)), [Report chainId (sint (shb_status share)) (shb_sharediff share), share_response env idStr (sint (shb_status share))], m1)"
    "mi_inv w m1" "mi_jobDiffs m1 = mi_jobDiffs m" by (rule mi_handleShare_ok [OF assms])
  show ?thesis
  proof (cases "isAccepted (sint (shb_status share))")
    case True
    then show ?thesis using that [of True m1] m1 by (simp add: handleCheckedShare_def)
  next
    case False
    have t: "60 \<le> pe_now env" using assms(2) by (simp add: env_ok_def)
    have i: "sw_wf (mi_invalidShares m1)" "windowSize (mi_invalidShares m1) = 60"
      using m1(2) by (simp_all add: mi_inv_def INVALID_SHARE_SLIDING_WINDOWS_SIZE_def)
    obtain b sw where sw: "sw_insert (mi_invalidShares m1) (pe_now env) 1 = Some (b, sw)" "sw_wf sw" "windowSize sw = 60"
      using sw_insert_total [OF i(1), of "pe_now env" 1] t i(2) by auto
    obtain n where n: "sw_sum sw (pe_now env) INVALID_SHARE_SLIDING_WINDOWS_SIZE = Some n"
      using sw_sum_total [OF sw(2), of "pe_now env" 60] t by (auto simp: INVALID_SHARE_SLIDING_WINDOWS_SIZE_def)
    show ?thesis
      by (rule that [of "n < INVALID_SHARE_SLIDING_WINDOWS_MAX_LIMIT" "m1\<lparr>mi_invalidShares := sw\<rparr>"])
        (use m1 sw n False in \<open>simp_all add: handleCheckedShare_def mi_inv_def INVALID_SHARE_SLIDING_WINDOWS_SIZE_def\<close>)
  qed
qed

section \<open>Every submission is answered or checked\<close>

lemma length_hex_digits: "n < 16 ^ w \<Longrightarrow> 0 < w \<Longrightarrow> length (hex_digits n) \<le> w"
proof (induction n arbitrary: w rule: hex_digits.induct)
  case (1 n)
  show ?case
  proof (cases "n < 16")
    case True
    then show ?thesis using 1(3) by (subst hex_digits.simps) simp
  next
    case False
    then obtain v where v: "w = Suc v" "0 < v" using 1(2,3) by (cases w; cases "w - 1") auto
    have "n div 16 < 16 ^ v" using 1(2) v by (simp add: less_mult_imp_div_less)
    then show ?thesis using 1(1) [OF False _ v(2)] False v by (subst hex_digits.simps) simp
  qed
qed

lemma length_format_x: "n < 16 ^ w \<Longrightarrow> 0 < w \<Longrightarrow> length (format_x w n) = w"
  using length_hex_digits [of n w] by (simp add: format_x_def Let_def)

lemma masked_extraNonce2_bound:
  assumes "unat (srv_extraNonce2Size srv) \<le> 8"
  shows "unat (masked_extraNonce2 srv x) < 2 ^ (8 * unat (srv_extraNonce2Size srv))"
proof (cases "unat (srv_extraNonce2Size srv) < 8")
  case True
  let ?k = "unat (srv_extraNonce2Size srv) * 8"
  have "masked_extraNonce2 srv x = take_bit ?k x"
    using True by (simp add: masked_extraNonce2_def take_bit_eq_mask mask_eq_exp_minus_1 push_bit_eq_mult)
  then have "unat (masked_extraNonce2 srv x) = take_bit ?k (unat x)" by (simp add: unsigned_take_bit_eq)
  then show ?thesis by (simp add: mult.commute)
next
  case False
  then have "unat (srv_extraNonce2Size srv) = 8" using assms by simp
  then show ?thesis using unat_less64 [of x] by (simp add: masked_extraNonce2_def)
qed

definition check_env_ok :: "pool_env \<Rightarrow> bool" where
  "check_env_ok env \<longleftrightarrow> (\<forall>h. length (cl_serialize (pe_lib env) h) \<le> 80) \<and> (\<forall>h. num256 (cl_headerHash (pe_lib env) h) \<noteq> 0) \<and>
     (\<forall>c i x. getStratumJobEx i (pe_repo env c) = Some x \<longrightarrow> num256 (sb_networkTarget (jx_sjob x)) \<noteq> 0) \<and>
     pe_TableSize env \<le> 64 \<and> (\<forall>c. 4 \<le> unat (srv_extraNonce2Size (pe_srv env c)) \<and> unat (srv_extraNonce2Size (pe_srv env c)) \<le> 8)"

lemma extraNonce2Hex_length:
  assumes "check_env_ok env"
  shows "length (format_x (unat (srv_extraNonce2Size (pe_srv env c)) * 2) (unat (masked_extraNonce2 (pe_srv env c) x))) =
    unat (srv_extraNonce2Size (pe_srv env c)) * 2"
proof (rule length_format_x)
  have s: "4 \<le> unat (srv_extraNonce2Size (pe_srv env c))" "unat (srv_extraNonce2Size (pe_srv env c)) \<le> 8"
    using assms by (simp_all add: check_env_ok_def)
  then show "0 < unat (srv_extraNonce2Size (pe_srv env c)) * 2" by linarith
  have "(16 :: nat) ^ (k * 2) = 2 ^ (8 * k)" for k by (induction k) (simp_all add: power_add)
  then show "unat (masked_extraNonce2 (pe_srv env c) x) < 16 ^ (unat (srv_extraNonce2Size (pe_srv env c)) * 2)"
    using masked_extraNonce2_bound [OF s(2), of x] by simp
qed

lemma DiffToTarget_returns: "TableSize \<le> 64 \<Longrightarrow> \<exists>t. DiffToTarget lg bits TableSize diff True = Some t"
proof (cases "diff = 0")
  case False
  assume "TableSize \<le> 64"
  from DiffToTarget_quotient [OF this False, of bits lg] show ?thesis by blast
qed (simp add: DiffToTarget_def)

lemma checkShare_returns:
  assumes "check_env_ok env" "getStratumJobEx (shb_jobid share) (pe_repo env c) = Some x"
  shows "\<exists>st bits ce. checkShare (pe_lib env) srv (pe_repo env c) share e1 en2 nTime nonce vm target name grand eg = Some (st, bits, ce) \<and>
    st \<noteq> SOLVED_PRELIMINARY \<and> sint (word_of_int st :: u32) = st"
proof -
  have l: "length (cl_serialize (pe_lib env) h) \<le> 80" "num256 (cl_headerHash (pe_lib env) h) \<noteq> 0" for h
    using assms(1) by (simp_all add: check_env_ok_def)
  have n: "num256 (sb_networkTarget (jx_sjob x)) \<noteq> 0" using assms by (auto simp: check_env_ok_def)
  obtain bits ce where "checkShare (pe_lib env) srv (pe_repo env c) share e1 en2 nTime nonce vm target name grand eg =
     Some (if early_status srv (isStale x) (jx_sjob x) nTime vm \<noteq> UNKNOWN_STATUS then early_status srv (isStale x) (jx_sjob x) nTime vm
       else if \<not> cs_isEnableSimulator srv \<and> num256 target < num256 (cl_headerHash (pe_lib env) (generateBlockHeader (pe_lib env) (jx_sjob x)
          (generateCoinbaseTx (jx_sjob x) e1 en2 grand eg) nTime nonce vm)) then LOW_DIFFICULTY else ACCEPT, bits, ce)"
    by (rule checkShare_found [OF assms(2) refl refl refl refl l(1) l(2) n])
  then show ?thesis by (auto simp: early_status_cases status_defs)
qed

lemma submitted_share_jobid: "shb_jobid (submitted_share env sv su job sjob d uid m) = lj_jobId job"
  by (simp add: submitted_share_def Let_def)

text \<open>What a submission leaves of the local jobs: only the shares of one job may grow.\<close>

definition same_jobs :: "local_job_bitcoin list \<Rightarrow> local_job_bitcoin list \<Rightarrow> bool" where
  "same_jobs js js' \<longleftrightarrow> length js' = length js \<and>
     (\<forall>i<length js. lj_addr (js' ! i) = lj_addr (js ! i) \<and> lj_shortJobId (js' ! i) = lj_shortJobId (js ! i) \<and>
        lj_chainId (js' ! i) = lj_chainId (js ! i) \<and> lj_jobId (js' ! i) = lj_jobId (js ! i) \<and> set (lj_submitShares (js ! i)) \<subseteq> set (lj_submitShares (js' ! i)))"

definition answered :: "string \<Rightarrow> miner_effect list \<Rightarrow> bool" where
  "answered idStr eff \<longleftrightarrow> (\<exists>c st d. eff = [Report c st d, RespError idStr st])"

lemma mi_reject_ok:
  assumes "mi_inv w m" "env_ok w env"
  obtains m' where "mi_handleShare env idStr JOB_NOT_FOUND 0 chainId m = Some (False, [Report chainId JOB_NOT_FOUND 0, RespError idStr JOB_NOT_FOUND], m')"
    "mi_inv w m'" "mi_jobDiffs m' = mi_jobDiffs m"
proof -
  have j: "JOB_NOT_FOUND \<noteq> SOLVED_PRELIMINARY" "\<not> isAccepted JOB_NOT_FOUND" by (simp_all add: status_defs isAccepted_def)
  show ?thesis by (rule mi_handleShare_ok [OF assms j(1), of idStr 0 chainId]) (use that j(2) in \<open>simp add: share_response_def\<close>)
qed

lemma findLocalJob_in: "findLocalJob k jobs = Some j \<Longrightarrow> j \<in> set jobs \<and> lj_shortJobId j = k"
  unfolding findLocalJob_def find_Some_iff by (metis length_rev nth_mem set_rev)

lemma same_jobs_refl: "same_jobs js js"
  by (simp add: same_jobs_def)

lemma same_jobs_update:
  assumes "distinct (map lj_addr jobs)" "job \<in> set jobs" "addLocalShare s job = (True, job')"
  shows "same_jobs jobs (map (\<lambda>j. if lj_addr j = lj_addr job then job' else j) jobs)"
proof -
  have "jobs ! i = job" if "i < length jobs" "lj_addr (jobs ! i) = lj_addr job" for i
    using assms(1,2) that by (metis distinct_map inj_onD nth_mem)
  then have "lj_addr (f (jobs ! i)) = lj_addr (jobs ! i) \<and> lj_shortJobId (f (jobs ! i)) = lj_shortJobId (jobs ! i) \<and>
      lj_chainId (f (jobs ! i)) = lj_chainId (jobs ! i) \<and> lj_jobId (f (jobs ! i)) = lj_jobId (jobs ! i) \<and>
      set (lj_submitShares (jobs ! i)) \<subseteq> set (lj_submitShares (f (jobs ! i)))"
    if "i < length jobs" "f = (\<lambda>j. if lj_addr j = lj_addr job then job' else j)" for i f
  proof (cases "lj_addr (jobs ! i) = lj_addr job")
    case True
    then have e: "jobs ! i = job" using \<open>i < length jobs \<Longrightarrow> lj_addr (jobs ! i) = lj_addr job \<Longrightarrow> jobs ! i = job\<close> that(1) by blast
    show ?thesis unfolding e using assms(3) that(2) by (auto simp: addLocalShare_def split: if_splits)
  qed (simp add: that(2))
  then show ?thesis by (simp add: same_jobs_def)
qed

definition submit_result :: "int \<Rightarrow> submit \<Rightarrow> local_job_bitcoin list \<Rightarrow> miner \<Rightarrow> local_job_bitcoin list \<Rightarrow> miner \<Rightarrow> miner_effect list \<Rightarrow> pending option \<Rightarrow> bool" where
  "submit_result w su jobs m jobs' m' eff p \<longleftrightarrow> mi_inv w m' \<and> mi_jobDiffs m' = mi_jobDiffs m \<and> same_jobs jobs jobs' \<and>
     (case p of None \<Rightarrow> jobs' = jobs \<and> answered (su_idStr su) eff
      | Some q \<Rightarrow> pc_idStr q = su_idStr su \<and> pc_status q \<noteq> SOLVED_PRELIMINARY \<and> sint (word_of_int (pc_status q) :: u32) = pc_status q \<and>
          m' = m \<and> (\<exists>c ce. eff = [Checked c ce]))"

lemma mi_submit_ok:
  assumes inv: "mi_inv w m" "env_ok w env" and env: "check_env_ok env"
    and jobs: "distinct (map lj_addr jobs)" "\<forall>j\<in>set jobs. lj_chainId j < length (wk_userIds (sv_worker sv))"
  shows "\<exists>jobs' m' eff p. mi_submit env sv su jobs m = Some (jobs', m', eff, p) \<and> submit_result w su jobs m jobs' m' eff p"
proof -
  note hex = extraNonce2Hex_length [OF env, of "wk_chainId (sv_worker sv)" "su_extraNonce2 su"]
  have rej: "\<exists>jobs' m' eff p. (do { (_, eff, m') \<leftarrow> mi_handleShare env (su_idStr su) JOB_NOT_FOUND 0 c m; Some (jobs, m', eff, None) }) = Some (jobs', m', eff, p) \<and>
      submit_result w su jobs m jobs' m' eff p" for c
    by (rule mi_reject_ok [OF inv, of "su_idStr su" c]) (auto simp: submit_result_def same_jobs_refl answered_def)
  show ?thesis
  proof (cases "findLocalJob (su_shortJobId su) jobs")
    case None
    then show ?thesis using rej [of "wk_chainId (sv_worker sv)"] hex by (simp add: mi_submit_def Let_def)
  next
    case job: (Some job)
    note j = findLocalJob_in [OF job]
    show ?thesis
    proof (cases "getStratumJobEx (lj_jobId job) (pe_repo env (lj_chainId job))")
      case None
      then show ?thesis using rej [of "lj_chainId job"] hex job by (simp add: mi_submit_def Let_def)
    next
      case x: (Some x)
      show ?thesis
      proof (cases "map_of (mi_jobDiffs m) (lj_addr job)")
        case None
        then show ?thesis using rej [of "lj_chainId job"] hex job x by (simp add: mi_submit_def Let_def)
      next
        case d: (Some d)
        obtain uid where u: "worker_userId (sv_worker sv) (lj_chainId job) = Some uid"
          using jobs(2) j by (auto simp: worker_userId_def)
        obtain t where t: "DiffToTarget (pe_lg env) (cs_DiffOneBits (pe_srv env (wk_chainId (sv_worker sv)))) (pe_TableSize env)
            (shb_sharediff (submitted_share env sv su job (jx_sjob x) d uid m)) True = Some t"
          using DiffToTarget_returns env unfolding check_env_ok_def by blast
        obtain ok job' where a: "addLocalShare (submitted_key (pe_srv env (wk_chainId (sv_worker sv))) su (jx_sjob x)) job = (ok, job')"
          by fastforce
        note eqs = hex job x d u t a
        show ?thesis
        proof (cases ok)
          case True
          obtain st bits ce where c: "checkShare (pe_lib env) (pe_srv env (lj_chainId job)) (pe_repo env (lj_chainId job))
              (submitted_share env sv su job (jx_sjob x) d uid m) (sv_sessionId sv)
              (format_x (unat (srv_extraNonce2Size (pe_srv env (wk_chainId (sv_worker sv)))) * 2)
                (unat (masked_extraNonce2 (pe_srv env (wk_chainId (sv_worker sv))) (su_extraNonce2 su))))
              (submitted_nTime su (jx_sjob x)) (su_nonce su) (su_versionMask su) t
              (wk_fullName (sv_worker sv)) (sv_isGrandPoolClient sv) (su_extraGrandNonce1 su) = Some (st, bits, ce)"
            "st \<noteq> SOLVED_PRELIMINARY" "sint (word_of_int st :: u32) = st"
            using checkShare_returns [OF env x [folded submitted_share_jobid [of env sv su job "jx_sjob x" d uid m]]] by blast
          have ok: "ok = True" using True by simp
          note r = same_jobs_update [OF jobs(1) conjunct1 [OF j] a [unfolded ok]]
          show ?thesis unfolding mi_submit_def Let_def eqs ok using r inv(1) c
            by (simp add: eqs ok submit_result_def)
        next
          case False
          have st: "sint (shb_status (submitted_share env sv su job (jx_sjob x) d uid m\<lparr>shb_status := word_of_int DUPLICATE_SHARE\<rparr>)) = DUPLICATE_SHARE"
            "DUPLICATE_SHARE \<noteq> SOLVED_PRELIMINARY" "\<not> isAccepted DUPLICATE_SHARE" by (simp_all add: status_defs isAccepted_def)
          obtain send m' where c: "handleCheckedShare env (su_idStr su) (lj_chainId job)
              (submitted_share env sv su job (jx_sjob x) d uid m\<lparr>shb_status := word_of_int DUPLICATE_SHARE\<rparr>) m =
              Some (send, [Report (lj_chainId job) DUPLICATE_SHARE (shb_sharediff (submitted_share env sv su job (jx_sjob x) d uid m)),
                RespError (su_idStr su) DUPLICATE_SHARE], m')" "mi_inv w m'" "mi_jobDiffs m' = mi_jobDiffs m"
            by (rule handleCheckedShare_ok [OF inv, of "submitted_share env sv su job (jx_sjob x) d uid m\<lparr>shb_status := word_of_int DUPLICATE_SHARE\<rparr>" "su_idStr su" "lj_chainId job"])
              (use st in \<open>simp_all add: share_response_def\<close>)
          have ok: "ok = False" using False by simp
          show ?thesis unfolding mi_submit_def Let_def eqs ok using c
            by (simp add: eqs ok submit_result_def same_jobs_refl answered_def)
        qed
      qed
    qed
  qed
qed

lemma checked_share_simps [simp]:
  "shb_status (checked_share q) = word_of_int (pc_status q)" "shb_sharediff (checked_share q) = shb_sharediff (pc_share q)"
  by (simp_all add: checked_share_def Let_def)

lemma mi_checked_ok:
  assumes "mi_inv w m" "env_ok w env" "pc_status q \<noteq> SOLVED_PRELIMINARY" "sint (word_of_int (pc_status q) :: u32) = pc_status q"
  shows "\<exists>k m'. mi_checked env q m = Some ([Report (pc_chainId q) (pc_status q) (shb_sharediff (pc_share q)),
      share_response env (pc_idStr q) (pc_status q)] @ k, m') \<and> mi_inv w m' \<and> mi_jobDiffs m' = mi_jobDiffs m \<and>
    k \<in> {[], kafka_share env (pc_chainId q) (pc_ip q) (checked_share q)} \<and>
    (isAccepted (pc_status q) \<longrightarrow> k = kafka_share env (pc_chainId q) (pc_ip q) (checked_share q))"
proof -
  have st: "sint (shb_status (checked_share q)) = pc_status q" by (simp add: assms(4))
  obtain send m' where c: "handleCheckedShare env (pc_idStr q) (pc_chainId q) (checked_share q) m =
      Some (send, [Report (pc_chainId q) (pc_status q) (shb_sharediff (pc_share q)), share_response env (pc_idStr q) (pc_status q)], m')"
    "mi_inv w m'" "mi_jobDiffs m' = mi_jobDiffs m" "isAccepted (pc_status q) \<Longrightarrow> send"
    using handleCheckedShare_ok [OF assms(1,2), of "checked_share q" "pc_idStr q" "pc_chainId q"] assms(3) unfolding st by auto
  then show ?thesis by (cases send) (auto simp: mi_checked_def)
qed

fun is_response :: "miner_effect \<Rightarrow> bool" where
  "is_response (RespAccepted _) = True"
| "is_response (RespAcceptedWithStatus _ _) = True"
| "is_response (RespError _ _) = True"
| "is_response _ = False"

lemma is_response_share [simp]: "is_response (share_response env i st)"
  by (simp add: share_response_def)

lemma no_response_kafka [simp]: "filter is_response (kafka_share env c ip share) = []"
  by (simp add: kafka_share_def split: option.split)


definition env0 :: "diff_controller \<Rightarrow> pool_env" where
  "env0 d = \<lparr>pe_now = 1000, pe_repo = (\<lambda>_. repo0), pe_srv = (\<lambda>_. srv0), pe_niceHashForced = (\<lambda>_. False), pe_niceHashMinDiff = (\<lambda>_. 0),
     pe_acceptStale = False, pe_useShareV1 = True, pe_subPoolExtUserId = 0, pe_controller = d, pe_TableSize = 64, pe_lib = lib0,
     pe_AppendToString = (\<lambda>_. None), pe_lg = (\<lambda>_. 0), pe_inet_ntop6 = (\<lambda>_. [])\<rparr>"

definition job0 :: local_job_bitcoin where
  "job0 = \<lparr>lj_chainId = 0, lj_jobId = 7, lj_submitShares = [], lj_shortJobId = 3, lj_blkBits = 0, lj_addr = 5\<rparr>"

definition view0 :: session_view where
  "view0 = \<lparr>sv_sessionId = 1, sv_worker = worker_new 1, sv_clientIp = 0, sv_isGrandPoolClient = False\<rparr>"

definition submit0 :: submit where
  "submit0 = \<lparr>su_idStr = ''4'', su_shortJobId = 3, su_extraNonce2 = 9, su_nonce = 8, su_nTime = 0, su_versionMask = 0, su_extraGrandNonce1 = 0\<rparr>"

lemma env0_ok: "dc_inv d \<Longrightarrow> kDiffWindow d = 60 \<Longrightarrow> env_ok 60 (env0 d)" "check_env_ok (env0 d)"
  by (auto simp: env_ok_def env0_def check_env_ok_def lib0_def srv0_def repo0_def num256_byte getStratumJobEx_def om_find_def split: if_splits)


section \<open>No share is checked twice\<close>

text \<open>A share by the local job it is for and by what the job knows it by; the shares the jobs know.\<close>

definition share_id :: "pool_env \<Rightarrow> session_view \<Rightarrow> submit \<Rightarrow> local_job_bitcoin list \<Rightarrow> (nat \<times> LocalShareBitcoinGrand) option" where
  "share_id env sv su jobs = do {
     job \<leftarrow> findLocalJob (su_shortJobId su) jobs;
     x \<leftarrow> getStratumJobEx (lj_jobId job) (pe_repo env (lj_chainId job));
     Some (lj_addr job, submitted_key (pe_srv env (wk_chainId (sv_worker sv))) su (jx_sjob x)) }"

definition known_shares :: "local_job_bitcoin list \<Rightarrow> (nat \<times> LocalShareBitcoinGrand) set" where
  "known_shares jobs = (\<Union>j\<in>set jobs. Pair (lj_addr j) ` set (lj_submitShares j))"

lemma mi_submit_none: "mi_submit env sv su jobs m = Some (jobs', m', eff, None) \<Longrightarrow> jobs' = jobs"
  by (auto simp: mi_submit_def Let_def bind_eq_Some_conv addLocalShare_def split: if_splits option.splits)

lemma mi_submit_some:
  assumes "mi_submit env sv su jobs m = Some (jobs', m', eff, Some q)"
  obtains job k job' where "share_id env sv su jobs = Some (lj_addr job, k)" "job \<in> set jobs" "addLocalShare k job = (True, job')"
    "jobs' = map (\<lambda>j. if lj_addr j = lj_addr job then job' else j) jobs"
proof -
  obtain job where f: "findLocalJob (su_shortJobId su) jobs = Some job"
    using assms by (auto simp: mi_submit_def Let_def bind_eq_Some_conv split: if_splits option.splits)
  obtain x where x: "getStratumJobEx (lj_jobId job) (pe_repo env (lj_chainId job)) = Some x"
    using assms f by (auto simp: mi_submit_def Let_def bind_eq_Some_conv split: if_splits option.splits)
  obtain ok job' where a: "addLocalShare (submitted_key (pe_srv env (wk_chainId (sv_worker sv))) su (jx_sjob x)) job = (ok, job')" by fastforce
  have "ok \<and> jobs' = map (\<lambda>j. if lj_addr j = lj_addr job then job' else j) jobs"
    using assms by (auto simp: f x a mi_submit_def Let_def bind_eq_Some_conv split: if_splits option.splits bool.splits)
  then show ?thesis using that [of job "submitted_key (pe_srv env (wk_chainId (sv_worker sv))) su (jx_sjob x)" job'] f x a findLocalJob_in [OF f]
    by (simp add: share_id_def)
qed

lemma known_shares_update:
  assumes "distinct (map lj_addr jobs)" "job \<in> set jobs" "addLocalShare k job = (True, job')"
    "jobs' = map (\<lambda>j. if lj_addr j = lj_addr job then job' else j) jobs"
  shows "(lj_addr job, k) \<notin> known_shares jobs" "known_shares jobs' = insert (lj_addr job, k) (known_shares jobs)"
    "map lj_addr jobs' = map lj_addr jobs"
proof -
  have u: "j = job" if "j \<in> set jobs" "lj_addr j = lj_addr job" for j
    using assms(1,2) that by (metis distinct_map inj_onD)
  have k: "k \<notin> set (lj_submitShares job)" "job' = job\<lparr>lj_submitShares := k # lj_submitShares job\<rparr>"
    using assms(3) by (auto simp: addLocalShare_def split: if_splits)
  show "(lj_addr job, k) \<notin> known_shares jobs" using k(1) u by (auto simp: known_shares_def)
  show "map lj_addr jobs' = map lj_addr jobs" by (simp add: assms(4) k(2))
  have j': "(a, i) \<in> known_shares jobs' \<longleftrightarrow> (\<exists>j\<in>set jobs. a = lj_addr j \<and>
      i \<in> set (if lj_addr j = lj_addr job then k # lj_submitShares job else lj_submitShares j))" for a i
    by (auto simp: known_shares_def assms(4) k(2) split: if_splits)
  have "(a, i) \<in> known_shares jobs' \<longleftrightarrow> (a, i) = (lj_addr job, k) \<or> (a, i) \<in> known_shares jobs" for a i
    unfolding j' using u assms(2) by (auto simp: known_shares_def split: if_splits)
  then show "known_shares jobs' = insert (lj_addr job, k) (known_shares jobs)" by auto
qed

text \<open>
  The submissions of a session one after another, each of any of its miners and with any view of
  the pool: the shares for which a check was started.
\<close>

fun checked_shares :: "(pool_env \<times> session_view \<times> submit \<times> miner) list \<Rightarrow> local_job_bitcoin list \<Rightarrow> (nat \<times> LocalShareBitcoinGrand) list" where
  "checked_shares [] jobs = []"
| "checked_shares ((env, sv, su, m) # es) jobs = (case mi_submit env sv su jobs m of
     None \<Rightarrow> []
   | Some (jobs', _, _, None) \<Rightarrow> checked_shares es jobs'
   | Some (jobs', _, _, Some _) \<Rightarrow> the (share_id env sv su jobs) # checked_shares es jobs')"

lemma checked_shares_fresh:
  "distinct (map lj_addr jobs) \<Longrightarrow> distinct (checked_shares es jobs) \<and> set (checked_shares es jobs) \<inter> known_shares jobs = {}"
proof (induction es jobs rule: checked_shares.induct)
  case (2 env sv su m es jobs)
  show ?case
  proof (cases "mi_submit env sv su jobs m")
    case (Some r)
    obtain jobs' m' eff p where r: "mi_submit env sv su jobs m = Some (jobs', m', eff, p)" using Some by (cases r) auto
    show ?thesis
    proof (cases p)
      case None
      then show ?thesis using 2 r mi_submit_none [of env sv su jobs m jobs' m' eff] by simp
    next
      case (Some q)
      then obtain job i job' where s: "share_id env sv su jobs = Some (lj_addr job, i)" "job \<in> set jobs" "addLocalShare i job = (True, job')"
          "jobs' = map (\<lambda>j. if lj_addr j = lj_addr job then job' else j) jobs"
        using r mi_submit_some [of env sv su jobs m jobs' m' eff q] by blast
      note k = known_shares_update [OF 2(3) s(2-4)]
      have "distinct (checked_shares es jobs')" "set (checked_shares es jobs') \<inter> known_shares jobs' = {}"
        using 2(2) [OF r refl refl refl Some] 2(3) k(3) by simp_all
      then show ?thesis using r Some s(1) k(1,2) by auto
    qed
  qed simp
qed simp

text \<open>
  C5. Whatever is submitted, and by whichever of the miners of a session, the same share of a
  job is checked, and so credited, at most once, and never if the job knows it already.
\<close>

theorem no_share_checked_twice:
  assumes "distinct (map lj_addr jobs)"
  shows "distinct (checked_shares es jobs) \<and> set (checked_shares es jobs) \<inter> known_shares jobs = {}"
  by (rule checked_shares_fresh [OF assms])

theorem no_share_checked_twice_witness:
  "\<exists>d m. dc_new 64 1024 2 10 60 = Some d \<and> mi_new (env0 d) 0 [5] ''a'' ''w'' 1 = Some m \<and>
     distinct (checked_shares [(env0 d, view0, submit0, m), (env0 d, view0, submit0, m)] [job0])"
proof -
  obtain d where d: "dc_new 64 1024 2 10 60 = Some d" by (simp add: dc_new_def sw_new_def)
  have e: "env_ok 60 (env0 d)" using dc_inv_new [OF d] by (simp add: env0_ok)
  obtain m where m: "mi_new (env0 d) 0 [5] ''a'' ''w'' 1 = Some m" using mi_new_ok [OF e] by blast
  show ?thesis using no_share_checked_twice [of "[job0]"] d m by (simp del: checked_shares.simps)
qed

end
