(* ===== verification/Stratum_Dispatcher.thy ===== *)
theory Stratum_Dispatcher
  imports Stratum_Miner
begin

text \<open>
  The message dispatchers of a session (\<open>StratumMessageDispatcher.{h,cc}\<close>): none before the worker is
  authorized, one for a single miner, and one for a BTCAgent, which multiplexes many miners over binary
  messages. What a dispatcher asks of its session is an effect, the miners the session creates
  come from an argument. Miners carry a number that is never given twice and tells which of them a
  later result of a check belongs to.
\<close>

section \<open>Dispatchers\<close>

record agent =
  ag_controller :: diff_controller
  ag_curDiff :: u64
  ag_miners :: "(u16, nat \<times> miner) omap"
  ag_enableSubmitResponse :: bool
  ag_submitIndex :: u16

datatype dispatcher = NullDispatcher | MinerDispatcher nat miner | AgentDispatcher agent

datatype dispatch_effect =
    DSend string
  | DSetDifficulty u64
  | DAddWorker string string int
  | DRemoveWorker string string int
  | DResponseTrue string
  | DResponseError string int
  | DReport nat int u64
  | DChecked nat "check_effect list"
  | DKafkaShare nat bytes

definition agent_new :: "diff_controller \<Rightarrow> agent option" where
  "agent_new diffController = do {
     c \<leftarrow> dc_copy diffController;
     Some \<lparr>ag_controller = c, ag_curDiff = 0, ag_miners = [], ag_enableSubmitResponse = False, ag_submitIndex = 0\<rparr> }"

section \<open>Binary messages to the agent\<close>

definition chr8 :: "u8 \<Rightarrow> char" where
  "chr8 b = char_of (unat b)"

definition le16_str :: "u16 \<Rightarrow> string" where
  "le16_str w = [chr8 (ucast w), chr8 (ucast (drop_bit 8 w))]"

definition le32_str :: "u32 \<Rightarrow> string" where
  "le32_str w = [chr8 (ucast w), chr8 (ucast (drop_bit 8 w)), chr8 (ucast (drop_bit 16 w)), chr8 (ucast (drop_bit 24 w))]"

definition MINING_SET_DIFF :: u8 where "MINING_SET_DIFF = 0x05"
definition SUBMIT_RESPONSE :: u8 where "SUBMIT_RESPONSE = 0x10"
definition REGISTER_WORKER :: u8 where "REGISTER_WORKER = 0x01"
definition UNREGISTER_WORKER :: u8 where "UNREGISTER_WORKER = 0x04"

definition kMaxCount :: nat where "kMaxCount = 32764"

definition set_diff_message :: "u8 \<Rightarrow> u16 list \<Rightarrow> string" where
  "set_diff_message diffExp ids =
     [chr8 CMD_MAGIC_NUMBER, chr8 MINING_SET_DIFF] @ le16_str (of_nat (7 + length ids * 2)) @
     [chr8 diffExp] @ le16_str (of_nat (length ids)) @ concat (map le16_str ids)"

function set_diff_chunks :: "u8 \<Rightarrow> u16 list \<Rightarrow> string" where
  "set_diff_chunks diffExp ids =
     (if ids = [] then [] else set_diff_message diffExp (take kMaxCount ids) @ set_diff_chunks diffExp (drop kMaxCount ids))"
  by pat_completeness auto
termination
  by (relation "measure (\<lambda>(_, ids). length ids)") (auto simp: kMaxCount_def)

declare set_diff_chunks.simps [simp del]

definition getSetDiffCommand :: "(u8, u16 list) omap \<Rightarrow> string" where
  "getSetDiffCommand diffSessionIds = concat (map (\<lambda>(e, ids). set_diff_chunks e ids) diffSessionIds)"

definition submit_response :: "string \<Rightarrow> int \<Rightarrow> string" where
  "submit_response idStr status =
     [chr8 CMD_MAGIC_NUMBER, chr8 SUBMIT_RESPONSE] @ le16_str 10 @
     le16_str (word_of_int (fst (strtoll10 (c_str idStr)))) @ le32_str (word_of_int status)"

section \<open>Answers to shares\<close>

definition agent_response :: "agent \<Rightarrow> string \<Rightarrow> int \<Rightarrow> dispatch_effect list" where
  "agent_response ag idStr status = (if ag_enableSubmitResponse ag then [DSend (submit_response idStr status)] else [])"

fun dispatch_answer :: "dispatcher \<Rightarrow> miner_effect \<Rightarrow> dispatch_effect list" where
  "dispatch_answer d (Report c st diff) = [DReport c st diff]"
| "dispatch_answer d (Checked c ce) = [DChecked c ce]"
| "dispatch_answer d (KafkaShare c b) = [DKafkaShare c b]"
| "dispatch_answer NullDispatcher _ = []"
| "dispatch_answer (MinerDispatcher _ _) (RespAccepted i) = [DResponseTrue i]"
| "dispatch_answer (MinerDispatcher _ _) (RespAcceptedWithStatus i st) = [DResponseTrue i]"
| "dispatch_answer (MinerDispatcher _ _) (RespError i st) = [DResponseError i st]"
| "dispatch_answer (AgentDispatcher ag) (RespAccepted i) = agent_response ag i ACCEPT"
| "dispatch_answer (AgentDispatcher ag) (RespAcceptedWithStatus i st) = agent_response ag i st"
| "dispatch_answer (AgentDispatcher ag) (RespError i st) = agent_response ag i st"

section \<open>Difficulties\<close>

definition agent_map :: "(miner \<Rightarrow> miner) \<Rightarrow> agent \<Rightarrow> agent" where
  "agent_map f ag = ag\<lparr>ag_miners := map (\<lambda>(i, u, m). (i, u, f m)) (ag_miners ag)\<rparr>"

fun dp_setMinDiff :: "u64 \<Rightarrow> dispatcher \<Rightarrow> dispatcher" where
  "dp_setMinDiff d NullDispatcher = NullDispatcher"
| "dp_setMinDiff d (MinerDispatcher u m) = MinerDispatcher u (mi_setMinDiff d m)"
| "dp_setMinDiff d (AgentDispatcher ag) = AgentDispatcher (agent_map (mi_setMinDiff d) ag)"

fun dp_resetCurDiff :: "u64 \<Rightarrow> dispatcher \<Rightarrow> dispatcher" where
  "dp_resetCurDiff d NullDispatcher = NullDispatcher"
| "dp_resetCurDiff d (MinerDispatcher u m) = MinerDispatcher u (mi_resetCurDiff d m)"
| "dp_resetCurDiff d (AgentDispatcher ag) = AgentDispatcher (agent_map (mi_resetCurDiff d) ag)"

fun dp_removeLocalJob :: "nat \<Rightarrow> dispatcher \<Rightarrow> dispatcher" where
  "dp_removeLocalJob a NullDispatcher = NullDispatcher"
| "dp_removeLocalJob a (MinerDispatcher u m) = MinerDispatcher u (mi_removeLocalJob a m)"
| "dp_removeLocalJob a (AgentDispatcher ag) = AgentDispatcher (agent_map (mi_removeLocalJob a) ag)"

fun dp_setSubmitResponse :: "bool \<Rightarrow> dispatcher \<Rightarrow> dispatcher" where
  "dp_setSubmitResponse b (AgentDispatcher ag) = AgentDispatcher (ag\<lparr>ag_enableSubmitResponse := b\<rparr>)"
| "dp_setSubmitResponse b d = d"

text \<open>The loop over the miners of an agent collects the ids whose difficulty exponent changes.\<close>

fun agent_jobs :: "pool_env \<Rightarrow> nat \<Rightarrow> nat \<Rightarrow> (u16 \<times> nat \<times> miner) list \<Rightarrow> (u8, u16 list) omap \<Rightarrow>
    ((u16 \<times> nat \<times> miner) list \<times> (u8, u16 list) omap) option" where
  "agent_jobs env chainId addr [] newDiffs = Some ([], newDiffs)"
| "agent_jobs env chainId addr ((i, u, m) # ms) newDiffs = do {
     let oldDiff = (if mi_curDiff m \<noteq> 0 then ucast (pe_lg env (mi_curDiff m)) else (0 :: u8));
     (d, m') \<leftarrow> mi_addLocalJob env chainId addr m;
     newDiff \<leftarrow> (if d = 0 then None else Some (ucast (pe_lg env d) :: u8));
     let newDiffs' = (if newDiff \<noteq> oldDiff
       then om_update newDiff ((case om_find newDiffs newDiff of None \<Rightarrow> [] | Some l \<Rightarrow> l) @ [i]) newDiffs else newDiffs);
     (ms', res) \<leftarrow> agent_jobs env chainId addr ms newDiffs';
     Some ((i, u, m') # ms', res) }"

definition agent_addLocalJob :: "pool_env \<Rightarrow> nat \<Rightarrow> nat \<Rightarrow> agent \<Rightarrow> (agent \<times> dispatch_effect list) option" where
  "agent_addLocalJob env chainId addr ag = do {
     (agentDiff, c) \<leftarrow> calcCurDiff (pe_now env) (pe_now env) (ag_controller ag);
     (ms, newDiffs) \<leftarrow> agent_jobs env chainId addr (ag_miners ag) [];
     Some (ag\<lparr>ag_controller := c, ag_curDiff := agentDiff, ag_miners := ms\<rparr>,
       (if agentDiff \<noteq> ag_curDiff ag then [DSetDifficulty agentDiff] else []) @
       (if newDiffs \<noteq> [] then [DSend (getSetDiffCommand newDiffs)] else [])) }"

definition dp_addLocalJob :: "pool_env \<Rightarrow> nat \<Rightarrow> nat \<Rightarrow> dispatcher \<Rightarrow> (dispatcher \<times> dispatch_effect list) option" where
  "dp_addLocalJob env chainId addr dp = (case dp of
     NullDispatcher \<Rightarrow> Some (NullDispatcher, [])
   | MinerDispatcher u m \<Rightarrow> do {
       (newDiff, m') \<leftarrow> mi_addLocalJob env chainId addr m;
       Some (MinerDispatcher u m', if newDiff \<noteq> mi_curDiff m then [DSetDifficulty newDiff] else []) }
   | AgentDispatcher ag \<Rightarrow> do {
       (ag', eff) \<leftarrow> agent_addLocalJob env chainId addr ag;
       Some (AgentDispatcher ag', eff) })"

section \<open>Workers of an agent\<close>

definition switch_workers :: "(string \<Rightarrow> string \<Rightarrow> int \<Rightarrow> dispatch_effect) \<Rightarrow> dispatcher \<Rightarrow> dispatch_effect list" where
  "switch_workers eff dp = (case dp of
     AgentDispatcher ag \<Rightarrow> map (\<lambda>(_, _, m). eff (mi_clientAgent m) (mi_workerName m) (mi_workerId m)) (ag_miners ag)
   | _ \<Rightarrow> [])"

definition beforeSwitchChain :: "dispatcher \<Rightarrow> dispatch_effect list" where
  "beforeSwitchChain = switch_workers DRemoveWorker"

definition afterSwitchChain :: "dispatcher \<Rightarrow> dispatch_effect list" where
  "afterSwitchChain = switch_workers DAddWorker"

definition registerWorker :: "(string \<Rightarrow> string \<Rightarrow> int \<Rightarrow> miner option) \<Rightarrow> nat \<Rightarrow> u16 \<Rightarrow> string \<Rightarrow> string \<Rightarrow> int \<Rightarrow> agent \<Rightarrow>
    (agent \<times> dispatch_effect list) option" where
  "registerWorker createMiner uid sessionId clientAgent workerName workerId ag = do {
     m \<leftarrow> createMiner clientAgent workerName workerId;
     Some (ag\<lparr>ag_miners := om_insert sessionId (uid, m) (ag_miners ag)\<rparr>, [DAddWorker clientAgent workerName workerId]) }"

definition unregisterWorker :: "u16 \<Rightarrow> agent \<Rightarrow> agent \<times> dispatch_effect list" where
  "unregisterWorker sessionId ag =
     (ag\<lparr>ag_miners := om_erase sessionId (ag_miners ag)\<rparr>,
      case om_find (ag_miners ag) sessionId of None \<Rightarrow> []
      | Some (_, m) \<Rightarrow> [DRemoveWorker (mi_clientAgent m) (mi_workerName m) (mi_workerId m)])"

text \<open>The names in a registration, between the header and the last byte, which is made a terminator.\<close>

definition register_names :: "string \<Rightarrow> string \<times> string" where
  "register_names exMessage =
     (let clientStr = butlast (drop 6 exMessage) @ [nul];
          clientAgentPtr = c_str clientStr;
          workerName = (if length clientAgentPtr < length clientStr - 2
            then filterWorkerName (c_str (drop (length clientAgentPtr + 1) clientStr)) else [])
      in (filterWorkerName clientAgentPtr, if workerName = [] then DEFAULT_WORKER_NAME else workerName))"

definition handleExMessage_RegisterWorker :: "(string \<Rightarrow> bytes) \<Rightarrow> (string \<Rightarrow> string \<Rightarrow> int \<Rightarrow> miner option) \<Rightarrow> nat \<Rightarrow> string \<Rightarrow> agent \<Rightarrow>
    (agent \<times> dispatch_effect list) option" where
  "handleExMessage_RegisterWorker Hash createMiner uid exMessage ag =
     (if length exMessage < 8 \<or> length exMessage > 100 then Some (ag, [])
      else if le16_at exMessage 4 > AGENT_MAX_SESSION_ID then Some (ag, [])
      else case register_names exMessage of (clientAgent, workerName) \<Rightarrow>
        registerWorker createMiner uid (le16_at exMessage 4) clientAgent workerName (calcWorkerId Hash workerName) ag)"

definition handleExMessage_UnregisterWorker :: "string \<Rightarrow> agent \<Rightarrow> agent \<times> dispatch_effect list" where
  "handleExMessage_UnregisterWorker exMessage ag =
     (if length exMessage \<noteq> 6 then (ag, []) else unregisterWorker (le16_at exMessage 4) ag)"

section \<open>Shares of an agent\<close>

definition decodeSessionId :: "string \<Rightarrow> u16" where
  "decodeSessionId exMessage = (if length exMessage < 7 then AGENT_MAX_SESSION_ID + 1 else le16_at exMessage 5)"

text \<open>The miner found by its session id submits the share under the next index.\<close>

definition handleExMessage_SessionSpecific :: "pool_env \<Rightarrow> session_view \<Rightarrow> local_job_bitcoin list \<Rightarrow> string \<Rightarrow> agent \<Rightarrow>
    (local_job_bitcoin list \<times> agent \<times> dispatch_effect list \<times> (nat \<times> pending) option) option" where
  "handleExMessage_SessionSpecific env sv jobs exMessage ag =
     (case om_find (ag_miners ag) (decodeSessionId exMessage) of
        None \<Rightarrow> Some (jobs, ag, [], None)
      | Some (uid, m) \<Rightarrow>
          (case ex_submit exMessage of
             None \<Rightarrow> Some (jobs, ag, [], None)
           | Some su \<Rightarrow> do {
               let ag1 = ag\<lparr>ag_submitIndex := ag_submitIndex ag + 1\<rparr>;
               (jobs', m', eff, p) \<leftarrow> mi_submit env sv (su\<lparr>su_idStr := to_string (unat (ag_submitIndex ag))\<rparr>) jobs m;
               Some (jobs', ag1\<lparr>ag_miners := om_update (decodeSessionId exMessage) (uid, m') (ag_miners ag1)\<rparr>,
                 concat (map (dispatch_answer (AgentDispatcher ag1)) eff), map_option (Pair uid) p) }))"

definition agent_handleExMessage :: "pool_env \<Rightarrow> session_view \<Rightarrow> (string \<Rightarrow> bytes) \<Rightarrow> (string \<Rightarrow> string \<Rightarrow> int \<Rightarrow> miner option) \<Rightarrow> nat \<Rightarrow>
    local_job_bitcoin list \<Rightarrow> string \<Rightarrow> agent \<Rightarrow>
    (local_job_bitcoin list \<times> agent \<times> dispatch_effect list \<times> (nat \<times> pending) option) option" where
  "agent_handleExMessage env sv Hash createMiner uid jobs exMessage ag =
     (if unat (le16_at exMessage 2) \<noteq> length exMessage then None
      else let command = byte_at exMessage 1
           in if command = REGISTER_WORKER
              then map_option (\<lambda>(ag', eff). (jobs, ag', eff, None)) (handleExMessage_RegisterWorker Hash createMiner uid exMessage ag)
              else if command = UNREGISTER_WORKER
              then (case handleExMessage_UnregisterWorker exMessage ag of (ag', eff) \<Rightarrow> Some (jobs, ag', eff, None))
              else if command \<in> {SUBMIT_SHARE, SUBMIT_SHARE_WITH_TIME, SUBMIT_SHARE_WITH_VER, SUBMIT_SHARE_WITH_TIME_VER}
              then handleExMessage_SessionSpecific env sv jobs exMessage ag
              else Some (jobs, ag, [], None))"

section \<open>Difficulty messages are read back\<close>

lemma byte_chr8 [simp]: "of_nat (ord (chr8 b)) = b"
proof -
  have "unat b < 2 ^ 8" by (rule order_less_le_trans [OF unsigned_less]) simp
  then show ?thesis by (simp add: chr8_def ord_def)
qed

lemma byte_at_chr8: "i < length s \<Longrightarrow> s ! i = chr8 b \<Longrightarrow> byte_at s i = b"
  by (simp add: byte_at_def peek_def)

lemma word16_bytes: "ucast (ucast w :: u8) OR push_bit 8 (ucast (ucast (drop_bit 8 w) :: u8)) = (w :: u16)"
proof (rule bit_word_eqI)
  fix n assume "n < LENGTH(16)"
  then show "bit (ucast (ucast w :: u8) OR push_bit 8 (ucast (ucast (drop_bit 8 w) :: u8)) :: u16) n = bit w n"
    by (cases "n < 8") (auto simp: bit_or_iff bit_ucast_iff bit_push_bit_iff bit_drop_bit_eq)
qed

lemma le16_at_str: "le16_at (x @ le16_str w @ y) (length x) = w"
  using word16_bytes [of w] byte_at_chr8 [of "length x" "x @ le16_str w @ y" "ucast w"]
    byte_at_chr8 [of "Suc (length x)" "x @ le16_str w @ y" "ucast (drop_bit 8 w)"]
  by (simp add: le16_at_def le16_str_def nth_append)

lemma le16_at_strI: "s = x @ le16_str w @ y \<Longrightarrow> i = length x \<Longrightarrow> le16_at s i = w"
  by (simp only: le16_at_str)

lemma length_le16_str [simp]: "length (le16_str w) = 2"
  by (simp add: le16_str_def)

lemma length_le16_strs: "length (concat (map le16_str ws)) = 2 * length ws"
  by (induction ws) auto

lemma le16_at_strs:
  assumes "j < length ws"
  shows "le16_at (x @ concat (map le16_str ws)) (length x + 2 * j) = ws ! j"
proof -
  have "ws = take j ws @ ws ! j # drop (Suc j) ws" using assms by (rule id_take_nth_drop)
  then have "concat (map le16_str ws) = concat (map le16_str (take j ws)) @ le16_str (ws ! j) @ concat (map le16_str (drop (Suc j) ws))"
    by (metis concat.simps(2) concat_append list.simps(9) map_append)
  then show ?thesis using le16_at_str [of "x @ concat (map le16_str (take j ws))" "ws ! j"] assms
    by (simp add: length_le16_strs)
qed

text \<open>How an agent reads such a message.\<close>

definition read_set_diff :: "string \<Rightarrow> u8 \<times> u16 list" where
  "read_set_diff m = (byte_at m 4, map (\<lambda>j. le16_at m (7 + 2 * j)) [0..<unat (le16_at m 5)])"

lemma unat_of_nat16: "n < 65536 \<Longrightarrow> unat (of_nat n :: u16) = n"
  by (simp only: unsigned_of_nat) (simp add: take_bit_nat_eq_self)

lemma set_diff_message_fields:
  "byte_at (set_diff_message e ids) 0 = CMD_MAGIC_NUMBER" "byte_at (set_diff_message e ids) 4 = e"
  "le16_at (set_diff_message e ids) 2 = of_nat (7 + length ids * 2)" "le16_at (set_diff_message e ids) 5 = of_nat (length ids)"
  "j < length ids \<Longrightarrow> le16_at (set_diff_message e ids) (7 + 2 * j) = ids ! j"
proof -
  let ?h = "[chr8 CMD_MAGIC_NUMBER, chr8 MINING_SET_DIFF]" and ?l = "le16_str (of_nat (7 + length ids * 2))"
    and ?c = "le16_str (of_nat (length ids))" and ?i = "concat (map le16_str ids)"
  show "byte_at (set_diff_message e ids) 0 = CMD_MAGIC_NUMBER" "byte_at (set_diff_message e ids) 4 = e"
    by (rule byte_at_chr8; simp add: set_diff_message_def le16_str_def)+
  show "le16_at (set_diff_message e ids) 2 = of_nat (7 + length ids * 2)"
    by (rule le16_at_strI [of _ ?h _ "[chr8 e] @ ?c @ ?i"], simp only: set_diff_message_def append_assoc, simp)
  show "le16_at (set_diff_message e ids) 5 = of_nat (length ids)"
    by (rule le16_at_strI [of _ "?h @ ?l @ [chr8 e]" _ ?i], simp only: set_diff_message_def append_assoc, simp)
  show "le16_at (set_diff_message e ids) (7 + 2 * j) = ids ! j" if "j < length ids"
  proof -
    have "length (?h @ ?l @ [chr8 e] @ ?c) = 7" by simp
    then show ?thesis using le16_at_strs [OF that, of "?h @ ?l @ [chr8 e] @ ?c"] by (simp only: set_diff_message_def append_assoc)
  qed
qed

lemma set_diff_message_read:
  assumes "length ids \<le> kMaxCount"
  shows "length (set_diff_message e ids) = 7 + 2 * length ids" "message_ok (ExMessage (set_diff_message e ids))"
    "read_set_diff (set_diff_message e ids) = (e, ids)"
proof -
  have l: "length ids \<le> 32764" using assms by (simp add: kMaxCount_def)
  show len: "length (set_diff_message e ids) = 7 + 2 * length ids" by (simp add: set_diff_message_def length_le16_strs)
  have u: "unat (of_nat (7 + length ids * 2) :: u16) = 7 + length ids * 2" "unat (of_nat (length ids) :: u16) = length ids"
    using l by (intro unat_of_nat16; simp)+
  show "message_ok (ExMessage (set_diff_message e ids))"
    unfolding message_ok.simps set_diff_message_fields u len by simp
  show "read_set_diff (set_diff_message e ids) = (e, ids)"
    unfolding read_set_diff_def set_diff_message_fields(2,4) u by (auto simp: set_diff_message_fields(5) intro!: nth_equalityI)
qed

definition told :: "u8 \<times> u16 list \<Rightarrow> (u8 \<times> u16) list" where
  "told x = (case x of (e, ids) \<Rightarrow> map (Pair e) ids)"

lemma set_diff_chunks_messages:
  "\<exists>ms. set_diff_chunks e ids = concat (map message_bytes (map ExMessage ms)) \<and> list_all (\<lambda>m. message_ok (ExMessage m) \<and> length m \<le> 65535) ms \<and>
     concat (map (\<lambda>m. told (read_set_diff m)) ms) = map (Pair e) ids"
proof (induction e ids rule: set_diff_chunks.induct)
  case (1 e ids)
  show ?case
  proof (cases "ids = []")
    case True
    then show ?thesis by (intro exI [of _ "[]"]) (simp add: set_diff_chunks.simps)
  next
    case False
    then obtain ms where ms: "set_diff_chunks e (drop kMaxCount ids) = concat (map message_bytes (map ExMessage ms))"
      "list_all (\<lambda>m. message_ok (ExMessage m) \<and> length m \<le> 65535) ms" "concat (map (\<lambda>m. told (read_set_diff m)) ms) = map (Pair e) (drop kMaxCount ids)"
      using 1 by blast
    let ?m = "set_diff_message e (take kMaxCount ids)"
    have t: "length (take kMaxCount ids) \<le> kMaxCount" by simp
    have m: "length ?m \<le> 65535" "message_ok (ExMessage ?m)" "told (read_set_diff ?m) = map (Pair e) (take kMaxCount ids)"
      using set_diff_message_read [OF t, of e] t unfolding kMaxCount_def by (auto simp: told_def simp del: message_ok.simps)
    have "map (Pair e) (take kMaxCount ids) @ map (Pair e) (drop kMaxCount ids) = map (Pair e) ids"
      by (metis append_take_drop_id map_append)
    then show ?thesis using m ms False
      by (intro exI [of _ "?m # ms"]) (subst set_diff_chunks.simps, simp del: message_ok.simps)
  qed
qed

text \<open>
  C40. The difficulties sent to an agent are well-formed messages whatever the number of miners: the
  text is taken apart into messages whose length fits its field, and reading them gives every miner
  exactly the exponent it was listed under, in the same order.
\<close>

theorem set_diff_command_read:
  "\<exists>ms. frames (getSetDiffCommand ds) = (map ExMessage ms, []) \<and> list_all (\<lambda>m. length m \<le> 65535) ms \<and>
     concat (map (\<lambda>m. told (read_set_diff m)) ms) = concat (map told ds)"
proof -
  have "\<exists>ms. getSetDiffCommand ds = concat (map message_bytes (map ExMessage ms)) \<and>
      list_all (\<lambda>m. message_ok (ExMessage m) \<and> length m \<le> 65535) ms \<and> concat (map (\<lambda>m. told (read_set_diff m)) ms) = concat (map told ds)"
  proof (induction ds)
    case Nil
    show ?case by (intro exI [of _ "[]"]) (simp add: getSetDiffCommand_def)
  next
    case (Cons x ds)
    obtain e ids where x: "x = (e, ids)" by (cases x)
    obtain ms where ms: "getSetDiffCommand ds = concat (map message_bytes (map ExMessage ms))"
      "list_all (\<lambda>m. message_ok (ExMessage m) \<and> length m \<le> 65535) ms" "concat (map (\<lambda>m. told (read_set_diff m)) ms) = concat (map told ds)"
      using Cons by (elim exE conjE)
    obtain ns where ns: "set_diff_chunks e ids = concat (map message_bytes (map ExMessage ns))"
      "list_all (\<lambda>m. message_ok (ExMessage m) \<and> length m \<le> 65535) ns" "concat (map (\<lambda>m. told (read_set_diff m)) ns) = map (Pair e) ids"
      using set_diff_chunks_messages [of e ids] by (elim exE conjE)
    have "getSetDiffCommand (x # ds) = set_diff_chunks e ids @ getSetDiffCommand ds" "told x = map (Pair e) ids"
      by (simp_all add: getSetDiffCommand_def x told_def)
    then show ?case using ms(2) ns(2)
      by (intro exI [of _ "ns @ ms"] conjI) (simp_all only: ms(1,3) ns(1,3) map_append concat_append list_all_append list.map concat.simps)
  qed
  then obtain ms where ms: "getSetDiffCommand ds = concat (map message_bytes (map ExMessage ms))"
    "list_all (\<lambda>m. message_ok (ExMessage m) \<and> length m \<le> 65535) ms" "concat (map (\<lambda>m. told (read_set_diff m)) ms) = concat (map told ds)" by (elim exE conjE)
  have ok: "list_all message_ok (map ExMessage ms)" "list_all (\<lambda>m. length m \<le> 65535) ms"
    using ms(2) by (auto simp: list_all_iff simp del: message_ok.simps)
  show ?thesis unfolding ms(1) frames_messages [OF ok(1)] using ok(2) ms(3) by blast
qed

section \<open>Every operation of a dispatcher returns\<close>

text \<open>A miner knows a difficulty for exactly the local jobs of its session, by their addresses.\<close>

definition miner_ok :: "int \<Rightarrow> nat set \<Rightarrow> miner \<Rightarrow> bool" where
  "miner_ok w A m \<longleftrightarrow> mi_inv w m \<and> dom (map_of (mi_jobDiffs m)) = A"

fun dp_miners :: "dispatcher \<Rightarrow> (nat \<times> miner) list" where
  "dp_miners NullDispatcher = []"
| "dp_miners (MinerDispatcher u m) = [(u, m)]"
| "dp_miners (AgentDispatcher ag) = map snd (ag_miners ag)"

definition ag_ok :: "int \<Rightarrow> agent \<Rightarrow> bool" where
  "ag_ok w ag \<longleftrightarrow> dc_inv (ag_controller ag) \<and> kDiffWindow (ag_controller ag) = w \<and> om_inv (ag_miners ag)"

definition dp_inv :: "int \<Rightarrow> nat set \<Rightarrow> nat \<Rightarrow> dispatcher \<Rightarrow> bool" where
  "dp_inv w A k dp \<longleftrightarrow> (\<forall>(u, m) \<in> set (dp_miners dp). u < k \<and> miner_ok w A m) \<and> distinct (map fst (dp_miners dp)) \<and>
     (case dp of AgentDispatcher ag \<Rightarrow> ag_ok w ag | _ \<Rightarrow> True)"

lemma dp_inv_Null [simp]: "dp_inv w A k NullDispatcher"
  by (simp add: dp_inv_def)

lemma dp_inv_Miner: "dp_inv w A k (MinerDispatcher u m) \<longleftrightarrow> u < k \<and> miner_ok w A m"
  by (simp add: dp_inv_def)

lemma dp_inv_Agent:
  "dp_inv w A k (AgentDispatcher ag) \<longleftrightarrow> ag_ok w ag \<and> (\<forall>(i, u, m) \<in> set (ag_miners ag). u < k \<and> miner_ok w A m) \<and> distinct (map (\<lambda>x. fst (snd x)) (ag_miners ag))"
  by (auto simp: dp_inv_def comp_def)

lemma om_inv_keys: "map fst m' = map fst m \<Longrightarrow> om_inv m \<Longrightarrow> om_inv m'"
  by (simp add: om_inv_def)

lemma agent_map_inv:
  assumes "dp_inv w A k (AgentDispatcher ag)" "\<And>m. miner_ok w A m \<Longrightarrow> miner_ok w B (f m)"
  shows "dp_inv w B k (AgentDispatcher (agent_map f ag))"
proof -
  have "map fst (ag_miners (agent_map f ag)) = map fst (ag_miners ag)" "map (\<lambda>x. fst (snd x)) (ag_miners (agent_map f ag)) = map (\<lambda>x. fst (snd x)) (ag_miners ag)"
    by (auto simp: agent_map_def)
  then show ?thesis using assms om_inv_keys [of "ag_miners (agent_map f ag)" "ag_miners ag"]
    by (auto simp: dp_inv_Agent ag_ok_def) (auto simp: agent_map_def)
qed

lemma miner_ok_ops [simp]:
  "miner_ok w A m \<Longrightarrow> miner_ok w A (mi_setMinDiff d m)" "miner_ok w A m \<Longrightarrow> miner_ok w A (mi_resetCurDiff d m)"
  "miner_ok w A m \<Longrightarrow> miner_ok w (A - {a}) (mi_removeLocalJob a m)"
proof -
  show "miner_ok w A m \<Longrightarrow> miner_ok w A (mi_setMinDiff d m)" "miner_ok w A m \<Longrightarrow> miner_ok w A (mi_resetCurDiff d m)"
    by (auto simp: miner_ok_def mi_setMinDiff_def mi_resetCurDiff_def mi_inv_def)
  show "miner_ok w A m \<Longrightarrow> miner_ok w (A - {a}) (mi_removeLocalJob a m)"
    by (auto simp: miner_ok_def mi_removeLocalJob_def mi_inv_def delete_conv' split: if_splits)
qed

lemma dp_setMinDiff_inv: "dp_inv w A k dp \<Longrightarrow> dp_inv w A k (dp_setMinDiff d dp)"
  by (cases dp) (auto simp: dp_inv_Miner intro: agent_map_inv)

lemma dp_resetCurDiff_inv: "dp_inv w A k dp \<Longrightarrow> dp_inv w A k (dp_resetCurDiff d dp)"
  by (cases dp) (auto simp: dp_inv_Miner intro: agent_map_inv)

lemma dp_removeLocalJob_inv: "dp_inv w A k dp \<Longrightarrow> dp_inv w (A - {a}) k (dp_removeLocalJob a dp)"
  by (cases dp) (auto simp: dp_inv_Miner intro: agent_map_inv)

lemma dp_setSubmitResponse_inv: "dp_inv w A k dp \<Longrightarrow> dp_inv w A k (dp_setSubmitResponse b dp)"
  by (cases dp) (auto simp: dp_inv_Miner dp_inv_Agent ag_ok_def)

lemma agent_new_inv:
  assumes "env_ok w env"
  shows "\<exists>ag. agent_new (pe_controller env) = Some ag \<and> dp_inv w A k (AgentDispatcher ag)"
  using dc_inv_copy [of "pe_controller env"] assms by (auto simp: agent_new_def env_ok_def dp_inv_Agent ag_ok_def dc_same_def)

lemma miner_addLocalJob_ok:
  assumes "miner_ok w A m" "env_ok w env"
  obtains d m' where "mi_addLocalJob env c a m = Some (d, m')" "miner_ok w (insert a A) m'" "d \<noteq> 0" "mi_curDiff m' = d"
proof -
  have "mi_inv w m" using assms(1) by (simp add: miner_ok_def)
  then obtain d m' where "mi_addLocalJob env c a m = Some (d, m')" "mi_inv w m'" "d \<noteq> 0" "mi_curDiff m' = d" "mi_jobDiffs m' = AList.update a d (mi_jobDiffs m)"
    using mi_addLocalJob_ok [OF _ assms(2)] by metis
  then show ?thesis using that [of d m'] assms(1) by (auto simp: miner_ok_def update_conv')
qed

lemma agent_jobs_ok:
  assumes "env_ok w env" "\<forall>(i, u, m) \<in> set ms. u < k \<and> miner_ok w A m"
  shows "\<exists>ms' ds'. agent_jobs env c a ms ds = Some (ms', ds') \<and> map fst ms' = map fst ms \<and> map (\<lambda>x. fst (snd x)) ms' = map (\<lambda>x. fst (snd x)) ms \<and>
    (\<forall>(i, u, m) \<in> set ms'. u < k \<and> miner_ok w (insert a A) m)"
  using assms(2)
proof (induction ms arbitrary: ds)
  case (Cons x ms)
  obtain i u m where x: "x = (i, u, m)" by (cases x)
  have "miner_ok w A m" "u < k" using Cons.prems x by auto
  then obtain d m' where m': "mi_addLocalJob env c a m = Some (d, m')" "miner_ok w (insert a A) m'" "d \<noteq> 0"
    using miner_addLocalJob_ok [OF _ assms(1)] by metis
  define ds2 where "ds2 = (if ucast (pe_lg env d) \<noteq> (if mi_curDiff m \<noteq> 0 then ucast (pe_lg env (mi_curDiff m)) else 0 :: u8)
       then om_update (ucast (pe_lg env d)) ((case om_find ds (ucast (pe_lg env d)) of None \<Rightarrow> [] | Some l \<Rightarrow> l) @ [i]) ds else ds)"
  have rest: "\<forall>(i, u, m) \<in> set ms. u < k \<and> miner_ok w A m" using Cons.prems by simp
  obtain ms' ds' where ih: "agent_jobs env c a ms ds2 = Some (ms', ds')"
    "map fst ms' = map fst ms" "map (\<lambda>x. fst (snd x)) ms' = map (\<lambda>x. fst (snd x)) ms" "\<forall>(i, u, m) \<in> set ms'. u < k \<and> miner_ok w (insert a A) m"
    using Cons.IH [OF rest, of ds2] by (elim exE conjE)
  have "agent_jobs env c a (x # ms) ds = Some ((i, u, m') # ms', ds')"
    using m'(1,3) ih(1) by (simp add: x ds2_def Let_def)
  then show ?case using m'(2) ih(2-4) \<open>u < k\<close> by (simp add: x)
qed simp

lemma dp_addLocalJob_inv:
  assumes "dp_inv w A k dp" "env_ok w env"
  shows "\<exists>dp' eff. dp_addLocalJob env c a dp = Some (dp', eff) \<and> dp_inv w (insert a A) k dp'"
proof (cases dp)
  case NullDispatcher
  then show ?thesis by (simp add: dp_addLocalJob_def)
next
  case (MinerDispatcher u m)
  then obtain d m' where "mi_addLocalJob env c a m = Some (d, m')" "miner_ok w (insert a A) m'"
    using miner_addLocalJob_ok [OF _ assms(2)] assms(1) by (metis dp_inv_Miner)
  then show ?thesis using MinerDispatcher assms(1) by (simp add: dp_addLocalJob_def dp_inv_Miner)
next
  case (AgentDispatcher ag)
  then have ag: "ag_ok w ag" "\<forall>(i, u, m) \<in> set (ag_miners ag). u < k \<and> miner_ok w A m" "distinct (map (\<lambda>x. fst (snd x)) (ag_miners ag))"
    using assms(1) by (simp_all add: dp_inv_Agent)
  obtain ms ds where ms: "agent_jobs env c a (ag_miners ag) [] = Some (ms, ds)" "map fst ms = map fst (ag_miners ag)"
    "map (\<lambda>x. fst (snd x)) ms = map (\<lambda>x. fst (snd x)) (ag_miners ag)" "\<forall>(i, u, m) \<in> set ms. u < k \<and> miner_ok w (insert a A) m"
    using agent_jobs_ok [OF assms(2) ag(2)] by blast
  obtain d c' where c': "calcCurDiff (pe_now env) (pe_now env) (ag_controller ag) = Some (d, c')" "dc_adjusted (ag_controller ag) c'"
    using calcCurDiff_ok [of "ag_controller ag" "pe_now env" "pe_now env"] ag(1) assms(2) by (auto simp: ag_ok_def env_ok_def dc_time_def)
  have "dc_inv c'" "kDiffWindow c' = w" using c'(2) ag(1) by (auto simp: dc_adjusted_def dc_same_def ag_ok_def)
  moreover have "om_inv ms" using om_inv_keys [OF ms(2)] ag(1) by (simp add: ag_ok_def)
  ultimately show ?thesis using AgentDispatcher ms c' ag(3)
    by (simp add: dp_addLocalJob_def agent_addLocalJob_def dp_inv_Agent ag_ok_def)
qed

lemma om_update_found:
  "om_inv m \<Longrightarrow> om_find m k = Some v0 \<Longrightarrow> om_update k v m = map (\<lambda>(i, x). (i, if i = k then v else x)) m"
proof (induction k v m rule: om_update.induct)
  case (2 k v a b m)
  have t: "map (\<lambda>(i, x). (i, if i = k then v else x)) m = m" if "k = a" using 2(2) that by (intro map_idI) (auto simp: om_inv_Cons)
  have "\<not> k < a" using 2(2,3) om_find_in_set [OF 2(2)] by (auto simp: om_inv_Cons)
  then show ?case using 2 t by (auto simp: om_inv_Cons om_find_def)
qed simp

lemma om_update_new_set: "om_find m k = None \<Longrightarrow> set (om_update k v m) = insert (k, v) (set m)"
  by (induction k v m rule: om_update.induct) (auto simp: om_find_def split: if_splits)

lemma om_update_new_distinct:
  "om_find m k = None \<Longrightarrow> distinct (map f (om_update k v m)) \<longleftrightarrow> f (k, v) \<notin> f ` set m \<and> distinct (map f m)"
proof (induction k v m rule: om_update.induct)
  case (2 k v a b m)
  then have n: "om_find m k = None" by (auto simp: om_find_def split: if_splits)
  show ?case
  proof (cases "k < a \<or> k = a")
    case True
    then show ?thesis using 2(2) by (auto simp: om_find_def)
  next
    case False
    then show ?thesis using 2(1) [OF _ _ n] om_update_new_set [OF n] by auto
  qed
qed simp

lemma registerWorker_inv:
  assumes inv: "dp_inv w A k (AgentDispatcher ag)" and mk: "\<And>a n i. \<exists>m. createMiner a n i = Some m \<and> miner_ok w A m"
  shows "\<exists>ag' eff. registerWorker createMiner k sid a n i ag = Some (ag', eff) \<and> dp_inv w A (Suc k) (AgentDispatcher ag')"
proof -
  obtain m where m: "createMiner a n i = Some m" "miner_ok w A m" using mk by blast
  have k: "(\<lambda>x. fst (snd x)) (sid, k, m) \<notin> (\<lambda>x. fst (snd x)) ` set (ag_miners ag)" using inv by (auto simp: dp_inv_Agent)
  have "dp_inv w A (Suc k) (AgentDispatcher (ag\<lparr>ag_miners := om_insert sid (k, m) (ag_miners ag)\<rparr>))"
  proof (cases "om_find (ag_miners ag) sid")
    case None
    then show ?thesis using inv m(2) k om_update_new_set [OF None, of "(k, m)"] om_update_new_distinct [OF None, of "\<lambda>x. fst (snd x)" "(k, m)"]
      by (auto simp: dp_inv_Agent ag_ok_def om_insert_def)
  qed (use inv in \<open>auto simp: dp_inv_Agent ag_ok_def om_insert_def\<close>)
  then show ?thesis using m by (simp add: registerWorker_def)
qed

lemma unregisterWorker_inv:
  "dp_inv w A k (AgentDispatcher ag) \<Longrightarrow> dp_inv w A k (AgentDispatcher (fst (unregisterWorker sid ag)))"
  by (auto simp: dp_inv_Agent ag_ok_def unregisterWorker_def om_erase_def distinct_map_filter)

lemma dp_inv_Suc: "dp_inv w A k dp \<Longrightarrow> dp_inv w A (Suc k) dp"
  by (auto simp: dp_inv_def less_Suc_eq)

lemma agent_update_miner:
  assumes inv: "dp_inv w A k (AgentDispatcher ag)" and f: "om_find (ag_miners ag) sid = Some (u, m)" and m': "miner_ok w A m'"
  shows "dp_inv w A k (AgentDispatcher (ag\<lparr>ag_miners := om_update sid (u, m') (ag_miners ag)\<rparr>))"
proof -
  have oi: "om_inv (ag_miners ag)" using inv by (simp add: dp_inv_Agent ag_ok_def)
  have mem: "(sid, u, m) \<in> set (ag_miners ag)" using f om_find_in_set [OF oi] by simp
  note e = om_update_found [OF oi f, of "(u, m')"]
  have "map (\<lambda>x. fst (snd x)) (om_update sid (u, m') (ag_miners ag)) = map (\<lambda>x. fst (snd x)) (ag_miners ag)"
    unfolding e using om_find_in_set [OF oi, of sid] f by fastforce
  moreover have "set (om_update sid (u, m') (ag_miners ag)) \<subseteq> insert (sid, u, m') (set (ag_miners ag))"
    unfolding e by (auto split: if_splits)
  ultimately show ?thesis using inv m' mem oi by (fastforce simp: dp_inv_Agent ag_ok_def)
qed

text \<open>What a message does to the local jobs: it is one submission of a miner, or nothing.\<close>

definition submit_step :: "pool_env \<Rightarrow> session_view \<Rightarrow> local_job_bitcoin list \<Rightarrow> local_job_bitcoin list \<Rightarrow> pending option \<Rightarrow> bool" where
  "submit_step env sv jobs jobs' p \<longleftrightarrow> (jobs' = jobs \<and> p = None) \<or> (\<exists>su m m' eff. mi_submit env sv su jobs m = Some (jobs', m', eff, p))"

definition pend_ok :: "pending option \<Rightarrow> bool" where
  "pend_ok p \<longleftrightarrow> (case p of None \<Rightarrow> True | Some q \<Rightarrow> pc_status q \<noteq> SOLVED_PRELIMINARY \<and> sint (word_of_int (pc_status q) :: u32) = pc_status q)"

definition jobs_ok :: "session_view \<Rightarrow> local_job_bitcoin list \<Rightarrow> bool" where
  "jobs_ok sv jobs \<longleftrightarrow> distinct (map lj_addr jobs) \<and> (\<forall>j\<in>set jobs. lj_chainId j < length (wk_userIds (sv_worker sv)))"

lemma miner_submit_ok:
  assumes "miner_ok w A m" "env_ok w env" "check_env_ok env" "jobs_ok sv jobs"
  obtains jobs' m' eff p where "mi_submit env sv su jobs m = Some (jobs', m', eff, p)" "miner_ok w A m'" "submit_step env sv jobs jobs' p" "pend_ok p"
proof -
  obtain jobs' m' eff p where s: "mi_submit env sv su jobs m = Some (jobs', m', eff, p)" "submit_result w su jobs m jobs' m' eff p"
    using mi_submit_ok [of w m env jobs sv su] assms by (auto simp: miner_ok_def jobs_ok_def)
  have "miner_ok w A m'" "pend_ok p"
    using s(2) assms(1) by (auto simp: submit_result_def miner_ok_def pend_ok_def split: option.splits)
  moreover have "submit_step env sv jobs jobs' p" unfolding submit_step_def using s(1) by blast
  ultimately show ?thesis using that s(1) by blast
qed

lemma session_specific_ok:
  assumes inv: "dp_inv w A k (AgentDispatcher ag)" and env: "env_ok w env" "check_env_ok env" "jobs_ok sv jobs"
  shows "\<exists>jobs' ag' eff p. handleExMessage_SessionSpecific env sv jobs msg ag = Some (jobs', ag', eff, p) \<and>
    dp_inv w A k (AgentDispatcher ag') \<and> submit_step env sv jobs jobs' (map_option snd p) \<and> pend_ok (map_option snd p)"
proof (cases "om_find (ag_miners ag) (decodeSessionId msg)")
  case None
  then show ?thesis using inv by (simp add: handleExMessage_SessionSpecific_def submit_step_def pend_ok_def)
next
  case (Some um)
  obtain u m where um: "om_find (ag_miners ag) (decodeSessionId msg) = Some (u, m)" using Some by (cases um) simp
  show ?thesis
  proof (cases "ex_submit msg")
    case None
    then show ?thesis using inv um by (simp add: handleExMessage_SessionSpecific_def submit_step_def pend_ok_def)
  next
    case (Some su)
    let ?ag1 = "ag\<lparr>ag_submitIndex := ag_submitIndex ag + 1\<rparr>"
    have inv1: "dp_inv w A k (AgentDispatcher ?ag1)" using inv by (simp add: dp_inv_Agent ag_ok_def)
    have "om_inv (ag_miners ag)" using inv by (simp add: dp_inv_Agent ag_ok_def)
    then have "(decodeSessionId msg, u, m) \<in> set (ag_miners ag)" using um by (simp add: om_find_in_set)
    then have "miner_ok w A m" using inv by (auto simp: dp_inv_Agent)
    then obtain jobs' m' eff p where s: "mi_submit env sv (su\<lparr>su_idStr := to_string (unat (ag_submitIndex ag))\<rparr>) jobs m = Some (jobs', m', eff, p)"
      "miner_ok w A m'" "submit_step env sv jobs jobs' p" "pend_ok p" by (rule miner_submit_ok [OF _ env])
    have "dp_inv w A k (AgentDispatcher (?ag1\<lparr>ag_miners := om_update (decodeSessionId msg) (u, m') (ag_miners ?ag1)\<rparr>))"
      by (rule agent_update_miner [OF inv1 _ s(2)]) (simp add: um)
    then show ?thesis using s um Some by (simp add: handleExMessage_SessionSpecific_def Let_def option.map_comp comp_def option.map_ident)
  qed
qed

lemma agent_message_ok:
  assumes inv: "dp_inv w A k (AgentDispatcher ag)" and env: "env_ok w env" "check_env_ok env" "jobs_ok sv jobs"
    and len: "unat (le16_at msg 2) = length msg" and mk: "\<And>a n i. \<exists>m. createMiner a n i = Some m \<and> miner_ok w A m"
  shows "\<exists>jobs' ag' eff p. agent_handleExMessage env sv Hash createMiner k jobs msg ag = Some (jobs', ag', eff, p) \<and>
    dp_inv w A (Suc k) (AgentDispatcher ag') \<and> submit_step env sv jobs jobs' (map_option snd p) \<and> pend_ok (map_option snd p)"
proof -
  have nop: "submit_step env sv jobs jobs None" "pend_ok None" by (simp_all add: submit_step_def pend_ok_def)
  have reg: "\<exists>ag' eff. handleExMessage_RegisterWorker Hash createMiner k msg ag = Some (ag', eff) \<and> dp_inv w A (Suc k) (AgentDispatcher ag')"
    using dp_inv_Suc [OF inv] registerWorker_inv [OF inv mk] by (simp add: handleExMessage_RegisterWorker_def split: prod.split)
  have unreg: "\<exists>ag' eff. handleExMessage_UnregisterWorker msg ag = (ag', eff) \<and> dp_inv w A (Suc k) (AgentDispatcher ag')"
    using dp_inv_Suc [OF inv] dp_inv_Suc [OF unregisterWorker_inv [OF inv], of "le16_at msg 4"]
    by (cases "unregisterWorker (le16_at msg 4) ag") (auto simp: handleExMessage_UnregisterWorker_def)
  have spec: "\<exists>jobs' ag' eff p. handleExMessage_SessionSpecific env sv jobs msg ag = Some (jobs', ag', eff, p) \<and>
    dp_inv w A (Suc k) (AgentDispatcher ag') \<and> submit_step env sv jobs jobs' (map_option snd p) \<and> pend_ok (map_option snd p)"
    using session_specific_ok [OF inv env, of msg] dp_inv_Suc by blast
  show ?thesis using reg unreg spec nop len dp_inv_Suc [OF inv] by (auto simp: agent_handleExMessage_def Let_def)
qed

end
