(* ===== verification/User_Info.thy ===== *)
theory User_Info
  imports Stratum_Worker "HOL-Library.AList"
begin

text \<open>
  \<open>UserInfo\<close> of \<open>UserInfo.{h,cc}\<close>: the names and ids of the users of each chain, fetched in increments
  from an HTTP interface, the chain that each user mines on, cached from ZooKeeper, and the registration
  of unknown users. The maps are association lists. The answers of ZooKeeper and of the HTTP
  interface are arguments; a refused or failed call of ZooKeeper is \<^term>\<open>None\<close> or \<^term>\<open>False\<close>. The
  threads of the class are the events of \<open>ui_step\<close>.
\<close>

section \<open>State\<close>

record user_chain =
  uc_nameIds :: "(string \<times> int) list"
  uc_lastMaxUserId :: int

record user_info =
  ui_caseInsensitive :: bool
  ui_stripUserSuffix :: bool
  ui_userSuffixSeparator :: string
  ui_enableAutoReg :: bool
  ui_autoRegMaxPendingUsers :: nat
  ui_zkUserChainMapDir :: string
  ui_zkAutoRegWatchDir :: string
  ui_chains :: "user_chain list"
  ui_autoRegPendingUsers :: "string list"
  ui_nameChains :: "(string \<times> nat \<times> bool) list"

text \<open>What it reads of the server and its management, and the answers of ZooKeeper.\<close>

record pool_view =
  pv_singleUserChain :: bool
  pv_chainNames :: "string list"
  pv_autoSwitchChainEnabled :: bool
  pv_currentAutoChainId :: nat

record zookeeper =
  zk_getValue :: "string \<Rightarrow> string option"
  zk_createNode :: "string \<Rightarrow> string \<Rightarrow> bool"
  zk_watchNode :: "string \<Rightarrow> bool"

definition AUTO_CHAIN_NAME :: string where "AUTO_CHAIN_NAME = ''auto''"

section \<open>Names\<close>

text \<open>\<open>rfind\<close>: the part before the last occurrence of the separator.\<close>

fun before_last :: "string \<Rightarrow> string \<Rightarrow> string option" where
  "before_last sep [] = (if sep = [] then Some [] else None)"
| "before_last sep (c # s) = (case before_last sep s of
     Some p \<Rightarrow> Some (c # p)
   | None \<Rightarrow> if take (length sep) (c # s) = sep then Some [] else None)"

definition regularUserName :: "'a user_info_scheme \<Rightarrow> string \<Rightarrow> string" where
  "regularUserName ui userName =
     (let userName = (if ui_caseInsensitive ui then map tolower userName else userName)
      in if ui_stripUserSuffix ui then (case before_last (ui_userSuffixSeparator ui) userName of None \<Rightarrow> userName | Some p \<Rightarrow> p)
         else userName)"

section \<open>The chain of a user\<close>

definition ui_getUserId :: "nat \<Rightarrow> string \<Rightarrow> user_info \<Rightarrow> int option" where
  "ui_getUserId chainId userName ui = do {
     chain \<leftarrow> vec_get (ui_chains ui) (int chainId);
     Some (case map_of (uc_nameIds chain) userName of Some i \<Rightarrow> i | None \<Rightarrow> 0) }"

definition zkGetChainW :: "pool_view \<Rightarrow> zookeeper \<Rightarrow> string \<Rightarrow> user_info \<Rightarrow> string option" where
  "zkGetChainW pv zk userName ui =
     (if pv_singleUserChain pv then Some AUTO_CHAIN_NAME else zk_getValue zk (ui_zkUserChainMapDir ui @ userName))"

definition cache_chain :: "string \<Rightarrow> nat \<Rightarrow> bool \<Rightarrow> user_info \<Rightarrow> user_info" where
  "cache_chain userName chainId auto ui = ui\<lparr>ui_nameChains := AList.update userName (chainId, auto) (ui_nameChains ui)\<rparr>"

definition has_user :: "user_info \<Rightarrow> string \<Rightarrow> nat \<Rightarrow> bool" where
  "has_user ui userName chainId \<longleftrightarrow> chainId < length (ui_chains ui) \<and> map_of (uc_nameIds (ui_chains ui ! chainId)) userName \<noteq> None"

definition getChainIdFromZookeeper :: "pool_view \<Rightarrow> zookeeper \<Rightarrow> string \<Rightarrow> user_info \<Rightarrow> nat option \<times> user_info" where
  "getChainIdFromZookeeper pv zk userName ui =
     (if length userName > 200 then (None, ui)
      else case zkGetChainW pv zk userName ui of
        None \<Rightarrow> (None, ui)
      | Some chainName \<Rightarrow>
          if pv_autoSwitchChainEnabled pv \<and> chainName = AUTO_CHAIN_NAME
          then (Some (pv_currentAutoChainId pv), cache_chain userName (pv_currentAutoChainId pv) True ui)
          else case find (\<lambda>i. chainName = pv_chainNames pv ! i) [0..<length (pv_chainNames pv)] of
            None \<Rightarrow> (None, ui)
          | Some chainId \<Rightarrow>
              if has_user ui userName chainId then (Some chainId, cache_chain userName chainId False ui) else (None, ui))"

definition ui_getChainId :: "pool_view \<Rightarrow> zookeeper \<Rightarrow> string \<Rightarrow> user_info \<Rightarrow> nat option \<times> user_info" where
  "ui_getChainId pv zk userName ui =
     (if length (ui_chains ui) = 1 then (Some 0, ui)
      else case map_of (ui_nameChains ui) userName of
        Some (chainId, _) \<Rightarrow> (Some chainId, ui)
      | None \<Rightarrow>
          (case getChainIdFromZookeeper pv zk userName ui of
             (Some chainId, ui') \<Rightarrow> (Some chainId, ui')
           | (None, ui') \<Rightarrow>
               (case find (has_user ui' userName) [0..<length (ui_chains ui')] of
                  Some chainId \<Rightarrow> (Some chainId, cache_chain userName chainId False ui')
                | None \<Rightarrow> (None, ui'))))"

text \<open>
  \<open>handleSwitchChainEvent\<close>: the chain that the sessions of the user are to be moved to, if any. The
  server moves them and reports how many it has; the entry of a user without sessions is dropped.
\<close>

definition handleSwitchChainEvent :: "pool_view \<Rightarrow> zookeeper \<Rightarrow> string \<Rightarrow> user_info \<Rightarrow> (nat option \<times> user_info) option" where
  "handleSwitchChainEvent pv zk userName ui =
     (case map_of (ui_nameChains ui) userName of
        None \<Rightarrow> Some (None, ui)
      | Some (currentChainId, _) \<Rightarrow>
          (case getChainIdFromZookeeper pv zk userName ui of
             (None, ui') \<Rightarrow> Some (None, ui')
           | (Some newChainId, ui') \<Rightarrow>
               if currentChainId = newChainId then Some (None, ui')
               else do {
                 newUserId \<leftarrow> ui_getUserId newChainId userName ui';
                 Some (if newUserId \<le> 0 then None else Some newChainId, ui') }))"

text \<open>
  One user of a round of \<open>checkNameChains\<close>, from the copy of the cache that the round works on; an
  exception of ZooKeeper ends the check of this user.
\<close>

definition check_name_chain :: "pool_view \<Rightarrow> zookeeper \<Rightarrow> string \<times> nat \<times> bool \<Rightarrow> user_info \<Rightarrow> (nat option \<times> user_info) option" where
  "check_name_chain pv zk itr ui = (case itr of (userName, chainId, auto) \<Rightarrow> do {
     chainName \<leftarrow> vec_get (pv_chainNames pv) (int chainId);
     case zkGetChainW pv zk userName ui of
       None \<Rightarrow> Some (None, ui)
     | Some newChainName \<Rightarrow>
         if pv_autoSwitchChainEnabled pv \<and> newChainName = AUTO_CHAIN_NAME
         then if auto \<and> chainId = pv_currentAutoChainId pv then Some (None, ui) else handleSwitchChainEvent pv zk userName ui
         else if chainName = newChainName then Some (None, ui)
         else handleSwitchChainEvent pv zk userName ui })"

definition after_switch :: "string \<Rightarrow> nat \<Rightarrow> user_info \<Rightarrow> user_info" where
  "after_switch userName onlineSessions ui =
     (if onlineSessions = 0 then ui\<lparr>ui_nameChains := AList.delete userName (ui_nameChains ui)\<rparr> else ui)"

definition switch_path :: "string \<Rightarrow> user_info \<Rightarrow> string option" where
  "switch_path path ui =
     (if int (length path) - int (length (ui_zkUserChainMapDir ui)) < 1 then None
      else Some (drop (length (ui_zkUserChainMapDir ui)) path))"

definition ui_autoSwitchChain :: "nat \<Rightarrow> user_info \<Rightarrow> nat \<times> user_info" where
  "ui_autoSwitchChain newChainId ui =
     (length (filter (\<lambda>(_, _, auto). auto) (ui_nameChains ui)),
      ui\<lparr>ui_nameChains := map (\<lambda>(n, c, auto). (n, if auto then newChainId else c, auto)) (ui_nameChains ui)\<rparr>)"

text \<open>\<open>operator[]\<close> adds an entry for a name that is not there.\<close>

definition userAutoSwitchChainEnabled :: "string \<Rightarrow> user_info \<Rightarrow> bool \<times> user_info" where
  "userAutoSwitchChainEnabled userName ui =
     (case map_of (ui_nameChains ui) userName of
        Some (_, auto) \<Rightarrow> (auto, ui)
      | None \<Rightarrow> (False, cache_chain userName 0 False ui))"

section \<open>The list of users\<close>

fun add_users :: "user_info \<Rightarrow> Node list \<Rightarrow> user_chain \<Rightarrow> user_chain" where
  "add_users ui [] chain = chain"
| "add_users ui (itr # rest) chain =
     (let userName = regularUserName ui (nkey itr); userId = node_int32 itr;
          chain = (if userId > uc_lastMaxUserId chain then chain\<lparr>uc_lastMaxUserId := userId\<rparr> else chain)
      in add_users ui rest (if map_of (uc_nameIds chain) userName = None
           then chain\<lparr>uc_nameIds := (userName, userId) # uc_nameIds chain\<rparr> else chain))"

definition update_url :: "string \<Rightarrow> int \<Rightarrow> string" where
  "update_url apiUrl lastMaxUserId = apiUrl @ ''?last_id='' @ i64tostr lastMaxUserId"

definition incrementalUpdateUsers :: "nat \<Rightarrow> string option \<Rightarrow> user_info \<Rightarrow> (int \<times> user_info) option" where
  "incrementalUpdateUsers chainId resp ui = do {
     chain \<leftarrow> vec_get (ui_chains ui) (int chainId);
     case resp of
       None \<Rightarrow> Some (- 1, ui)
     | Some text \<Rightarrow>
         (case node_parse text of
            None \<Rightarrow> Some (- 1, ui)
          | Some r \<Rightarrow>
              if ntype (node_at r ''data'') = JUndefined then Some (- 1, ui)
              else let vUser = nchildren (node_at r ''data'')
                   in if vUser = [] then Some (0, ui)
                      else Some (int (length vUser), ui\<lparr>ui_chains := (ui_chains ui)[chainId := add_users ui vUser chain]\<rparr>)) }"

section \<open>Registration of users\<close>

definition auto_reg_json :: "u32 \<Rightarrow> string \<Rightarrow> string" where
  "auto_reg_json sessionId fullWorkerName =
     ''{\"SessionID\":'' @ to_string (unat sessionId) @ '',\"Worker\":\"'' @ fullWorkerName @ ''\"}''"

definition tryAutoReg :: "zookeeper \<Rightarrow> string \<Rightarrow> u32 \<Rightarrow> string \<Rightarrow> user_info \<Rightarrow> bool \<times> user_info" where
  "tryAutoReg zk userName sessionId fullWorkerName ui =
     (let userName = filterWorkerName userName;
          path = ui_zkAutoRegWatchDir ui @ userName
      in if userName \<in> set (ui_autoRegPendingUsers ui) then (True, ui)
         else if length (ui_autoRegPendingUsers ui) \<ge> ui_autoRegMaxPendingUsers ui then (False, ui)
         else if zk_createNode zk path (auto_reg_json sessionId (filterWorkerName fullWorkerName)) \<and> zk_watchNode zk path
         then (True, ui\<lparr>ui_autoRegPendingUsers := userName # ui_autoRegPendingUsers ui\<rparr>)
         else (False, ui))"

text \<open>\<open>handleAutoRegEvent\<close>: the user whose sessions are called back. The length is that of the other directory.\<close>

definition handleAutoRegEvent :: "string \<Rightarrow> user_info \<Rightarrow> (string option \<times> user_info) option" where
  "handleAutoRegEvent path ui =
     (if int (length path) - int (length (ui_zkUserChainMapDir ui)) < 1 then Some (None, ui)
      else if length (ui_zkAutoRegWatchDir ui) > length path then None
      else let userName = drop (length (ui_zkAutoRegWatchDir ui)) path
           in Some (Some userName, ui\<lparr>ui_autoRegPendingUsers := removeAll userName (ui_autoRegPendingUsers ui)\<rparr>))"

section \<open>The state stays well-formed\<close>

datatype ui_event =
    UpdateUsers nat "string option"
  | GetChainId pool_view zookeeper string
  | SwitchChainEvent pool_view zookeeper string
  | CheckNameChain pool_view zookeeper string nat bool
  | AfterSwitch string nat
  | AutoSwitchChain nat
  | AutoSwitchEnabled string
  | TryAutoReg zookeeper string u32 string
  | AutoRegEvent string

fun ui_step :: "user_info \<Rightarrow> ui_event \<Rightarrow> user_info option" where
  "ui_step ui (UpdateUsers c resp) = map_option snd (incrementalUpdateUsers c resp ui)"
| "ui_step ui (GetChainId pv zk n) = Some (snd (ui_getChainId pv zk n ui))"
| "ui_step ui (SwitchChainEvent pv zk n) = map_option snd (handleSwitchChainEvent pv zk n ui)"
| "ui_step ui (CheckNameChain pv zk n c a) = map_option snd (check_name_chain pv zk (n, c, a) ui)"
| "ui_step ui (AfterSwitch n k) = Some (after_switch n k ui)"
| "ui_step ui (AutoSwitchChain c) = Some (snd (ui_autoSwitchChain c ui))"
| "ui_step ui (AutoSwitchEnabled n) = Some (snd (userAutoSwitchChainEnabled n ui))"
| "ui_step ui (TryAutoReg zk n i w) = Some (snd (tryAutoReg zk n i w ui))"
| "ui_step ui (AutoRegEvent p) = map_option snd (handleAutoRegEvent p ui)"

text \<open>The server has \<open>k\<close> chains; watched paths lie below the directory \<open>dir\<close> of registrations.\<close>

definition view_ok :: "nat \<Rightarrow> pool_view \<Rightarrow> bool" where
  "view_ok k pv \<longleftrightarrow> length (pv_chainNames pv) = k \<and> pv_currentAutoChainId pv < k"

fun ui_ok :: "nat \<Rightarrow> string \<Rightarrow> ui_event \<Rightarrow> bool" where
  "ui_ok k dir (UpdateUsers c _) \<longleftrightarrow> c < k"
| "ui_ok k dir (GetChainId pv _ _) \<longleftrightarrow> view_ok k pv"
| "ui_ok k dir (SwitchChainEvent pv _ _) \<longleftrightarrow> view_ok k pv"
| "ui_ok k dir (CheckNameChain pv _ _ c _) \<longleftrightarrow> view_ok k pv \<and> c < k"
| "ui_ok k dir (AutoSwitchChain c) \<longleftrightarrow> c < k"
| "ui_ok k dir (AutoRegEvent path) \<longleftrightarrow> (\<exists>n. path = dir @ n)"
| "ui_ok k dir _ \<longleftrightarrow> True"

definition uc_wf :: "user_chain \<Rightarrow> bool" where
  "uc_wf c \<longleftrightarrow> distinct (map fst (uc_nameIds c)) \<and> (\<forall>(n, i) \<in> set (uc_nameIds c). i \<le> uc_lastMaxUserId c)"

definition ui_wf :: "nat \<Rightarrow> string \<Rightarrow> user_info \<Rightarrow> bool" where
  "ui_wf k dir ui \<longleftrightarrow> length (ui_chains ui) = k \<and> ui_zkAutoRegWatchDir ui = dir \<and> list_all uc_wf (ui_chains ui) \<and>
     (\<forall>(n, c, a) \<in> set (ui_nameChains ui). c < k) \<and>
     distinct (ui_autoRegPendingUsers ui) \<and> length (ui_autoRegPendingUsers ui) \<le> ui_autoRegMaxPendingUsers ui"

lemma add_users_wf: "uc_wf c \<Longrightarrow> uc_wf (add_users ui us c)"
proof (induction ui us c rule: add_users.induct)
  case (2 ui itr rest chain)
  show ?case unfolding add_users.simps Let_def
    by (rule 2(1) [OF refl refl refl]) (use 2(2) in \<open>force simp: uc_wf_def map_of_eq_None_iff\<close>)
qed simp

lemma set_update_subset: "set (AList.update k v xs) \<subseteq> insert (k, v) (set xs)"
  by (induction xs) auto

lemma cache_chain_wf [simp]: "ui_wf k dir ui \<Longrightarrow> c < k \<Longrightarrow> ui_wf k dir (cache_chain n c a ui)"
  using set_update_subset [of n "(c, a)" "ui_nameChains ui"] by (auto simp: ui_wf_def cache_chain_def)

lemma find_upt: "find P [0..<n] = Some i \<Longrightarrow> i < n \<and> P i"
  by (auto simp: find_Some_iff)

lemma cache_chain_chains [simp]: "ui_chains (cache_chain n c a ui) = ui_chains ui"
  by (simp add: cache_chain_def)

lemma getChainIdFromZookeeper_wf:
  assumes wf: "ui_wf k dir ui" and pv: "view_ok k pv" and r: "getChainIdFromZookeeper pv zk n ui = (r, ui')"
  shows "ui_wf k dir ui' \<and> ui_chains ui' = ui_chains ui \<and> (\<forall>c. r = Some c \<longrightarrow> c < k)"
proof -
  have l: "length (ui_chains ui) = k" "pv_currentAutoChainId pv < k" using wf pv by (simp_all add: ui_wf_def view_ok_def)
  show ?thesis using r wf l by (auto simp: getChainIdFromZookeeper_def has_user_def split: if_splits option.splits)
qed

lemma ui_getChainId_wf:
  assumes wf: "ui_wf k dir ui" and pv: "view_ok k pv" and r: "ui_getChainId pv zk n ui = (r, ui')"
  shows "ui_wf k dir ui' \<and> ui_chains ui' = ui_chains ui \<and> (\<forall>c. r = Some c \<longrightarrow> c < k)"
proof -
  obtain q ui1 where z: "getChainIdFromZookeeper pv zk n ui = (q, ui1)" by fastforce
  note w = getChainIdFromZookeeper_wf [OF wf pv z]
  have l: "length (ui_chains ui) = k" "\<And>c a. map_of (ui_nameChains ui) n = Some (c, a) \<Longrightarrow> c < k"
    using wf by (auto simp: ui_wf_def dest!: map_of_SomeD)
  show ?thesis using r wf l w
    by (auto simp: ui_getChainId_def z split: if_splits option.splits dest!: find_upt find_upt [OF sym])
qed

lemma ui_getUserId_returns: "ui_wf k dir ui \<Longrightarrow> c < k \<Longrightarrow> \<exists>i. ui_getUserId c n ui = Some i"
  by (simp add: ui_getUserId_def ui_wf_def)

lemma handleSwitchChainEvent_wf:
  assumes wf: "ui_wf k dir ui" and pv: "view_ok k pv"
  shows "\<exists>r ui'. handleSwitchChainEvent pv zk n ui = Some (r, ui') \<and> ui_wf k dir ui'"
proof -
  obtain q ui1 where z: "getChainIdFromZookeeper pv zk n ui = (q, ui1)" by fastforce
  note w = getChainIdFromZookeeper_wf [OF wf pv z]
  show ?thesis
  proof (cases q)
    case None
    then show ?thesis using wf w by (auto simp: handleSwitchChainEvent_def z split: option.split)
  next
    case (Some c)
    then obtain i where "ui_getUserId c n ui1 = Some i" using ui_getUserId_returns w by blast
    then show ?thesis using Some wf w by (auto simp: handleSwitchChainEvent_def z split: option.split)
  qed
qed

lemma check_name_chain_wf:
  assumes wf: "ui_wf k dir ui" and pv: "view_ok k pv" and c: "c < k"
  shows "\<exists>r ui'. check_name_chain pv zk (n, c, a) ui = Some (r, ui') \<and> ui_wf k dir ui'"
proof -
  have "int c < int (length (pv_chainNames pv))" using pv c by (simp add: view_ok_def)
  then show ?thesis using handleSwitchChainEvent_wf [OF wf pv, of zk n] wf
    by (auto simp: check_name_chain_def split: option.split)
qed

lemma incrementalUpdateUsers_wf:
  assumes wf: "ui_wf k dir ui" and c: "c < k"
  shows "\<exists>r ui'. incrementalUpdateUsers c resp ui = Some (r, ui') \<and> ui_wf k dir ui'"
proof -
  have l: "length (ui_chains ui) = k" using wf by (simp add: ui_wf_def)
  have "uc_wf (ui_chains ui ! c)" using wf c by (auto simp: ui_wf_def list_all_length)
  then have "uc_wf (add_users ui us (ui_chains ui ! c))" for us by (rule add_users_wf)
  then have "ui_wf k dir (ui\<lparr>ui_chains := (ui_chains ui)[c := add_users ui us (ui_chains ui ! c)]\<rparr>)" for us
    using wf c by (auto simp: ui_wf_def list_all_length nth_list_update)
  then show ?thesis using wf c l by (auto simp: incrementalUpdateUsers_def Let_def split: option.split)
qed

lemma tryAutoReg_wf: "ui_wf k dir ui \<Longrightarrow> ui_wf k dir (snd (tryAutoReg zk n i w ui))"
  by (auto simp: tryAutoReg_def Let_def ui_wf_def)

lemma handleAutoRegEvent_wf: "ui_wf k dir ui \<Longrightarrow> \<exists>r ui'. handleAutoRegEvent (dir @ n) ui = Some (r, ui') \<and> ui_wf k dir ui'"
  by (auto simp: handleAutoRegEvent_def Let_def ui_wf_def removeAll_filter_not_eq intro: order_trans [OF length_filter_le])

lemma after_switch_wf: "ui_wf k dir ui \<Longrightarrow> ui_wf k dir (after_switch n j ui)"
  by (auto simp: after_switch_def ui_wf_def AList.delete_eq)

lemma ui_autoSwitchChain_wf: "ui_wf k dir ui \<Longrightarrow> c < k \<Longrightarrow> ui_wf k dir (snd (ui_autoSwitchChain c ui))"
  by (auto simp: ui_autoSwitchChain_def ui_wf_def)

lemma userAutoSwitchChainEnabled_wf: "0 < k \<Longrightarrow> ui_wf k dir ui \<Longrightarrow> ui_wf k dir (snd (userAutoSwitchChainEnabled n ui))"
  by (auto simp: userAutoSwitchChainEnabled_def split: option.split)

lemma ui_step_wf:
  assumes "ui_wf k dir ui \<and> 0 < k" "ui_ok k dir e"
  shows "\<exists>ui'. ui_step ui e = Some ui' \<and> ui_wf k dir ui' \<and> 0 < k"
proof (cases e)
  case (GetChainId pv zk n)
  then show ?thesis using assms ui_getChainId_wf [of k dir ui pv zk n] by (cases "ui_getChainId pv zk n ui") auto
qed (use assms incrementalUpdateUsers_wf handleSwitchChainEvent_wf check_name_chain_wf tryAutoReg_wf handleAutoRegEvent_wf after_switch_wf
      ui_autoSwitchChain_wf userAutoSwitchChainEnabled_wf in \<open>fastforce+\<close>)

interpretation uie: event_handler ui_step "\<lambda>ui. ui_wf k dir ui \<and> 0 < k" "ui_ok k dir"
  by unfold_locales (rule ui_step_wf)

text \<open>
  Two lapses. The event of a registration is dropped when its path is not longer than the directory
  of the user chains, and the user stays pending. A switch to an automatic chain on which the user
  has no id is refused after the cache has been changed, so that the next event finds nothing to do.
\<close>

lemma auto_reg_event_lost:
  assumes "length (ui_zkAutoRegWatchDir ui @ n) \<le> length (ui_zkUserChainMapDir ui)"
  shows "handleAutoRegEvent (ui_zkAutoRegWatchDir ui @ n) ui = Some (None, ui)"
  using assms by (simp add: handleAutoRegEvent_def)

lemma refused_switch_cached:
  assumes "map_of (ui_nameChains ui) n = Some (c, a)" "length n \<le> 200" "pv_autoSwitchChainEnabled pv"
    "zkGetChainW pv zk n ui = Some AUTO_CHAIN_NAME" "c \<noteq> pv_currentAutoChainId pv"
    "ui_getUserId (pv_currentAutoChainId pv) n ui = Some 0"
  shows "handleSwitchChainEvent pv zk n ui = Some (None, cache_chain n (pv_currentAutoChainId pv) True ui)"
    "ui_getChainId pv zk n (cache_chain n (pv_currentAutoChainId pv) True ui) = (Some (if length (ui_chains ui) = 1 then 0 else pv_currentAutoChainId pv),
       cache_chain n (pv_currentAutoChainId pv) True ui)"
proof -
  have "ui_getUserId (pv_currentAutoChainId pv) n (cache_chain n (pv_currentAutoChainId pv) True ui) = Some 0"
    using assms(6) by (simp add: ui_getUserId_def)
  then show "handleSwitchChainEvent pv zk n ui = Some (None, cache_chain n (pv_currentAutoChainId pv) True ui)"
    using assms by (simp add: handleSwitchChainEvent_def getChainIdFromZookeeper_def)
  show "ui_getChainId pv zk n (cache_chain n (pv_currentAutoChainId pv) True ui) = (Some (if length (ui_chains ui) = 1 then 0 else pv_currentAutoChainId pv),
       cache_chain n (pv_currentAutoChainId pv) True ui)"
    by (simp add: ui_getChainId_def cache_chain_def update_conv')
qed

text \<open>
  C14. The user information stays well-formed under every sequence of its operations, each of which
  returns: chains and registrations keep their number and their limit, no user name has two ids in
  one chain, and every cached chain exists, so that the id of a user can always be looked up on the
  chain that \<open>getChainId\<close> gives.
\<close>

theorem user_info_well_formed:
  assumes "ui_wf k dir ui" "0 < k" "list_all (ui_ok k dir) es" "view_ok k pv"
  shows "\<exists>ui'. run ui_step ui es = Some ui' \<and> ui_wf k dir ui' \<and>
    (\<forall>n c ui2. ui_getChainId pv zk n ui' = (Some c, ui2) \<longrightarrow> (\<exists>i. ui_getUserId c n ui2 = Some i))"
proof -
  obtain ui' where r: "run ui_step ui es = Some ui'" "ui_wf k dir ui'" using uie.run_ok [of k dir ui es] assms by blast
  have "\<exists>i. ui_getUserId c n ui2 = Some i" if "ui_getChainId pv zk n ui' = (Some c, ui2)" for n c ui2
    using ui_getChainId_wf [OF r(2) assms(4) that] ui_getUserId_returns by blast
  then show ?thesis using r by blast
qed

definition users0 :: user_info where
  "users0 = \<lparr>ui_caseInsensitive = True, ui_stripUserSuffix = True, ui_userSuffixSeparator = ''_'', ui_enableAutoReg = True,
     ui_autoRegMaxPendingUsers = 1, ui_zkUserChainMapDir = ''/chains/'', ui_zkAutoRegWatchDir = ''/reg/'',
     ui_chains = [\<lparr>uc_nameIds = [], uc_lastMaxUserId = 0\<rparr>, \<lparr>uc_nameIds = [(''ann'', 4)], uc_lastMaxUserId = 4\<rparr>],
     ui_autoRegPendingUsers = [], ui_nameChains = []\<rparr>"

definition view2 :: pool_view where
  "view2 = \<lparr>pv_singleUserChain = False, pv_chainNames = [''btc'', ''bch''], pv_autoSwitchChainEnabled = True, pv_currentAutoChainId = 0\<rparr>"

definition zk0 :: zookeeper where
  "zk0 = \<lparr>zk_getValue = (\<lambda>p. if p = ''/chains/ann'' then Some ''auto'' else None), zk_createNode = (\<lambda>_ _. True), zk_watchNode = (\<lambda>_. True)\<rparr>"

theorem user_info_well_formed_witness:
  "\<exists>ui'. run ui_step users0 [TryAutoReg zk0 ''bob'' 1 ''bob.w'', TryAutoReg zk0 ''eve'' 2 ''eve.w'', GetChainId view2 zk0 ''ann''] = Some ui' \<and>
     ui_autoRegPendingUsers ui' = [''bob''] \<and> ui_nameChains ui' = [(''ann'', 0, True)]"
proof -
  have "ui_wf 2 ''/reg/'' users0" "view_ok 2 view2" by (simp_all add: ui_wf_def users0_def uc_wf_def view_ok_def view2_def)
  then have "\<exists>ui'. run ui_step users0 [TryAutoReg zk0 ''bob'' 1 ''bob.w'', TryAutoReg zk0 ''eve'' 2 ''eve.w'', GetChainId view2 zk0 ''ann''] = Some ui' \<and> ui_wf 2 ''/reg/'' ui'"
    using user_info_well_formed [of 2 "''/reg/''" users0 "[TryAutoReg zk0 ''bob'' 1 ''bob.w'', TryAutoReg zk0 ''eve'' 2 ''eve.w'', GetChainId view2 zk0 ''ann'']" view2 zk0]
    by auto
  then show ?thesis
    by (auto simp: users0_def zk0_def view2_def tryAutoReg_def Let_def ui_getChainId_def getChainIdFromZookeeper_def zkGetChainW_def
        AUTO_CHAIN_NAME_def cache_chain_def filterWorkerName_def worker_char_def ord_def)
qed

end
