(* ===== verification/Stratum_Session.thy ===== *)
theory Stratum_Session
  imports Stratum_Dispatcher User_Info "HOL-Library.List_Lexorder" "HOL-Library.Char_ord"
begin

text \<open>
  A session of a Bitcoin miner or agent (\<open>StratumSession.{h,cc}\<close>, \<open>bitcoin/StratumSessionBitcoin.{h,cc}\<close>):
  subscription, authorization with the registration of unknown users, the requests of the stratum
  protocol, the local jobs and their notification, and the switch to another chain. Lines and
  binary messages come from the framing; requests end in the dispatcher. What is sent to the miner
  and to Kafka is recorded in \<open>ss_sent\<close>, the checks that are under way in \<open>ss_pending\<close>. An exception that
  leaves the read callback is \<^term>\<open>None\<close>: it ends the server.
\<close>

section \<open>What a session sees of the server\<close>

record session_env =
  se_pool :: pool_env
  se_chainSize :: nat
  se_view :: pool_view
  se_zk :: zookeeper
  se_Hash :: "string \<Rightarrow> bytes"
  se_singleUserMode :: bool
  se_singleUserName :: string
  se_singleUserId :: "nat \<Rightarrow> int"
  se_date :: string
  se_tcpReadTimeout :: int
  se_grandPoolEnabled :: bool
  se_proxyProtocol :: bool
  se_versionMask :: u32
  se_longTimeout :: "string \<Rightarrow> bool"
  se_devDifficulty :: "string option"
  se_inet_pton4 :: "string \<Rightarrow> u32 option"

section \<open>State\<close>

datatype session_state = CONNECTED | SUBSCRIBED | AUTO_REGISTING | AUTHENTICATED

fun state_rank :: "session_state \<Rightarrow> nat" where
  "state_rank CONNECTED = 0"
| "state_rank SUBSCRIBED = 1"
| "state_rank AUTO_REGISTING = 2"
| "state_rank AUTHENTICATED = 3"

instantiation session_state :: linorder
begin

definition less_eq_session_state :: "session_state \<Rightarrow> session_state \<Rightarrow> bool" where
  "less_eq_session_state a b \<longleftrightarrow> state_rank a \<le> state_rank b"

definition less_session_state :: "session_state \<Rightarrow> session_state \<Rightarrow> bool" where
  "less_session_state a b \<longleftrightarrow> state_rank a < state_rank b"

instance
proof
  fix x y :: session_state
  show "x \<le> y \<Longrightarrow> y \<le> x \<Longrightarrow> x = y" by (cases x; cases y) (simp_all add: less_eq_session_state_def)
qed (auto simp: less_eq_session_state_def less_session_state_def)

end

record authorize_info =
  ai_idStr :: string
  ai_userName :: string
  ai_fullName :: string
  ai_password :: string

datatype session_effect =
    Send string
  | CommonEvent nat string
  | ShareReport nat int u64
  | ShareChecked nat "check_effect list"
  | ShareToKafka nat bytes
  | ReadTimeout int

record session =
  ss_sessionId :: u32
  ss_clientIpInt :: u32
  ss_clientAgent :: string
  ss_isAgentClient :: bool
  ss_isNiceHashClient :: bool
  ss_isGrandPoolClient :: bool
  ss_dispatcher :: dispatcher
  ss_state :: session_state
  ss_worker :: stratum_worker
  ss_isDead :: bool
  ss_isLongTimeout :: bool
  ss_savedAuthorizeInfo :: "authorize_info option"
  ss_proxy :: bool
  ss_localJobs :: "local_job_bitcoin list"
  ss_shortJobIdIdx :: u8
  ss_versionMask :: u32
  ss_suggestedMinDiff :: u64
  ss_suggestedDiff :: u64
  ss_nextAddr :: nat
  ss_nextUid :: nat
  ss_pending :: "(nat \<times> pending) list"
  ss_sent :: "session_effect list"

definition session_new :: "session_env \<Rightarrow> u32 \<Rightarrow> u32 \<Rightarrow> session" where
  "session_new env clientIp sessionId =
     \<lparr>ss_sessionId = sessionId, ss_clientIpInt = clientIp, ss_clientAgent = ''unknown'', ss_isAgentClient = False,
      ss_isNiceHashClient = False, ss_isGrandPoolClient = False, ss_dispatcher = NullDispatcher, ss_state = CONNECTED,
      ss_worker = worker_new (se_chainSize env), ss_isDead = False, ss_isLongTimeout = False, ss_savedAuthorizeInfo = None,
      ss_proxy = se_proxyProtocol env, ss_localJobs = [], ss_shortJobIdIdx = 0, ss_versionMask = 0, ss_suggestedMinDiff = 0,
      ss_suggestedDiff = 0, ss_nextAddr = 0, ss_nextUid = 0, ss_pending = [], ss_sent = [ReadTimeout 15]\<rparr>"

definition emit :: "session_effect list \<Rightarrow> session \<Rightarrow> session" where
  "emit es s = s\<lparr>ss_sent := ss_sent s @ es\<rparr>"

definition clientIp :: "session_env \<Rightarrow> session \<Rightarrow> string" where
  "clientIp env s = ip_toString (pe_inet_ntop6 (se_pool env)) (fromIpv4Int (ss_clientIpInt s))"

definition view_of :: "session \<Rightarrow> session_view" where
  "view_of s = \<lparr>sv_sessionId = ss_sessionId s, sv_worker = ss_worker s, sv_clientIp = ss_clientIpInt s,
     sv_isGrandPoolClient = ss_isGrandPoolClient s\<rparr>"

section \<open>Texts\<close>

definition rpc1ResponseTrue :: "string \<Rightarrow> string" where
  "rpc1ResponseTrue idStr = ''{\"id\":'' @ idStr @ '',\"result\":true,\"error\":null}'' @ [lf]"

definition rpc1ResponseError :: "string \<Rightarrow> int \<Rightarrow> string" where
  "rpc1ResponseError idStr errCode = ''{\"id\":'' @ (if idStr = [] then ''null'' else idStr) @ '',\"result\":null,\"error\":['' @
     i64tostr errCode @ '',\"'' @ status_toString errCode @ ''\",null]}'' @ [lf]"

definition responseTrue :: "string \<Rightarrow> session \<Rightarrow> session" where
  "responseTrue idStr = emit [Send (rpc1ResponseTrue idStr)]"

definition miner_code :: "int \<Rightarrow> int" where
  "miner_code errCode = (if errCode = JOB_NOT_FOUND \<or> errCode = STALE_SHARE then JOB_NOT_FOUND_OR_STALE else errCode)"

definition responseError :: "string \<Rightarrow> int \<Rightarrow> session \<Rightarrow> session" where
  "responseError idStr errCode = emit [Send (rpc1ResponseError idStr (miner_code errCode))]"

definition set_difficulty_text :: "session_env \<Rightarrow> u64 \<Rightarrow> string" where
  "set_difficulty_text env d = ''{\"id\":null,\"method\":\"mining.set_difficulty\",\"params\":['' @
     (case se_devDifficulty env of None \<Rightarrow> to_string (unat d) | Some t \<Rightarrow> t) @ '']}'' @ [lf]"

definition getMinerInfoJson :: "session_env \<Rightarrow> session \<Rightarrow> string \<Rightarrow> int \<Rightarrow> string \<Rightarrow> string \<Rightarrow> string \<Rightarrow> string option" where
  "getMinerInfoJson env s action workerId workerName minerAgent desc = do {
     userId \<leftarrow> worker_userId (ss_worker s) (wk_chainId (ss_worker s));
     Some (''{\"created_at\":\"'' @ se_date env @ ''\",\"type\":\"worker_update\",\"action\":\"'' @ action @
       ''\",\"content\":{\"user_id\":'' @ i64tostr (if se_singleUserMode env then se_singleUserId env (wk_chainId (ss_worker s)) else userId) @
       '',\"user_name\":\"'' @ (if se_singleUserMode env then se_singleUserName env else wk_userName (ss_worker s)) @
       ''\",\"worker_id\":'' @ i64tostr workerId @ '',\"worker_name\":\"'' @ workerName @ ''\",\"miner_agent\":\"'' @ minerAgent @
       ''\",\"ip\":\"'' @ clientIp env s @ ''\",\"session_id\":\"'' @ format_x 8 (unat (ss_sessionId s)) @ ''\",\"desc\":\"'' @ desc @ ''\"'' @
       (if se_singleUserMode env then '',\"ext_user_id\":'' @ i64tostr userId else []) @ ''}}'') }"

definition sendCommonEvent :: "session_env \<Rightarrow> string \<Rightarrow> int \<Rightarrow> string \<Rightarrow> string \<Rightarrow> string \<Rightarrow> session \<Rightarrow> session option" where
  "sendCommonEvent env action workerId workerName minerAgent desc s = do {
     json \<leftarrow> getMinerInfoJson env s action workerId workerName minerAgent desc;
     Some (emit [CommonEvent (wk_chainId (ss_worker s)) json] s) }"

section \<open>Effects of the dispatcher\<close>

definition addWorker :: "session_env \<Rightarrow> string \<Rightarrow> string \<Rightarrow> int \<Rightarrow> session \<Rightarrow> session option" where
  "addWorker env clientAgent workerName workerId s =
     (if ss_state s \<noteq> AUTHENTICATED then Some s
      else sendCommonEvent env ''miner_connect'' workerId workerName clientAgent ''from_btcagent'' s)"

definition removeWorker :: "session_env \<Rightarrow> string \<Rightarrow> string \<Rightarrow> int \<Rightarrow> session \<Rightarrow> session option" where
  "removeWorker env clientAgent workerName workerId s =
     (if ss_state s \<noteq> AUTHENTICATED then Some s
      else sendCommonEvent env ''miner_dead'' workerId workerName clientAgent ''from_btcagent'' s)"

fun perform1 :: "session_env \<Rightarrow> dispatch_effect \<Rightarrow> session \<Rightarrow> session option" where
  "perform1 env (DSend t) s = Some (emit [Send t] s)"
| "perform1 env (DSetDifficulty d) s = Some (emit [Send (set_difficulty_text env d)] s)"
| "perform1 env (DAddWorker a n i) s = addWorker env a n i s"
| "perform1 env (DRemoveWorker a n i) s = removeWorker env a n i s"
| "perform1 env (DResponseTrue i) s = Some (responseTrue i s)"
| "perform1 env (DResponseError i st) s = Some (responseError i st s)"
| "perform1 env (DReport c st d) s = Some (emit [ShareReport c st d] s)"
| "perform1 env (DChecked c ce) s = Some (emit [ShareChecked c ce] s)"
| "perform1 env (DKafkaShare c b) s = Some (emit [ShareToKafka c b] s)"

fun perform :: "session_env \<Rightarrow> dispatch_effect list \<Rightarrow> session \<Rightarrow> session option" where
  "perform env [] s = Some s"
| "perform env (e # es) s = do { s' \<leftarrow> perform1 env e s; perform env es s' }"

section \<open>Local jobs\<close>

definition kMaxNumLocalJobs :: nat where "kMaxNumLocalJobs = 256"
definition kNumLocalJobsToKeep :: nat where "kNumLocalJobsToKeep = 4"

definition allocShortJobId :: "session \<Rightarrow> u8 \<times> session" where
  "allocShortJobId s =
     (let i = (if unat (ss_shortJobIdIdx s) \<ge> kMaxNumLocalJobs then 0 else ss_shortJobIdIdx s)
      in (i, s\<lparr>ss_shortJobIdIdx := i + 1\<rparr>))"

definition addLocalJob :: "session_env \<Rightarrow> nat \<Rightarrow> u64 \<Rightarrow> u8 \<Rightarrow> u32 \<Rightarrow> session \<Rightarrow> session option" where
  "addLocalJob env chainId jobId shortJobId blkBits s = do {
     let job = \<lparr>lj_chainId = chainId, lj_jobId = jobId, lj_submitShares = [], lj_shortJobId = shortJobId, lj_blkBits = blkBits, lj_addr = ss_nextAddr s\<rparr>;
     (dp, eff) \<leftarrow> dp_addLocalJob (se_pool env) (wk_chainId (ss_worker s)) (ss_nextAddr s) (ss_dispatcher s);
     perform env eff (s\<lparr>ss_localJobs := ss_localJobs s @ [job], ss_nextAddr := Suc (ss_nextAddr s), ss_dispatcher := dp\<rparr>) }"

fun clear_jobs :: "nat \<Rightarrow> local_job_bitcoin list \<Rightarrow> dispatcher \<Rightarrow> local_job_bitcoin list \<times> dispatcher" where
  "clear_jobs keep [] dp = ([], dp)"
| "clear_jobs keep (j # js) dp =
     (if length (j # js) > keep then clear_jobs keep js (dp_removeLocalJob (lj_addr j) dp) else (j # js, dp))"

definition clearLocalJobs :: "bool \<Rightarrow> session \<Rightarrow> session" where
  "clearLocalJobs isClean s =
     (case clear_jobs (if isClean then kNumLocalJobsToKeep else kMaxNumLocalJobs) (ss_localJobs s) (ss_dispatcher s) of
        (js, dp) \<Rightarrow> s\<lparr>ss_localJobs := js, ss_dispatcher := dp\<rparr>)"

text \<open>The text of a notification for the job with the given short id.\<close>

definition notify_text :: "session_env \<Rightarrow> sjob_bitcoin job_ex \<Rightarrow> bool \<Rightarrow> u8 \<Rightarrow> session \<Rightarrow> string" where
  "notify_text env exJob isFirstJob shortJobId s =
     (let n = jobex_init (srv_extraNonce2Size (pe_srv (se_pool env) (jx_chainId exJob))) (jx_isClean exJob) (jx_sjob exJob);
          niceHashJobId = (word_of_int (pe_now (se_pool env)) :: u64) * of_nat kMaxNumLocalJobs + ucast shortJobId
      in miningNotify1 n @
         (if ss_isNiceHashClient s then to_string (unat niceHashJobId) else to_string (unat shortJobId)) @
         miningNotify2 n @ (if ss_isGrandPoolClient s then jn_grandCoinbase1 n else jn_coinbase1 n) @
         (if isFirstJob then miningNotify3Clean n else miningNotify3 n))"

definition ss_sendMiningNotify :: "session_env \<Rightarrow> sjob_bitcoin job_ex option \<Rightarrow> bool \<Rightarrow> session \<Rightarrow> session option" where
  "ss_sendMiningNotify env exJobPtr isFirstJob s =
     (case exJobPtr of
        None \<Rightarrow> Some s
      | Some exJob \<Rightarrow>
          if ss_state s < AUTHENTICATED then Some s
          else case allocShortJobId s of (shortJobId, s1) \<Rightarrow> do {
            s2 \<leftarrow> addLocalJob env (jx_chainId exJob) (sj_jobId (jx_sjob exJob)) shortJobId (sb_nBits (jx_sjob exJob)) s1;
            Some (clearLocalJobs (jx_isClean exJob) (emit [Send (notify_text env exJob isFirstJob shortJobId s2)] s2)) })"

section \<open>Miners\<close>

definition createMiner :: "session_env \<Rightarrow> session \<Rightarrow> string \<Rightarrow> string \<Rightarrow> int \<Rightarrow> miner option" where
  "createMiner env s clientAgent workerName workerId = do {
     m \<leftarrow> mi_new (se_pool env) (wk_chainId (ss_worker s)) (map lj_addr (ss_localJobs s)) clientAgent workerName workerId;
     let m = (if ss_suggestedMinDiff s \<noteq> 0 then mi_setMinDiff (ss_suggestedMinDiff s) m else m);
     Some (if ss_suggestedDiff s \<noteq> 0 then mi_resetCurDiff (ss_suggestedDiff s) m else m) }"

definition createDispatcher :: "session_env \<Rightarrow> session \<Rightarrow> dispatcher option" where
  "createDispatcher env s =
     (if ss_isAgentClient s then map_option AgentDispatcher (agent_new (pe_controller (se_pool env)))
      else map_option (MinerDispatcher (ss_nextUid s))
        (createMiner env s (ss_clientAgent s) (wk_workerName (ss_worker s)) (wk_workerHashId (ss_worker s))))"

text \<open>\<open>split(arr, password, is_any_of(","))\<close>: fields between single separators.\<close>

fun split_on :: "char \<Rightarrow> string \<Rightarrow> string list" where
  "split_on c [] = [[]]"
| "split_on c (x # s) = (if x = c then [] # split_on c s
     else case split_on c s of [] \<Rightarrow> [[x]] | f # fs \<Rightarrow> (x # f) # fs)"

fun password_diffs :: "string list \<Rightarrow> u64 \<times> u64 \<Rightarrow> u64 \<times> u64" where
  "password_diffs [] dm = dm"
| "password_diffs (f # fs) (d, md) = password_diffs fs
     (case split_on (CHR ''='') f of
        [k, v] \<Rightarrow> if v = [] then (d, md)
                   else if k = ''d'' then (fst (strtoull10 (c_str v)), md)
                   else if k = ''md'' then (d, fst (strtoull10 (c_str v))) else (d, md)
      | _ \<Rightarrow> (d, md))"

definition setDefaultDifficultyFromPassword :: "string \<Rightarrow> session \<Rightarrow> session option" where
  "setDefaultDifficultyFromPassword password s =
     (case password_diffs (split_on (CHR '','') password) (0, 0) of (d, md) \<Rightarrow> do {
        dp \<leftarrow> (if md > 0 then do { x \<leftarrow> formatDifficulty md; Some (dp_setMinDiff x (ss_dispatcher s)) } else Some (ss_dispatcher s));
        dp' \<leftarrow> (if d > 0 then do { x \<leftarrow> formatDifficulty d; Some (dp_resetCurDiff x dp) } else Some dp);
        Some (s\<lparr>ss_dispatcher := dp'\<rparr>) })"

section \<open>Chains and authorization\<close>

definition ss_switchChain :: "session_env \<Rightarrow> nat \<Rightarrow> user_info \<Rightarrow> session \<Rightarrow> (bool \<times> session) option" where
  "ss_switchChain env chainId ui s = do {
     userId \<leftarrow> ui_getUserId chainId (wk_userName (ss_worker s)) ui;
     if userId \<le> 0 then Some (False, s)
     else do {
       oldId \<leftarrow> worker_userId (ss_worker s) (wk_chainId (ss_worker s));
       let miningOnOldChain = (wk_chainId (ss_worker s) \<noteq> chainId \<and> oldId > 0);
       s1 \<leftarrow> (if miningOnOldChain
              then do {
                t \<leftarrow> sendCommonEvent env ''miner_dead'' (wk_workerHashId (ss_worker s)) (wk_workerName (ss_worker s)) (ss_clientAgent s) ''switch_chain'' s;
                perform env (beforeSwitchChain (ss_dispatcher t)) t }
              else Some s);
       w \<leftarrow> setChainIdAndUserId chainId userId (ss_worker s1);
       s2 \<leftarrow> sendCommonEvent env ''miner_connect'' (wk_workerHashId w) (wk_workerName w) (ss_clientAgent s1)
              (if miningOnOldChain then ''switch_chain'' else ''new_conn'') (s1\<lparr>ss_worker := w\<rparr>);
       s3 \<leftarrow> (if miningOnOldChain then perform env (afterSwitchChain (ss_dispatcher s2)) s2 else Some s2);
       Some (True, s3) } }"

text \<open>The last part of \<open>checkUserAndPwd\<close>, after the user has been found on the chain.\<close>

definition authorize_success :: "session_env \<Rightarrow> string \<Rightarrow> string \<Rightarrow> nat \<Rightarrow> session \<Rightarrow> session option" where
  "authorize_success env idStr password chainId s = do {
     let s1 = (responseTrue idStr s)\<lparr>ss_state := AUTHENTICATED\<rparr>;
     dp \<leftarrow> createDispatcher env s1;
     let s2 = s1\<lparr>ss_dispatcher := dp, ss_nextUid := Suc (ss_nextUid s1)\<rparr>;
     s3 \<leftarrow> (if password \<noteq> [] then setDefaultDifficultyFromPassword password s2 else Some s2);
     let s4 = emit [ReadTimeout (if ss_isLongTimeout s3 then 86400 * 7 else se_tcpReadTimeout env)] s3;
     ss_sendMiningNotify env (getLatestStratumJobEx (pe_repo (se_pool env) chainId)) True s4 }"

definition checkUserAndPwd :: "session_env \<Rightarrow> string \<Rightarrow> string \<Rightarrow> string \<Rightarrow> bool \<Rightarrow> user_info \<times> session \<Rightarrow> (user_info \<times> session) option" where
  "checkUserAndPwd env idStr fullName password isAutoRegCallback us = (case us of (ui, s0) \<Rightarrow>
     if isAutoRegCallback \<and> (ss_isDead s0 \<or> ss_state s0 \<noteq> AUTO_REGISTING) then Some (ui, s0)
     else let s = s0\<lparr>ss_worker := setNames (se_Hash env) fullName (regularUserName ui) (se_singleUserMode env) (se_singleUserName env) False (ss_worker s0)\<rparr>;
              userName = wk_userName (ss_worker s)
          in if userName = [] then Some (ui, responseError idStr INVALID_USERNAME s)
             else case ui_getChainId (se_view env) (se_zk env) userName ui of (found, ui1) \<Rightarrow>
               if found = None \<and> \<not> ui_enableAutoReg ui1 then Some (ui1, responseError idStr INVALID_USERNAME s)
               else do {
                 (switched, s1) \<leftarrow> (case found of None \<Rightarrow> Some (False, s) | Some chainId \<Rightarrow> ss_switchChain env chainId ui1 s);
                 if switched then do { s2 \<leftarrow> authorize_success env idStr password (the found) s1; Some (ui1, s2) }
                 else if \<not> isAutoRegCallback \<and> ui_enableAutoReg ui1
                 then (case tryAutoReg (se_zk env) userName (ss_sessionId s1) (wk_fullName (ss_worker s1)) ui1 of (ok, ui2) \<Rightarrow>
                   if ok then Some (ui2, s1\<lparr>ss_savedAuthorizeInfo := Some \<lparr>ai_idStr = idStr, ai_userName = userName, ai_fullName = fullName, ai_password = password\<rparr>,
                          ss_state := AUTO_REGISTING\<rparr>)
                   else Some (ui2, responseError idStr INVALID_USERNAME (s1\<lparr>ss_savedAuthorizeInfo := None\<rparr>)))
                 else Some (ui1, responseError idStr INVALID_USERNAME s1) })"

definition ss_autoRegCallback :: "session_env \<Rightarrow> string \<Rightarrow> user_info \<times> session \<Rightarrow> (bool \<times> user_info \<times> session) option" where
  "ss_autoRegCallback env userName us = (case ss_savedAuthorizeInfo (snd us) of
     None \<Rightarrow> Some (False, us)
   | Some ai \<Rightarrow>
       if userName = ai_userName ai
       then do {
         (ui, s) \<leftarrow> checkUserAndPwd env (ai_idStr ai) (ai_fullName ai) (ai_password ai) True us;
         Some (True, ui, s\<lparr>ss_savedAuthorizeInfo := None\<rparr>) }
       else Some (False, us))"

definition markAsDead :: "session_env \<Rightarrow> session \<Rightarrow> session option" where
  "markAsDead env s0 = do {
     let s = s0\<lparr>ss_isDead := True\<rparr>;
     userId \<leftarrow> worker_userId (ss_worker s) (wk_chainId (ss_worker s));
     if userId > 0 then sendCommonEvent env ''miner_dead'' (wk_workerHashId (ss_worker s)) (wk_workerName (ss_worker s)) (ss_clientAgent s) ''del_conn'' s
     else Some s }"

section \<open>Requests\<close>

definition BtccomAgentPrefix :: string where "BtccomAgentPrefix = ''btccom-agent/''"
definition PoolWatcherAgent :: string where "PoolWatcherAgent = ''__PoolWatcher__''"
definition PoolGrandPoolWatcher :: string where "PoolGrandPoolWatcher = ''__PoolGrandPoolWatcher__''"

definition setClientAgent :: "session_env \<Rightarrow> string \<Rightarrow> session \<Rightarrow> session" where
  "setClientAgent env clientAgent s =
     (let agent = filterWorkerName clientAgent;
          isAgent = (take (length BtccomAgentPrefix) agent = BtccomAgentPrefix);
          isNiceHash = isNiceHashAgent agent;
          isGrand = (se_grandPoolEnabled env \<and> agent = PoolGrandPoolWatcher)
      in s\<lparr>ss_clientAgent := agent, ss_isNiceHashClient := isNiceHash, ss_isAgentClient := isAgent, ss_isGrandPoolClient := isGrand,
           ss_isLongTimeout := isAgent \<or> isNiceHash \<or> isGrand \<or> agent = PoolWatcherAgent \<or> se_longTimeout env clientAgent\<rparr>)"

definition subscribe_text :: "session_env \<Rightarrow> string \<Rightarrow> session \<Rightarrow> string" where
  "subscribe_text env idStr s =
     (let i = format_x 8 (unat (ss_sessionId s));
          n = (if ss_isGrandPoolClient s then 12 else unat (srv_extraNonce2Size (pe_srv (se_pool env) (wk_chainId (ss_worker s)))))
      in ''{\"id\":'' @ c_str idStr @ '',\"result\":[[[\"mining.set_difficulty\",\"'' @ i @ ''\"],[\"mining.notify\",\"'' @ i @
         ''\"]],\"'' @ i @ ''\",'' @ to_string n @ ''],\"error\":null}'' @ [lf])"

definition handleRequest_Subscribe :: "session_env \<Rightarrow> string \<Rightarrow> Node \<Rightarrow> session \<Rightarrow> session" where
  "handleRequest_Subscribe env idStr jparams s0 =
     (if ss_state s0 \<noteq> CONNECTED then responseError idStr UNKNOWN_STATUS s0
      else let s1 = s0\<lparr>ss_state := SUBSCRIBED\<rparr>;
               s2 = (case nchildren jparams of [] \<Rightarrow> s1 | p # _ \<Rightarrow> setClientAgent env (take 30 (node_str p)) s1)
           in emit [Send (subscribe_text env idStr s2)] s2)"

definition handleRequest_Authorize :: "session_env \<Rightarrow> string \<Rightarrow> Node \<Rightarrow> user_info \<times> session \<Rightarrow> (user_info \<times> session) option" where
  "handleRequest_Authorize env idStr jparams us = (case us of (ui, s) \<Rightarrow>
     if ss_state s \<noteq> SUBSCRIBED then Some (ui, responseError idStr NOT_SUBSCRIBED s)
     else case nchildren jparams of
       [] \<Rightarrow> Some (ui, responseError idStr INVALID_USERNAME s)
     | p # ps \<Rightarrow> checkUserAndPwd env idStr (node_str p) (case ps of [] \<Rightarrow> [] | q # _ \<Rightarrow> node_str q) False us)"

definition handleRequest_SuggestTarget :: "session_env \<Rightarrow> string \<Rightarrow> Node \<Rightarrow> session \<Rightarrow> session option" where
  "handleRequest_SuggestTarget env idStr jparams s =
     (if ss_state s \<noteq> CONNECTED then Some (responseError idStr ILLEGAL_METHOD s)
      else case nchildren jparams of
        [] \<Rightarrow> Some (responseError idStr ILLEGAL_PARARMS s)
      | p # _ \<Rightarrow> do {
          d \<leftarrow> TargetToDiff_str (cs_DiffOneBits (pe_srv (se_pool env) (wk_chainId (ss_worker s)))) (node_str p);
          f \<leftarrow> formatDifficulty d;
          Some (responseTrue idStr (s\<lparr>ss_suggestedDiff := f\<rparr>)) })"

text \<open>The loop over the extensions of \<open>mining.configure\<close>, with the answers in a map.\<close>

fun configure_loop :: "u32 \<Rightarrow> Node \<Rightarrow> Node list \<Rightarrow> (string, string) omap \<Rightarrow> session \<Rightarrow> ((string, string) omap \<times> session) option" where
  "configure_loop allowed options [] results s = Some (results, s)"
| "configure_loop allowed options (ext # exts) results s =
     (if ntype ext \<noteq> JStr then configure_loop allowed options exts results s
      else if node_str ext = ''minimum-difficulty''
      then let diffNode = node_at options ''minimum-difficulty.value''
           in if ntype diffNode \<noteq> JInt then configure_loop allowed options exts (om_update ''minimum-difficulty'' ''false'' results) s
              else do {
                d \<leftarrow> formatDifficulty (node_uint64 diffNode);
                configure_loop allowed options exts (om_update ''minimum-difficulty'' ''true'' results) (s\<lparr>ss_suggestedMinDiff := d\<rparr>) }
      else if node_str ext = ''version-rolling''
      then let maskNode = node_at options ''version-rolling.mask''
           in if ntype maskNode \<noteq> JStr then configure_loop allowed options exts (om_update ''version-rolling'' ''false'' results) s
              else let mask = node_uint32_hex maskNode
                   in configure_loop allowed options exts
                        (om_update ''version-rolling.mask'' (''\"'' @ format_x 8 (unat (mask AND allowed)) @ ''\"'')
                          (om_update ''version-rolling'' ''true'' results)) (s\<lparr>ss_versionMask := mask\<rparr>)
      else configure_loop allowed options exts (om_update (node_str ext) ''false'' results) s)"

definition handleRequest_MiningConfigure :: "session_env \<Rightarrow> string \<Rightarrow> Node \<Rightarrow> session \<Rightarrow> session option" where
  "handleRequest_MiningConfigure env idStr jparams s =
     (case nchildren jparams of
        p # q # _ \<Rightarrow>
          if ntype p \<noteq> JArray \<or> ntype q \<noteq> JObj then Some (responseError idStr ILLEGAL_PARARMS s)
          else do {
            (results, s1) \<leftarrow> configure_loop (se_versionMask env) q (nchildren p) [] s;
            let s2 = emit [Send (''{\"id\":'' @ idStr @ '',\"result\":{'' @
                commas (map (\<lambda>(k, v). ''\"'' @ k @ ''\":'' @ v) results) @ ''},\"error\":null}'' @ [lf])] s1;
            Some (if ss_versionMask s2 \<noteq> 0
              then emit [Send (''{\"id\":null,\"method\":\"mining.set_version_mask\",\"params\":[\"'' @
                format_x 8 (unat (ss_versionMask s2 AND se_versionMask env)) @ ''\"]}'' @ [lf])] s2 else s2) }
      | _ \<Rightarrow> Some (responseError idStr ILLEGAL_PARARMS s))"

definition handleRequest_AgentGetCapabilities :: "string \<Rightarrow> Node \<Rightarrow> session \<Rightarrow> session option" where
  "handleRequest_AgentGetCapabilities idStr jparams s0 =
     (let s = emit [Send (''{\"id\":'' @ idStr @ '',\"result\":{\"capabilities\":[\"verrol\",\"subres\"]}}'' @ [lf])] s0
      in if ntype jparams = JArray \<and> nsize jparams \<ge> 1
         then do {
           p \<leftarrow> child_at jparams 0;
           Some (if ntype p = JArray \<and> (\<exists>c\<in>set (nchildren p). ntype c = JStr \<and> node_str c = ''subres'')
             then s\<lparr>ss_dispatcher := dp_setSubmitResponse True (ss_dispatcher s)\<rparr> else s) }
         else Some s)"

text \<open>\<open>mining.submit\<close> of a single miner.\<close>

definition add_pending :: "(nat \<times> pending) option \<Rightarrow> session \<Rightarrow> session" where
  "add_pending p s = (case p of None \<Rightarrow> s | Some q \<Rightarrow> s\<lparr>ss_pending := ss_pending s @ [q]\<rparr>)"

definition handleRequest_Submit :: "session_env \<Rightarrow> string \<Rightarrow> Node \<Rightarrow> nat \<Rightarrow> miner \<Rightarrow> session \<Rightarrow> session option" where
  "handleRequest_Submit env idStr jparams u m s =
     (if ss_state s \<noteq> AUTHENTICATED
      then Some (emit [Send (''{\"id\":null,\"method\":\"client.reconnect\",\"params\":[]}'' @ [lf])] (responseError idStr UNAUTHORIZED s))
      else do {
        r \<leftarrow> json_submit (mi_isNiceHashClient m) (ss_isGrandPoolClient s) idStr jparams;
        case r of
          Inl code \<Rightarrow> Some (responseError idStr code s)
        | Inr su \<Rightarrow> do {
            (jobs, m', eff, p) \<leftarrow> mi_submit (se_pool env) (view_of s) su (ss_localJobs s) m;
            s' \<leftarrow> perform env (concat (map (dispatch_answer (MinerDispatcher u m')) eff))
              (s\<lparr>ss_localJobs := jobs, ss_dispatcher := MinerDispatcher u m'\<rparr>);
            Some (add_pending (map_option (Pair u) p) s') } })"

definition handleRequest :: "session_env \<Rightarrow> string \<Rightarrow> string \<Rightarrow> Node \<Rightarrow> user_info \<times> session \<Rightarrow> (user_info \<times> session) option" where
  "handleRequest env idStr meth jparams us = (case us of (ui, s) \<Rightarrow>
     if meth = ''mining.subscribe'' then Some (ui, handleRequest_Subscribe env idStr jparams s)
     else if meth = ''mining.authorize'' then handleRequest_Authorize env idStr jparams us
     else if meth = ''mining.configure'' then map_option (Pair ui) (handleRequest_MiningConfigure env idStr jparams s)
     else if meth = ''agent.get_capabilities'' then map_option (Pair ui) (handleRequest_AgentGetCapabilities idStr jparams s)
     else if meth = ''mining.suggest_target'' then map_option (Pair ui) (handleRequest_SuggestTarget env idStr jparams s)
     else case ss_dispatcher s of
       MinerDispatcher u m \<Rightarrow>
         if meth = ''mining.submit'' then map_option (Pair ui) (handleRequest_Submit env idStr jparams u m s) else Some us
     | _ \<Rightarrow> Some us)"

section \<open>Messages\<close>

text \<open>\<open>split\<close> at white space with adjacent separators merged; the PROXY line of a load balancer.\<close>

function split_ws :: "string \<Rightarrow> string list" where
  "split_ws s = takeWhile (\<lambda>c. \<not> isspace c) s #
     (if dropWhile (\<lambda>c. \<not> isspace c) s = [] then [] else split_ws (dropWhile isspace (dropWhile (\<lambda>c. \<not> isspace c) s)))"
  by pat_completeness auto
termination
proof (relation "measure length")
  fix s :: string
  assume ne: "dropWhile (\<lambda>c. \<not> isspace c) s \<noteq> []"
  have "length (dropWhile isspace t) < length t" if "t \<noteq> []" "isspace (hd t)" for t
    using that length_dropWhile_le [of isspace "tl t"] by (cases t) (auto simp: le_imp_less_Suc)
  then have "length (dropWhile isspace (dropWhile (\<lambda>c. \<not> isspace c) s)) < length (dropWhile (\<lambda>c. \<not> isspace c) s)"
    using ne hd_dropWhile [OF ne] by blast
  also have "\<dots> \<le> length s" by (rule length_dropWhile_le)
  finally show "(dropWhile isspace (dropWhile (\<lambda>c. \<not> isspace c) s), s) \<in> measure length" by simp
qed simp

declare split_ws.simps [simp del]

definition proxy_check :: "session_env \<Rightarrow> string \<Rightarrow> session \<Rightarrow> bool \<times> session" where
  "proxy_check env line s =
     (if \<not> ss_proxy s then (False, s)
      else case split_ws line of
        t # ts \<Rightarrow>
          if t \<noteq> ''PROXY'' then (False, s)
          else (True, case ts of
            p # a # _ \<Rightarrow> if p = ''TCP4'' then (case se_inet_pton4 env (c_str a) of Some ip \<Rightarrow> s\<lparr>ss_clientIpInt := ip\<rparr> | None \<Rightarrow> s) else s
          | _ \<Rightarrow> s)
      | [] \<Rightarrow> (False, s))"

definition validate :: "Node \<Rightarrow> Node \<Rightarrow> bool" where
  "validate jmethod jparams \<longleftrightarrow> ntype jmethod = JStr \<and> nsize jmethod \<noteq> 0 \<and> ntype jparams = JArray"

definition id_text :: "Node \<Rightarrow> string" where
  "id_text jid = (if ntype jid = JInt then node_str jid else if ntype jid = JStr then ''\"'' @ node_str jid @ ''\"'' else ''null'')"

definition handleLine :: "session_env \<Rightarrow> string \<Rightarrow> user_info \<times> session \<Rightarrow> (user_info \<times> session) option" where
  "handleLine env line us = (case us of (ui, s) \<Rightarrow>
     case (if ss_state s = CONNECTED then proxy_check env line s else (False, s)) of
       (True, s') \<Rightarrow> Some (ui, s'\<lparr>ss_proxy := False\<rparr>)
     | (False, _) \<Rightarrow>
         (case node_parse line of
            None \<Rightarrow> Some us
          | Some jnode \<Rightarrow>
              let idStr = id_text (node_at jnode ''id''); jmethod = node_at jnode ''method''; jparams = node_at jnode ''params''
              in if validate jmethod jparams then handleRequest env idStr (node_str jmethod) jparams us
                 else Some (ui, responseError idStr ILLEGAL_PARARMS s)))"

definition handleExMessage :: "session_env \<Rightarrow> string \<Rightarrow> session \<Rightarrow> session option" where
  "handleExMessage env exMessage s = (case ss_dispatcher s of
     AgentDispatcher ag \<Rightarrow> do {
       (jobs, ag', eff, p) \<leftarrow> agent_handleExMessage (se_pool env) (view_of s) (se_Hash env) (createMiner env s) (ss_nextUid s)
         (ss_localJobs s) exMessage ag;
       s' \<leftarrow> perform env eff (s\<lparr>ss_localJobs := jobs, ss_dispatcher := AgentDispatcher ag', ss_nextUid := Suc (ss_nextUid s)\<rparr>);
       Some (add_pending p s') }
   | _ \<Rightarrow> Some s)"

fun ss_handle :: "session_env \<Rightarrow> user_info \<times> session \<Rightarrow> message \<Rightarrow> (user_info \<times> session) option" where
  "ss_handle env us (Line l) = handleLine env l us"
| "ss_handle env us (ExMessage x) = map_option (Pair (fst us)) (handleExMessage env x (snd us))"

section \<open>Results of checks\<close>

fun dp_find :: "nat \<Rightarrow> dispatcher \<Rightarrow> miner option" where
  "dp_find u dp = map_of (dp_miners dp) u"

fun dp_put :: "nat \<Rightarrow> miner \<Rightarrow> dispatcher \<Rightarrow> dispatcher" where
  "dp_put u m NullDispatcher = NullDispatcher"
| "dp_put u m (MinerDispatcher v m0) = (if u = v then MinerDispatcher v m else MinerDispatcher v m0)"
| "dp_put u m (AgentDispatcher ag) = AgentDispatcher (ag\<lparr>ag_miners := map (\<lambda>(i, v, m0). (i, v, if u = v then m else m0)) (ag_miners ag)\<rparr>)"

text \<open>The callback of a check: the miner answers if it still exists, a share of a miner that is gone is only written to Kafka.\<close>

definition check_done :: "session_env \<Rightarrow> nat \<Rightarrow> session \<Rightarrow> session option" where
  "check_done env k s =
     (if k \<ge> length (ss_pending s) then Some s
      else case ss_pending s ! k of (u, q) \<Rightarrow>
        let s1 = s\<lparr>ss_pending := take k (ss_pending s) @ drop (Suc k) (ss_pending s)\<rparr>
        in case dp_find u (ss_dispatcher s) of
             Some m \<Rightarrow> do {
               (eff, m') \<leftarrow> mi_checked (se_pool env) q m;
               let dp = dp_put u m' (ss_dispatcher s1);
               perform env (concat (map (dispatch_answer dp) eff)) (s1\<lparr>ss_dispatcher := dp\<rparr>) }
           | None \<Rightarrow> perform env (concat (map (dispatch_answer (ss_dispatcher s1)) (mi_checked_gone (se_pool env) q))) s1)"

datatype session_event =
    Received string
  | CheckDone nat
  | NewJob "sjob_bitcoin job_ex"
  | SwitchTo nat
  | AutoReg string
  | Disconnected

fun ss_step :: "string \<times> user_info \<times> session \<Rightarrow> session_env \<times> session_event \<Rightarrow> (string \<times> user_info \<times> session) option" where
  "ss_step st (env, Received bytes) = readBuf (ss_handle env) bytes st"
| "ss_step (buf, ui, s) (env, CheckDone k) = map_option (\<lambda>s'. (buf, ui, s')) (check_done env k s)"
| "ss_step (buf, ui, s) (env, NewJob x) = map_option (\<lambda>s'. (buf, ui, s')) (ss_sendMiningNotify env (Some x) False s)"
| "ss_step (buf, ui, s) (env, SwitchTo c) = map_option (\<lambda>(_, s'). (buf, ui, s')) (ss_switchChain env c ui s)"
| "ss_step (buf, us) (env, AutoReg n) = map_option (\<lambda>(_, us'). (buf, us')) (ss_autoRegCallback env n us)"
| "ss_step (buf, ui, s) (env, Disconnected) = map_option (\<lambda>s'. (buf, ui, s')) (markAsDead env s)"

end
