(* ===== verification/Session_Safety.thy ===== *)
theory Session_Safety
  imports Stratum_Session
begin

text \<open>
  The invariant of a session and what follows from it: its local jobs have different short ids and
  addresses, every miner behind its dispatcher has a difficulty for each of them, and every event,
  from a line of text to the result of a check, is handled, except for two requests that
  end the server with an exception.
\<close>

section \<open>Invariant\<close>

definition job_addrs :: "session \<Rightarrow> nat set" where
  "job_addrs s = lj_addr ` set (ss_localJobs s)"

text \<open>The short ids of the local jobs are consecutive and end before the next one.\<close>

definition short_ids_ok :: "session \<Rightarrow> bool" where
  "short_ids_ok s \<longleftrightarrow> (\<forall>i<length (ss_localJobs s).
     lj_shortJobId (ss_localJobs s ! i) = ss_shortJobIdIdx s - of_nat (length (ss_localJobs s) - i))"

definition jobs_inv :: "nat \<Rightarrow> nat \<Rightarrow> session \<Rightarrow> bool" where
  "jobs_inv n k s \<longleftrightarrow> distinct (map lj_addr (ss_localJobs s)) \<and> (\<forall>j\<in>set (ss_localJobs s). lj_addr j < ss_nextAddr s \<and> lj_chainId j < k) \<and>
     length (ss_localJobs s) \<le> n \<and> short_ids_ok s"

definition worker_ok :: "nat \<Rightarrow> session \<Rightarrow> bool" where
  "worker_ok k s \<longleftrightarrow> length (wk_userIds (ss_worker s)) = k \<and> wk_chainId (ss_worker s) < k"

definition ss_ok :: "nat \<Rightarrow> nat \<Rightarrow> int \<Rightarrow> session \<Rightarrow> bool" where
  "ss_ok n k w s \<longleftrightarrow> worker_ok k s \<and> jobs_inv n k s \<and> dp_inv w (job_addrs s) (ss_nextUid s) (ss_dispatcher s) \<and>
     (ss_state s \<noteq> AUTHENTICATED \<longrightarrow> ss_dispatcher s = NullDispatcher \<and> ss_localJobs s = []) \<and>
     (\<forall>(u, q) \<in> set (ss_pending s). pend_ok (Some q))"

abbreviation ss_inv :: "nat \<Rightarrow> int \<Rightarrow> session \<Rightarrow> bool" where
  "ss_inv \<equiv> ss_ok kMaxNumLocalJobs"

definition se_ok :: "nat \<Rightarrow> int \<Rightarrow> session_env \<Rightarrow> bool" where
  "se_ok k w env \<longleftrightarrow> env_ok w (se_pool env) \<and> check_env_ok (se_pool env) \<and> se_chainSize env = k \<and> view_ok k (se_view env) \<and>
     (\<forall>c x. getLatestStratumJobEx (pe_repo (se_pool env) c) = Some x \<longrightarrow> jx_chainId x < k)"

lemma emit_simps [simp]:
  "ss_ok n k w (emit es s) \<longleftrightarrow> ss_ok n k w s" "worker_ok k (emit es s) \<longleftrightarrow> worker_ok k s" "ss_state (emit es s) = ss_state s"
  "ss_dispatcher (emit es s) = ss_dispatcher s" "ss_worker (emit es s) = ss_worker s" "ss_localJobs (emit es s) = ss_localJobs s"
  "ss_savedAuthorizeInfo (emit es s) = ss_savedAuthorizeInfo s" "ss_pending (emit es s) = ss_pending s" "ss_nextUid (emit es s) = ss_nextUid s"
  "ss_nextAddr (emit es s) = ss_nextAddr s" "ss_isDead (emit es s) = ss_isDead s" "ss_shortJobIdIdx (emit es s) = ss_shortJobIdIdx s"
  by (simp_all add: emit_def ss_ok_def worker_ok_def jobs_inv_def job_addrs_def short_ids_ok_def)

lemma response_simps [simp]:
  "ss_ok n k w (responseTrue i s) \<longleftrightarrow> ss_ok n k w s" "ss_ok n k w (responseError i c s) \<longleftrightarrow> ss_ok n k w s"
  "ss_localJobs (responseError i c s) = ss_localJobs s" "ss_localJobs (responseTrue i s) = ss_localJobs s"
  by (simp_all add: responseTrue_def responseError_def)

lemma sendCommonEvent_ok: "worker_ok k s \<Longrightarrow> \<exists>es. sendCommonEvent env a i n m d s = Some (emit es s)"
  by (auto simp: sendCommonEvent_def getMinerInfoJson_def worker_userId_def worker_ok_def)

lemma perform1_ok: "worker_ok k s \<Longrightarrow> \<exists>es. perform1 env e s = Some (emit es s)"
proof (cases e)
  case (DAddWorker a n i)
  assume "worker_ok k s"
  then show ?thesis using sendCommonEvent_ok emit_def [of "[]" s] by (auto simp: DAddWorker addWorker_def intro!: exI [of _ "[]"])
next
  case (DRemoveWorker a n i)
  assume "worker_ok k s"
  then show ?thesis using sendCommonEvent_ok emit_def [of "[]" s] by (auto simp: DRemoveWorker removeWorker_def intro!: exI [of _ "[]"])
qed (auto simp: responseTrue_def responseError_def)

lemma emit_emit [simp]: "emit es (emit es' s) = emit (es' @ es) s" "emit [] s = s"
  by (simp_all add: emit_def)

lemma perform_ok: "worker_ok k s \<Longrightarrow> \<exists>es. perform env effs s = Some (emit es s)"
proof (induction effs arbitrary: s)
  case Nil
  then show ?case by (auto intro!: exI [of _ "[]"])
next
  case (Cons e effs)
  obtain es where e: "perform1 env e s = Some (emit es s)" using perform1_ok [OF Cons.prems] by blast
  then show ?case using Cons.IH [of "emit es s"] Cons.prems by auto
qed

lemma clear_jobs_eq:
  "clear_jobs keep js dp = (drop (length js - keep) js, fold dp_removeLocalJob (map lj_addr (take (length js - keep) js)) dp)"
proof (induction js arbitrary: dp)
  case (Cons j js)
  show ?case
  proof (cases "length (j # js) > keep")
    case True
    then have "length (j # js) - keep = Suc (length js - keep)" by simp
    then show ?thesis using Cons True by simp
  qed simp
qed simp

lemma fold_remove_inv: "dp_inv w A u dp \<Longrightarrow> dp_inv w (A - set as) u (fold dp_removeLocalJob as dp)"
proof (induction as arbitrary: A dp)
  case (Cons a as)
  have "A - set (a # as) = (A - {a}) - set as" by auto
  then show ?case using Cons.IH [OF dp_removeLocalJob_inv [OF Cons.prems]] by simp
qed simp

lemma set_drop_diff:
  assumes "distinct xs"
  shows "set xs - set (take d xs) = set (drop d xs)"
proof -
  have "set xs = set (take d xs) \<union> set (drop d xs)" by (metis append_take_drop_id set_append)
  then show ?thesis using set_take_disj_set_drop_if_distinct [OF assms, of d d] by auto
qed

lemma clearLocalJobs_ok:
  assumes "ss_ok n k w s" "ss_state s = AUTHENTICATED"
  shows "ss_inv k w (clearLocalJobs isClean s)"
proof -
  define keep where "keep = (if isClean then kNumLocalJobsToKeep else kMaxNumLocalJobs)"
  define d where "d = length (ss_localJobs s) - keep"
  have eq: "clearLocalJobs isClean s = s\<lparr>ss_localJobs := drop d (ss_localJobs s),
      ss_dispatcher := fold dp_removeLocalJob (map lj_addr (take d (ss_localJobs s))) (ss_dispatcher s)\<rparr>"
    by (simp add: clearLocalJobs_def clear_jobs_eq d_def keep_def)
  have j: "distinct (map lj_addr (ss_localJobs s))" "short_ids_ok s" and dp: "dp_inv w (job_addrs s) (ss_nextUid s) (ss_dispatcher s)"
    using assms(1) by (auto simp: ss_ok_def jobs_inv_def)
  have "keep \<le> kMaxNumLocalJobs" by (simp add: keep_def kMaxNumLocalJobs_def kNumLocalJobsToKeep_def)
  then have "length (ss_localJobs s) - d \<le> kMaxNumLocalJobs" unfolding d_def by linarith
  moreover have "set (map lj_addr (ss_localJobs s)) - set (map lj_addr (take d (ss_localJobs s))) = set (map lj_addr (drop d (ss_localJobs s)))"
    using set_drop_diff [OF j(1), of d] by (simp add: take_map drop_map)
  then have "dp_inv w (lj_addr ` set (drop d (ss_localJobs s))) (ss_nextUid s)
      (fold dp_removeLocalJob (map lj_addr (take d (ss_localJobs s))) (ss_dispatcher s))"
    using fold_remove_inv [OF dp, of "map lj_addr (take d (ss_localJobs s))"] by (simp add: job_addrs_def)
  moreover have "lj_shortJobId (drop d (ss_localJobs s) ! i) = ss_shortJobIdIdx s - of_nat (length (ss_localJobs s) - d - i)"
    if "i < length (ss_localJobs s) - d" for i
  proof -
    have "lj_shortJobId (ss_localJobs s ! (d + i)) = ss_shortJobIdIdx s - of_nat (length (ss_localJobs s) - (d + i))"
      using j(2) that unfolding short_ids_ok_def by auto
    then show ?thesis using that by (simp add: nth_drop diff_diff_left)
  qed
  moreover have "distinct (map lj_addr (drop d (ss_localJobs s)))" using j(1) by (simp add: drop_map [symmetric])
  ultimately show ?thesis using assms
    by (auto simp: ss_ok_def jobs_inv_def eq worker_ok_def short_ids_ok_def job_addrs_def dest: in_set_dropD)
qed

lemma addLocalJob_ok:
  assumes inv: "ss_ok n k w s" and st: "ss_state s = AUTHENTICATED" and env: "se_ok k w env" and c: "c < k"
    and al: "allocShortJobId s = (i, s1)"
  shows "\<exists>s2. addLocalJob env c jid i bits s1 = Some s2 \<and> ss_ok (Suc n) k w s2 \<and> ss_state s2 = AUTHENTICATED"
proof -
  have "unat (ss_shortJobIdIdx s) < 2 ^ 8" by (rule order_less_le_trans [OF unsigned_less]) simp
  then have i: "i = ss_shortJobIdIdx s" "s1 = s\<lparr>ss_shortJobIdIdx := ss_shortJobIdIdx s + 1\<rparr>"
    using al by (auto simp: allocShortJobId_def Let_def kMaxNumLocalJobs_def split: if_splits)
  let ?job = "\<lparr>lj_chainId = c, lj_jobId = jid, lj_submitShares = [], lj_shortJobId = i, lj_blkBits = bits, lj_addr = ss_nextAddr s\<rparr>"
  have dp: "dp_inv w (job_addrs s) (ss_nextUid s) (ss_dispatcher s)" and e: "env_ok w (se_pool env)"
    using inv env by (auto simp: ss_ok_def se_ok_def)
  obtain dp' eff where d: "dp_addLocalJob (se_pool env) (wk_chainId (ss_worker s)) (ss_nextAddr s) (ss_dispatcher s) = Some (dp', eff)"
    "dp_inv w (insert (ss_nextAddr s) (job_addrs s)) (ss_nextUid s) dp'" using dp_addLocalJob_inv [OF dp e] by blast
  let ?s = "s\<lparr>ss_shortJobIdIdx := ss_shortJobIdIdx s + 1, ss_localJobs := ss_localJobs s @ [?job], ss_nextAddr := Suc (ss_nextAddr s), ss_dispatcher := dp'\<rparr>"
  have w: "worker_ok k ?s" using inv by (simp add: ss_ok_def worker_ok_def)
  then obtain es where p: "perform env eff ?s = Some (emit es ?s)" using perform_ok by blast
  have "short_ids_ok ?s"
  proof -
    have o: "lj_shortJobId (ss_localJobs s ! j) = ss_shortJobIdIdx s - of_nat (length (ss_localJobs s) - j)" if "j < length (ss_localJobs s)" for j
      using inv that unfolding ss_ok_def jobs_inv_def short_ids_ok_def by blast
    have "lj_shortJobId (ss_localJobs ?s ! j) = ss_shortJobIdIdx ?s - of_nat (length (ss_localJobs ?s) - j)" if "j < length (ss_localJobs ?s)" for j
    proof (cases "j < length (ss_localJobs s)")
      case True
      then have "Suc (length (ss_localJobs s)) - j = Suc (length (ss_localJobs s) - j)" by simp
      then show ?thesis using o [OF True] True by (simp add: nth_append)
    next
      case False
      then have "j = length (ss_localJobs s)" using that by simp
      then show ?thesis by (simp add: i(1))
    qed
    then show ?thesis unfolding short_ids_ok_def by blast
  qed
  moreover have "distinct (map lj_addr (ss_localJobs ?s))" using inv by (auto simp: ss_ok_def jobs_inv_def)
  moreover have "\<forall>j\<in>set (ss_localJobs ?s). lj_addr j < ss_nextAddr ?s \<and> lj_chainId j < k"
    using inv c by (auto simp: ss_ok_def jobs_inv_def less_Suc_eq)
  moreover have "length (ss_localJobs ?s) \<le> Suc n" using inv by (simp add: ss_ok_def jobs_inv_def)
  ultimately have "ss_ok (Suc n) k w ?s" using inv d(2) w st by (simp add: ss_ok_def jobs_inv_def job_addrs_def)
  then show ?thesis using d(1) p st by (simp add: addLocalJob_def i Let_def)
qed

lemma ss_sendMiningNotify_ok:
  assumes inv: "ss_inv k w s" and env: "se_ok k w env" and x: "\<forall>y. x = Some y \<longrightarrow> jx_chainId y < k"
  shows "\<exists>s'. ss_sendMiningNotify env x first s = Some s' \<and> ss_inv k w s'"
proof (cases "x = None \<or> ss_state s < AUTHENTICATED")
  case True
  then show ?thesis using inv by (auto simp: ss_sendMiningNotify_def split: option.split)
next
  case False
  then obtain y where y: "x = Some y" "jx_chainId y < k" using x by auto
  have st: "ss_state s = AUTHENTICATED" using False by (cases "ss_state s") (auto simp: less_session_state_def)
  obtain i s1 where al: "allocShortJobId s = (i, s1)" by fastforce
  obtain s2 where s2: "addLocalJob env (jx_chainId y) (sj_jobId (jx_sjob y)) i (sb_nBits (jx_sjob y)) s1 = Some s2"
    "ss_ok (Suc kMaxNumLocalJobs) k w s2" "ss_state s2 = AUTHENTICATED" using addLocalJob_ok [OF inv st env y(2) al] by blast
  then show ?thesis using False y al clearLocalJobs_ok [of "Suc kMaxNumLocalJobs" k w "emit [Send (notify_text env y first i s2)] s2"]
    by (simp add: ss_sendMiningNotify_def)
qed

lemma createMiner_ok:
  assumes "se_ok k w env"
  shows "\<exists>m. createMiner env s a n i = Some m \<and> miner_ok w (job_addrs s) m"
proof -
  have "env_ok w (se_pool env)" using assms by (simp add: se_ok_def)
  then obtain m where m: "mi_new (se_pool env) (wk_chainId (ss_worker s)) (map lj_addr (ss_localJobs s)) a n i = Some m" "miner_ok w (job_addrs s) m"
    using mi_new_ok [of w "se_pool env" "wk_chainId (ss_worker s)" "map lj_addr (ss_localJobs s)" a n i] by (auto simp: miner_ok_def job_addrs_def)
  then show ?thesis by (simp add: createMiner_def)
qed

lemma createDispatcher_ok:
  assumes "se_ok k w env"
  shows "\<exists>dp. createDispatcher env s = Some dp \<and> dp_inv w (job_addrs s) (Suc (ss_nextUid s)) dp"
proof (cases "ss_isAgentClient s")
  case True
  have "env_ok w (se_pool env)" using assms by (simp add: se_ok_def)
  from agent_new_inv [OF this, of "job_addrs s" "Suc (ss_nextUid s)"] show ?thesis using True by (auto simp: createDispatcher_def)
next
  case False
  then show ?thesis
    using createMiner_ok [OF assms, of s "ss_clientAgent s" "wk_workerName (ss_worker s)" "wk_workerHashId (ss_worker s)"]
    by (auto simp: createDispatcher_def dp_inv_Miner)
qed

lemma formatDifficulty_returns: "\<exists>e. formatDifficulty d = Some e"
  using formatDifficulty_ok [of d] by auto

lemma ss_ok_dispatcher:
  "ss_ok n k w s \<Longrightarrow> ss_state s = AUTHENTICATED \<Longrightarrow> dp_inv w (job_addrs s) (ss_nextUid s) dp \<Longrightarrow> ss_ok n k w (s\<lparr>ss_dispatcher := dp\<rparr>)"
  by (simp add: ss_ok_def worker_ok_def jobs_inv_def short_ids_ok_def job_addrs_def)

lemma setDefaultDifficultyFromPassword_ok:
  assumes "ss_ok n k w s" "ss_state s = AUTHENTICATED"
  shows "\<exists>s'. setDefaultDifficultyFromPassword pw s = Some s' \<and> ss_ok n k w s' \<and> ss_state s' = AUTHENTICATED"
proof -
  obtain d md where p: "password_diffs (split_on (CHR '','') pw) (0, 0) = (d, md)" by fastforce
  obtain e f where ef: "formatDifficulty md = Some e" "formatDifficulty d = Some f" using formatDifficulty_returns by blast
  have i: "dp_inv w (job_addrs s) (ss_nextUid s) (ss_dispatcher s)" using assms(1) by (simp add: ss_ok_def)
  define dp where "dp = (if md > 0 then dp_setMinDiff e (ss_dispatcher s) else ss_dispatcher s)"
  define dp' where "dp' = (if d > 0 then dp_resetCurDiff f dp else dp)"
  have "dp_inv w (job_addrs s) (ss_nextUid s) dp'" using i by (auto simp: dp_def dp'_def dp_setMinDiff_inv dp_resetCurDiff_inv)
  then have "ss_ok n k w (s\<lparr>ss_dispatcher := dp'\<rparr>)" by (rule ss_ok_dispatcher [OF assms])
  moreover have "setDefaultDifficultyFromPassword pw s = Some (s\<lparr>ss_dispatcher := dp'\<rparr>)"
    by (simp add: setDefaultDifficultyFromPassword_def p ef dp_def dp'_def)
  ultimately show ?thesis using assms(2) by simp
qed

lemma setChain_ok:
  "worker_ok k s \<Longrightarrow> c < k \<Longrightarrow> \<exists>v. setChainIdAndUserId c u (ss_worker s) = Some v \<and> length (wk_userIds v) = k \<and> wk_chainId v = c"
  by (simp add: setChainIdAndUserId_def worker_ok_def)

lemma ss_switchChain_ok:
  assumes inv: "ss_ok n k w s" and ui: "ui_wf k dir ui" and c: "c < k"
  shows "\<exists>b s'. ss_switchChain env c ui s = Some (b, s') \<and> ss_ok n k w s' \<and> ss_state s' = ss_state s \<and> ss_localJobs s' = ss_localJobs s \<and>
    ss_savedAuthorizeInfo s' = ss_savedAuthorizeInfo s \<and> ss_isDead s' = ss_isDead s"
proof -
  have wk: "worker_ok k s" using inv by (simp add: ss_ok_def)
  obtain userId where u: "ui_getUserId c (wk_userName (ss_worker s)) ui = Some userId" using ui_getUserId_returns [OF ui c] by blast
  obtain oldId where o: "worker_userId (ss_worker s) (wk_chainId (ss_worker s)) = Some oldId" using wk by (simp add: worker_userId_def worker_ok_def)
  show ?thesis
  proof (cases "userId \<le> 0")
    case True
    then show ?thesis using inv by (auto simp: ss_switchChain_def u)
  next
    case False
    define old where "old \<longleftrightarrow> wk_chainId (ss_worker s) \<noteq> c \<and> oldId > 0"
    obtain es where es: "sendCommonEvent env ''miner_dead'' (wk_workerHashId (ss_worker s)) (wk_workerName (ss_worker s)) (ss_clientAgent s) ''switch_chain'' s = Some (emit es s)"
      using sendCommonEvent_ok [OF wk] by blast
    obtain fs where fs: "perform env (beforeSwitchChain (ss_dispatcher s)) (emit es s) = Some (emit fs s)"
      using perform_ok [of k "emit es s"] wk by (metis emit_simps(2) emit_emit(1))
    define s1 where "s1 = (if old then emit fs s else s)"
    have wk1: "worker_ok k s1" using wk by (simp add: s1_def)
    obtain v where v: "setChainIdAndUserId c userId (ss_worker s1) = Some v" "length (wk_userIds v) = k" "wk_chainId v = c" using setChain_ok [OF wk1 c] by blast
    have wk2: "worker_ok k (s1\<lparr>ss_worker := v\<rparr>)" using v(2,3) c by (simp add: worker_ok_def)
    then obtain gs where gs: "sendCommonEvent env ''miner_connect'' (wk_workerHashId v) (wk_workerName v) (ss_clientAgent s1)
        (if old then ''switch_chain'' else ''new_conn'') (s1\<lparr>ss_worker := v\<rparr>) = Some (emit gs (s1\<lparr>ss_worker := v\<rparr>))"
      using sendCommonEvent_ok by blast
    obtain hs where hs: "(if old then perform env (afterSwitchChain (ss_dispatcher (emit gs (s1\<lparr>ss_worker := v\<rparr>)))) (emit gs (s1\<lparr>ss_worker := v\<rparr>))
        else Some (emit gs (s1\<lparr>ss_worker := v\<rparr>))) = Some (emit hs (s1\<lparr>ss_worker := v\<rparr>))"
      using perform_ok [of k "emit gs (s1\<lparr>ss_worker := v\<rparr>)"] wk2 by (metis emit_simps(2) emit_emit(1))
    have first: "(if old then do { t \<leftarrow> sendCommonEvent env ''miner_dead'' (wk_workerHashId (ss_worker s)) (wk_workerName (ss_worker s)) (ss_clientAgent s) ''switch_chain'' s;
        perform env (beforeSwitchChain (ss_dispatcher t)) t } else Some s) = Some s1"
      using es fs by (simp add: s1_def)
    have "ss_switchChain env c ui s = Some (True, emit hs (s1\<lparr>ss_worker := v\<rparr>))"
      unfolding ss_switchChain_def u o bind.bind_lunit Let_def old_def [symmetric] if_not_P [OF False] first v(1) gs hs ..
    moreover have "ss_ok n k w (emit hs (s1\<lparr>ss_worker := v\<rparr>))"
      using inv wk2 by (simp add: s1_def ss_ok_def worker_ok_def jobs_inv_def short_ids_ok_def job_addrs_def)
    ultimately show ?thesis by (auto simp: s1_def)
  qed
qed

lemma authorize_success_ok:
  assumes inv: "ss_inv k w s" and env: "se_ok k w env" and st: "ss_state s \<noteq> AUTHENTICATED"
  shows "\<exists>s'. authorize_success env idStr pw c s = Some s' \<and> ss_inv k w s'"
proof -
  let ?s1 = "(responseTrue idStr s)\<lparr>ss_state := AUTHENTICATED\<rparr>"
  obtain dp where dp: "createDispatcher env ?s1 = Some dp" "dp_inv w (job_addrs ?s1) (Suc (ss_nextUid ?s1)) dp" using createDispatcher_ok [OF env] by blast
  let ?s2 = "?s1\<lparr>ss_dispatcher := dp, ss_nextUid := Suc (ss_nextUid ?s1)\<rparr>"
  have s2: "ss_inv k w ?s2" "ss_state ?s2 = AUTHENTICATED"
    using inv st dp(2) by (simp_all add: ss_ok_def responseTrue_def emit_def worker_ok_def jobs_inv_def short_ids_ok_def job_addrs_def)
  obtain s3 where s3: "(if pw \<noteq> [] then setDefaultDifficultyFromPassword pw ?s2 else Some ?s2) = Some s3" "ss_inv k w s3"
    using setDefaultDifficultyFromPassword_ok [OF s2] s2 by (cases "pw = []") auto
  have "\<exists>s'. ss_sendMiningNotify env (getLatestStratumJobEx (pe_repo (se_pool env) c)) True
      (emit [ReadTimeout (if ss_isLongTimeout s3 then 86400 * 7 else se_tcpReadTimeout env)] s3) = Some s' \<and> ss_inv k w s'"
    using s3(2) env by (intro ss_sendMiningNotify_ok) (simp_all add: se_ok_def)
  then show ?thesis using dp(1) s3(1) by (simp add: authorize_success_def Let_def)
qed

lemma ss_ok_names:
  "ss_ok n k w s \<Longrightarrow> ss_ok n k w (s\<lparr>ss_worker := setNames h f r m u e (ss_worker s)\<rparr>)"
  by (simp add: ss_ok_def worker_ok_def jobs_inv_def short_ids_ok_def job_addrs_def setNames_def resetNames_def Let_def)

lemma ss_ok_registering:
  "ss_ok n k w s \<Longrightarrow> ss_state s \<noteq> AUTHENTICATED \<Longrightarrow> ss_ok n k w (s\<lparr>ss_savedAuthorizeInfo := x, ss_state := AUTO_REGISTING\<rparr>)"
  "ss_ok n k w s \<Longrightarrow> ss_ok n k w (s\<lparr>ss_savedAuthorizeInfo := x\<rparr>)"
  by (simp_all add: ss_ok_def worker_ok_def jobs_inv_def short_ids_ok_def job_addrs_def)

lemma tryAutoReg_result: "ui_wf k dir ui \<Longrightarrow> \<exists>b ui'. tryAutoReg zk n i f ui = (b, ui') \<and> ui_wf k dir ui'"
  using tryAutoReg_wf [of k dir ui zk n i f] by (cases "tryAutoReg zk n i f ui") auto

lemma checkUserAndPwd_ok:
  assumes ui: "ui_wf k dir ui" and inv: "ss_inv k w s" and env: "se_ok k w env" and st: "cb \<or> ss_state s \<noteq> AUTHENTICATED"
  shows "\<exists>ui' s'. checkUserAndPwd env idStr full pw cb (ui, s) = Some (ui', s') \<and> ui_wf k dir ui' \<and> ss_inv k w s'"
proof (cases "cb \<and> (ss_isDead s \<or> ss_state s \<noteq> AUTO_REGISTING)")
  case True
  then show ?thesis using assms by (simp add: checkUserAndPwd_def)
next
  case False
  then have na: "ss_state s \<noteq> AUTHENTICATED" using st by auto
  define s0 where "s0 = s\<lparr>ss_worker := setNames (se_Hash env) full (regularUserName ui) (se_singleUserMode env) (se_singleUserName env) False (ss_worker s)\<rparr>"
  define n where "n = wk_userName (ss_worker s0)"
  have i0: "ss_inv k w s0" "ss_state s0 = ss_state s" using ss_ok_names [OF inv] by (simp_all add: s0_def)
  obtain found ui1 where f: "ui_getChainId (se_view env) (se_zk env) n ui = (found, ui1)" by fastforce
  have pv: "view_ok k (se_view env)" using env by (simp add: se_ok_def)
  note f' = ui_getChainId_wf [OF ui pv f]
  obtain b s1 where sw: "(case found of None \<Rightarrow> Some (False, s0) | Some c \<Rightarrow> ss_switchChain env c ui1 s0) = Some (b, s1)"
    "ss_inv k w s1" "ss_state s1 = ss_state s"
  proof (cases found)
    case None
    then show ?thesis using that [of False s0] i0 by simp
  next
    case (Some c)
    have "ui_wf k dir ui1" "c < k" using f' Some by simp_all
    from ss_switchChain_ok [OF i0(1) this] obtain b s1 where "ss_switchChain env c ui1 s0 = Some (b, s1)" "ss_inv k w s1" "ss_state s1 = ss_state s0"
      by blast
    then show ?thesis using that [of b s1] Some i0(2) by simp
  qed
  obtain ok ui2 where t: "tryAutoReg (se_zk env) n (ss_sessionId s1) (wk_fullName (ss_worker s1)) ui1 = (ok, ui2)" "ui_wf k dir ui2"
    using tryAutoReg_result f' by blast
  obtain s2 where s2: "authorize_success env idStr pw (the found) s1 = Some s2" "ss_inv k w s2"
    using authorize_success_ok [OF sw(2) env, of idStr pw "the found"] sw(3) na by auto
  have eq: "checkUserAndPwd env idStr full pw cb (ui, s) =
     (if n = [] then Some (ui, responseError idStr INVALID_USERNAME s0)
      else if found = None \<and> \<not> ui_enableAutoReg ui1 then Some (ui1, responseError idStr INVALID_USERNAME s0)
      else if b then Some (ui1, s2)
      else if \<not> cb \<and> ui_enableAutoReg ui1
      then if ok then Some (ui2, s1\<lparr>ss_savedAuthorizeInfo := Some \<lparr>ai_idStr = idStr, ai_userName = n, ai_fullName = full, ai_password = pw\<rparr>,
             ss_state := AUTO_REGISTING\<rparr>)
           else Some (ui2, responseError idStr INVALID_USERNAME (s1\<lparr>ss_savedAuthorizeInfo := None\<rparr>))
      else Some (ui1, responseError idStr INVALID_USERNAME s1))"
    unfolding checkUserAndPwd_def prod.case if_not_P [OF False] s0_def [symmetric] Let_def n_def [symmetric] f sw(1) t(1) bind.bind_lunit s2(1) by simp
  have r: "ss_inv k w (s1\<lparr>ss_savedAuthorizeInfo := x, ss_state := AUTO_REGISTING\<rparr>)" "ss_inv k w (s1\<lparr>ss_savedAuthorizeInfo := x\<rparr>)" for x
    using ss_ok_registering [OF sw(2)] sw(3) na by simp_all
  show ?thesis unfolding eq using i0(1) f' sw(2) t(2) s2(2) r ui by simp
qed

lemmas ss_defs = ss_ok_def worker_ok_def jobs_inv_def short_ids_ok_def job_addrs_def

section \<open>Submissions\<close>

lemma submit_step_same:
  assumes "submit_step env sv jobs jobs' p" "distinct (map lj_addr jobs)"
  shows "same_jobs jobs jobs'"
  using assms(1) unfolding submit_step_def
proof (elim disjE exE conjE)
  fix su m m' eff assume s: "mi_submit env sv su jobs m = Some (jobs', m', eff, p)"
  show ?thesis
  proof (cases p)
    case None
    then show ?thesis using mi_submit_none s same_jobs_refl by blast
  next
    case (Some q)
    then obtain job i job' where "job \<in> set jobs" "addLocalShare i job = (True, job')" "jobs' = map (\<lambda>j. if lj_addr j = lj_addr job then job' else j) jobs"
      using mi_submit_some [of env sv su jobs m jobs' m' eff q] s by blast
    then show ?thesis using same_jobs_update [OF assms(2)] by blast
  qed
qed (simp add: same_jobs_refl)

lemma same_jobs_maps:
  assumes "same_jobs js js'"
  shows "length js' = length js" "map lj_addr js' = map lj_addr js" "map lj_shortJobId js' = map lj_shortJobId js" "map lj_chainId js' = map lj_chainId js"
  using assms by (auto simp: same_jobs_def intro!: nth_equalityI)

lemma ss_ok_jobs:
  assumes inv: "ss_ok n k w s" and same: "same_jobs (ss_localJobs s) js" and st: "ss_state s = AUTHENTICATED"
    and dp: "dp_inv w (job_addrs s) u dp"
  shows "ss_ok n k w (s\<lparr>ss_localJobs := js, ss_dispatcher := dp, ss_nextUid := u\<rparr>)"
proof -
  note m = same_jobs_maps [OF same]
  have sets: "lj_addr ` set js = lj_addr ` set (ss_localJobs s)" "lj_chainId ` set js = lj_chainId ` set (ss_localJobs s)"
    using m(2,4) by (metis list.set_map)+
  have "\<forall>j\<in>set js. lj_addr j < ss_nextAddr s" using inv sets(1) by (auto simp: ss_defs) (metis imageE imageI)
  moreover have "\<forall>j\<in>set js. lj_chainId j < k" using inv sets(2) by (auto simp: ss_defs) (metis imageE imageI)
  moreover have "lj_shortJobId (js ! i) = lj_shortJobId (ss_localJobs s ! i)" if "i < length js" for i
    using same that m(1) by (simp add: same_jobs_def)
  ultimately show ?thesis using inv st dp m sets by (simp add: ss_defs)
qed

lemma jobs_ok_view: "ss_ok n k w s \<Longrightarrow> jobs_ok (view_of s) (ss_localJobs s)"
  by (auto simp: ss_defs jobs_ok_def view_of_def)

lemma add_pending_ok: "ss_ok n k w s \<Longrightarrow> pend_ok (map_option snd p) \<Longrightarrow> ss_ok n k w (add_pending p s)"
  by (cases p) (auto simp: add_pending_def ss_defs)

lemma perform_inv: "ss_ok n k w s \<Longrightarrow> \<exists>es. perform env effs s = Some (emit es s) \<and> ss_ok n k w (emit es s)"
  using perform_ok [of k s env effs] by (auto simp: ss_ok_def [of n k w s])

lemma json_submit_returns: "\<exists>r. json_submit a b i ps = Some r"
  by (auto simp: json_submit_def child_at_def)

lemma handleRequest_Submit_ok:
  assumes inv: "ss_inv k w s" and env: "se_ok k w env" and dp: "ss_dispatcher s = MinerDispatcher u m"
  shows "\<exists>s'. handleRequest_Submit env idStr ps u m s = Some s' \<and> ss_inv k w s'"
proof (cases "ss_state s = AUTHENTICATED")
  case False
  then show ?thesis using inv by (simp add: handleRequest_Submit_def)
next
  case True
  obtain r where r: "json_submit (mi_isNiceHashClient m) (ss_isGrandPoolClient s) idStr ps = Some r" using json_submit_returns by blast
  show ?thesis
  proof (cases r)
    case (Inl c)
    then show ?thesis using inv True r by (simp add: handleRequest_Submit_def)
  next
    case (Inr su)
    have m: "miner_ok w (job_addrs s) m" "u < ss_nextUid s" using inv dp by (auto simp: ss_ok_def dp_inv_Miner)
    have e: "env_ok w (se_pool env)" "check_env_ok (se_pool env)" using env by (simp_all add: se_ok_def)
    obtain js m' eff p where b: "mi_submit (se_pool env) (view_of s) su (ss_localJobs s) m = Some (js, m', eff, p)"
      "miner_ok w (job_addrs s) m'" "submit_step (se_pool env) (view_of s) (ss_localJobs s) js p" "pend_ok p"
      by (rule miner_submit_ok [OF m(1) e jobs_ok_view [OF inv]])
    have d: "distinct (map lj_addr (ss_localJobs s))" using inv by (simp add: ss_defs)
    let ?s = "s\<lparr>ss_localJobs := js, ss_dispatcher := MinerDispatcher u m'\<rparr>"
    have "ss_inv k w (s\<lparr>ss_localJobs := js, ss_dispatcher := MinerDispatcher u m', ss_nextUid := ss_nextUid s\<rparr>)"
      using b(2) m(2) by (intro ss_ok_jobs [OF inv submit_step_same [OF b(3) d] True]) (simp add: dp_inv_Miner)
    then have "ss_inv k w ?s" by simp
    from perform_inv [OF this] obtain es where "perform env (concat (map (dispatch_answer (MinerDispatcher u m')) eff)) ?s = Some (emit es ?s)" "ss_inv k w (emit es ?s)"
      by blast
    then show ?thesis using True r Inr b add_pending_ok [of kMaxNumLocalJobs k w "emit es ?s" "map_option (Pair u) p"]
      by (simp add: handleRequest_Submit_def option.map_comp comp_def option.map_ident)
  qed
qed

lemma handleExMessage_ok:
  assumes inv: "ss_inv k w s" and env: "se_ok k w env" and len: "unat (le16_at x 2) = length x"
  shows "\<exists>s'. handleExMessage env x s = Some s' \<and> ss_inv k w s'"
proof (cases "ss_dispatcher s")
  case (AgentDispatcher ag)
  have e: "env_ok w (se_pool env)" "check_env_ok (se_pool env)" using env by (simp_all add: se_ok_def)
  have dp: "dp_inv w (job_addrs s) (ss_nextUid s) (AgentDispatcher ag)" using inv AgentDispatcher by (simp add: ss_ok_def)
  have st: "ss_state s = AUTHENTICATED" using inv AgentDispatcher by (auto simp: ss_ok_def)
  obtain js ag' eff p where b: "agent_handleExMessage (se_pool env) (view_of s) (se_Hash env) (createMiner env s) (ss_nextUid s) (ss_localJobs s) x ag = Some (js, ag', eff, p)"
    "dp_inv w (job_addrs s) (Suc (ss_nextUid s)) (AgentDispatcher ag')" "submit_step (se_pool env) (view_of s) (ss_localJobs s) js (map_option snd p)"
    "pend_ok (map_option snd p)"
    using agent_message_ok [where createMiner = "createMiner env s" and Hash = "se_Hash env", OF dp e jobs_ok_view [OF inv] len createMiner_ok [OF env]]
    by (elim exE conjE)
  have d: "distinct (map lj_addr (ss_localJobs s))" using inv by (simp add: ss_defs)
  let ?s = "s\<lparr>ss_localJobs := js, ss_dispatcher := AgentDispatcher ag', ss_nextUid := Suc (ss_nextUid s)\<rparr>"
  have "ss_inv k w ?s" by (rule ss_ok_jobs [OF inv submit_step_same [OF b(3) d] st b(2)])
  from perform_inv [OF this] obtain es where "perform env eff ?s = Some (emit es ?s)" "ss_inv k w (emit es ?s)" by blast
  then show ?thesis using AgentDispatcher b add_pending_ok [of kMaxNumLocalJobs k w "emit es ?s" p] by (simp add: handleExMessage_def)
qed (use inv in \<open>auto simp: handleExMessage_def\<close>)

section \<open>Requests that end the server\<close>

definition line_request :: "string \<Rightarrow> (string \<times> Node) option" where
  "line_request l = (case node_parse l of
     None \<Rightarrow> None
   | Some j \<Rightarrow> if validate (node_at j ''method'') (node_at j ''params'') then Some (node_str (node_at j ''method''), node_at j ''params'') else None)"

text \<open>
  The two fatal requests: a suggested target without a difficulty, which divides by zero, and a
  question for the capabilities with an empty list of parameters that has a size.
\<close>

definition bad_target :: "session_env \<Rightarrow> session \<Rightarrow> string \<times> Node \<Rightarrow> bool" where
  "bad_target env s r \<longleftrightarrow> (case r of (m, ps) \<Rightarrow> m = ''mining.suggest_target'' \<and> ss_state s = CONNECTED \<and>
     (\<exists>p rest. nchildren ps = p # rest \<and>
        TargetToDiff_str (cs_DiffOneBits (pe_srv (se_pool env) (wk_chainId (ss_worker s)))) (node_str p) = None))"

definition bad_capabilities :: "string \<times> Node \<Rightarrow> bool" where
  "bad_capabilities r \<longleftrightarrow> (case r of (m, ps) \<Rightarrow> m = ''agent.get_capabilities'' \<and> nsize ps \<ge> 1 \<and> nchildren ps = [])"

definition fatal :: "session_env \<Rightarrow> session \<Rightarrow> message \<Rightarrow> bool" where
  "fatal env s msg \<longleftrightarrow> (case msg of ExMessage _ \<Rightarrow> False
   | Line l \<Rightarrow> \<not> (ss_state s = CONNECTED \<and> fst (proxy_check env l s)) \<and>
       (\<exists>r. line_request l = Some r \<and> (bad_target env s r \<or> bad_capabilities r)))"

lemma handleRequest_Subscribe_ok: "ss_inv k w s \<Longrightarrow> ss_inv k w (handleRequest_Subscribe env idStr ps s)"
proof (cases "ss_state s = CONNECTED")
  case True
  assume inv: "ss_inv k w s"
  have "ss_inv k w (s\<lparr>ss_state := SUBSCRIBED\<rparr>)" "ss_inv k w (setClientAgent env a (s\<lparr>ss_state := SUBSCRIBED\<rparr>))" for a
    using inv True by (simp_all add: ss_defs setClientAgent_def Let_def)
  then show ?thesis using True by (simp add: handleRequest_Subscribe_def Let_def split: list.split)
qed (simp add: handleRequest_Subscribe_def)

lemma handleRequest_SuggestTarget_ok:
  assumes "ss_inv k w s"
  shows "if bad_target env s (''mining.suggest_target'', ps) then handleRequest_SuggestTarget env idStr ps s = None
    else \<exists>s'. handleRequest_SuggestTarget env idStr ps s = Some s' \<and> ss_inv k w s'"
proof (cases "ss_state s = CONNECTED")
  case st: True
  show ?thesis
  proof (cases "nchildren ps")
    case Nil
    then show ?thesis using assms st by (auto simp: handleRequest_SuggestTarget_def bad_target_def)
  next
    case (Cons p rest)
    show ?thesis
    proof (cases "TargetToDiff_str (cs_DiffOneBits (pe_srv (se_pool env) (wk_chainId (ss_worker s)))) (node_str p)")
      case None
      then show ?thesis using st Cons by (simp add: handleRequest_SuggestTarget_def bad_target_def)
    next
      case (Some d)
      obtain f where "formatDifficulty d = Some f" using formatDifficulty_returns by blast
      moreover have "ss_inv k w (s\<lparr>ss_suggestedDiff := f\<rparr>)" using assms by (simp add: ss_defs)
      ultimately show ?thesis using st Cons Some by (simp add: handleRequest_SuggestTarget_def bad_target_def)
    qed
  qed
qed (use assms in \<open>auto simp: handleRequest_SuggestTarget_def bad_target_def\<close>)

lemma configure_loop_ok:
  "ss_inv k w s \<Longrightarrow> \<exists>res s'. configure_loop a opts exts results s = Some (res, s') \<and> ss_inv k w s'"
proof (induction a opts exts results s rule: configure_loop.induct)
  case (2 a opts ext exts results s)
  obtain d where d: "formatDifficulty (node_uint64 (node_at opts ''minimum-difficulty.value'')) = Some d" using formatDifficulty_returns by blast
  have i: "ss_inv k w (s\<lparr>ss_suggestedMinDiff := d\<rparr>)" "ss_inv k w (s\<lparr>ss_versionMask := v\<rparr>)" for v using 2(7) by (simp_all add: ss_defs)
  show ?case using 2 i d by (auto simp: Let_def)
qed simp

lemma handleRequest_MiningConfigure_ok:
  assumes "ss_inv k w s"
  shows "\<exists>s'. handleRequest_MiningConfigure env idStr ps s = Some s' \<and> ss_inv k w s'"
proof (cases "\<exists>p q rest. nchildren ps = p # q # rest")
  case True
  then obtain p q rest where c: "nchildren ps = p # q # rest" by blast
  from configure_loop_ok [OF assms, of "se_versionMask env" q "nchildren p" "[]"]
  obtain res s' where "configure_loop (se_versionMask env) q (nchildren p) [] s = Some (res, s')" "ss_inv k w s'" by blast
  then show ?thesis using assms c by (auto simp: handleRequest_MiningConfigure_def Let_def)
next
  case False
  then show ?thesis using assms by (auto simp: handleRequest_MiningConfigure_def split: list.split)
qed

lemma handleRequest_AgentGetCapabilities_ok:
  assumes "ss_inv k w s" "ntype ps = JArray"
  shows "if bad_capabilities (''agent.get_capabilities'', ps) then handleRequest_AgentGetCapabilities idStr ps s = None
    else \<exists>s'. handleRequest_AgentGetCapabilities idStr ps s = Some s' \<and> ss_inv k w s'"
proof -
  have "ss_inv k w (emit es s\<lparr>ss_dispatcher := dp_setSubmitResponse True (ss_dispatcher s)\<rparr>)" for es
    using assms(1) dp_setSubmitResponse_inv [of w "job_addrs s" "ss_nextUid s" "ss_dispatcher s" True] by (auto simp: ss_defs emit_def)
  then show ?thesis using assms by (auto simp: handleRequest_AgentGetCapabilities_def bad_capabilities_def Let_def child_at_def Suc_le_eq)
qed

lemma handleRequest_Authorize_ok:
  assumes "ui_wf k dir ui" "ss_inv k w s" "se_ok k w env"
  shows "\<exists>ui' s'. handleRequest_Authorize env idStr ps (ui, s) = Some (ui', s') \<and> ui_wf k dir ui' \<and> ss_inv k w s'"
proof (cases "ss_state s = SUBSCRIBED")
  case True
  have "False \<or> ss_state s \<noteq> AUTHENTICATED" using True by simp
  from checkUserAndPwd_ok [OF assms this] show ?thesis using True assms
    by (cases "nchildren ps") (simp_all add: handleRequest_Authorize_def)
qed (use assms in \<open>simp add: handleRequest_Authorize_def\<close>)

lemma handleRequest_ok:
  assumes ui: "ui_wf k dir ui" and inv: "ss_inv k w s" and env: "se_ok k w env" and arr: "ntype ps = JArray"
  shows "if bad_target env s (m, ps) \<or> bad_capabilities (m, ps) then handleRequest env idStr m ps (ui, s) = None
    else \<exists>ui' s'. handleRequest env idStr m ps (ui, s) = Some (ui', s') \<and> ui_wf k dir ui' \<and> ss_inv k w s'"
proof -
  consider "m = ''mining.subscribe''" | "m = ''mining.authorize''" | "m = ''mining.configure''" | "m = ''agent.get_capabilities''"
    | "m = ''mining.suggest_target''"
    | "m \<noteq> ''mining.subscribe'' \<and> m \<noteq> ''mining.authorize'' \<and> m \<noteq> ''mining.configure'' \<and> m \<noteq> ''agent.get_capabilities'' \<and> m \<noteq> ''mining.suggest_target''"
    by blast
  then show ?thesis
  proof cases
    case 1
    then show ?thesis using ui handleRequest_Subscribe_ok [OF inv] by (simp add: handleRequest_def bad_target_def bad_capabilities_def)
  next
    case 2
    then show ?thesis using handleRequest_Authorize_ok [OF ui inv env] by (simp add: handleRequest_def bad_target_def bad_capabilities_def)
  next
    case 3
    then show ?thesis using ui handleRequest_MiningConfigure_ok [OF inv, of env idStr ps] by (auto simp: handleRequest_def bad_target_def bad_capabilities_def)
  next
    case 4
    then have "\<not> bad_target env s (m, ps)" by (simp add: bad_target_def)
    then show ?thesis using ui 4 handleRequest_AgentGetCapabilities_ok [OF inv arr, of idStr] by (auto simp: handleRequest_def split: if_splits)
  next
    case 5
    then have "\<not> bad_capabilities (m, ps)" by (simp add: bad_capabilities_def)
    then show ?thesis using ui 5 handleRequest_SuggestTarget_ok [OF inv, of env ps idStr] by (auto simp: handleRequest_def split: if_splits)
  next
    case 6
    then have "\<not> bad_target env s (m, ps)" "\<not> bad_capabilities (m, ps)" by (simp_all add: bad_target_def bad_capabilities_def)
    moreover have "\<exists>ui' s'. handleRequest env idStr m ps (ui, s) = Some (ui', s') \<and> ui_wf k dir ui' \<and> ss_inv k w s'"
    proof (cases "ss_dispatcher s")
      case (MinerDispatcher u m0)
      from handleRequest_Submit_ok [OF inv env this, of idStr ps] show ?thesis using 6 ui inv MinerDispatcher by (auto simp: handleRequest_def)
    qed (use 6 ui inv in \<open>simp_all add: handleRequest_def\<close>)
    ultimately show ?thesis by simp
  qed
qed

lemma proxy_check_ok: "ss_inv k w s \<Longrightarrow> proxy_check env l s = (b, s') \<Longrightarrow> ss_inv k w (s'\<lparr>ss_proxy := p\<rparr>)"
  by (auto simp: proxy_check_def ss_defs split: if_splits list.splits option.splits)

lemma handleLine_ok:
  assumes ui: "ui_wf k dir ui" and inv: "ss_inv k w s" and env: "se_ok k w env"
  shows "if fatal env s (Line l) then handleLine env l (ui, s) = None
    else \<exists>ui' s'. handleLine env l (ui, s) = Some (ui', s') \<and> ui_wf k dir ui' \<and> ss_inv k w s'"
proof (cases "ss_state s = CONNECTED \<and> fst (proxy_check env l s)")
  case True
  then obtain s' where "proxy_check env l s = (True, s')" by (cases "proxy_check env l s") auto
  then show ?thesis using True ui proxy_check_ok [OF inv] by (simp add: handleLine_def fatal_def)
next
  case False
  then have p: "(if ss_state s = CONNECTED then proxy_check env l s else (False, s)) =
      (False, if ss_state s = CONNECTED then snd (proxy_check env l s) else s)"
    by (cases "proxy_check env l s") auto
  have f: "fatal env s (Line l) \<longleftrightarrow> (\<exists>r. line_request l = Some r \<and> (bad_target env s r \<or> bad_capabilities r))"
    using False by (simp add: fatal_def)
  show ?thesis
  proof (cases "node_parse l")
    case None
    then show ?thesis unfolding f handleLine_def prod.case p using ui inv by (simp add: line_request_def)
  next
    case (Some j)
    show ?thesis
    proof (cases "validate (node_at j ''method'') (node_at j ''params'')")
      case True
      then have "ntype (node_at j ''params'') = JArray" by (simp add: validate_def)
      from handleRequest_ok [OF ui inv env this] show ?thesis
        unfolding f handleLine_def prod.case p Some line_request_def option.case Let_def if_P [OF True] option.inject by simp
    next
      case False
      then show ?thesis unfolding f handleLine_def prod.case p using Some ui inv by (simp add: line_request_def Let_def)
    qed
  qed
qed

definition framed :: "message \<Rightarrow> bool" where
  "framed msg \<longleftrightarrow> (case msg of ExMessage x \<Rightarrow> unat (le16_at x 2) = length x | Line _ \<Rightarrow> True)"

lemma ss_handle_ok:
  assumes ui: "ui_wf k dir ui" and inv: "ss_inv k w s" and env: "se_ok k w env" and m: "framed msg"
  shows "if fatal env s msg then ss_handle env (ui, s) msg = None
    else \<exists>ui' s'. ss_handle env (ui, s) msg = Some (ui', s') \<and> ui_wf k dir ui' \<and> ss_inv k w s'"
proof (cases msg)
  case (ExMessage x)
  then have "unat (le16_at x 2) = length x" using m by (simp add: framed_def)
  from handleExMessage_ok [OF inv env this] show ?thesis using ExMessage ui by (auto simp: fatal_def)
next
  case (Line l)
  then show ?thesis using handleLine_ok [OF ui inv env, of l] by simp
qed

section \<open>The other events\<close>

lemma dp_find_ok:
  assumes "dp_inv w A u dp" "dp_find v dp = Some m"
  shows "miner_ok w A m" "miner_ok w A m' \<Longrightarrow> dp_inv w A u (dp_put v m' dp)"
proof -
  have mem: "(v, m) \<in> set (dp_miners dp)" using assms(2) by (auto dest: map_of_SomeD)
  then show "miner_ok w A m" using assms(1) by (auto simp: dp_inv_def)
  show "dp_inv w A u (dp_put v m' dp)" if m': "miner_ok w A m'"
  proof (cases dp)
    case (AgentDispatcher ag)
    let ?f = "\<lambda>(i, x, m0). (i, x, if v = x then m' else m0)"
    have "map fst (map ?f (ag_miners ag)) = map fst (ag_miners ag)" "map (\<lambda>x. fst (snd x)) (map ?f (ag_miners ag)) = map (\<lambda>x. fst (snd x)) (ag_miners ag)"
      by auto
    moreover have "\<forall>(i, x, m) \<in> set (map ?f (ag_miners ag)). x < u \<and> miner_ok w A m"
      using assms(1) AgentDispatcher m' by (auto simp: dp_inv_Agent)
    ultimately show ?thesis using assms(1) om_inv_keys [of "map ?f (ag_miners ag)" "ag_miners ag"]
      unfolding AgentDispatcher dp_put.simps dp_inv_Agent ag_ok_def by (simp del: map_map map_eq_conv list.set_map)
  qed (use assms(1) m' in \<open>auto simp: dp_inv_Miner\<close>)
qed

lemma check_done_ok:
  assumes inv: "ss_inv k w s" and env: "se_ok k w env"
  shows "\<exists>s'. check_done env i s = Some s' \<and> ss_inv k w s'"
proof (cases "i < length (ss_pending s)")
  case True
  obtain u q where uq: "ss_pending s ! i = (u, q)" by fastforce
  have "(u, q) \<in> set (ss_pending s)" using True uq nth_mem by metis
  then have q: "pend_ok (Some q)" using inv by (auto simp: ss_ok_def)
  define s1 where "s1 = s\<lparr>ss_pending := take i (ss_pending s) @ drop (Suc i) (ss_pending s)\<rparr>"
  have i1: "ss_inv k w s1" using inv by (auto simp: s1_def ss_defs dest: in_set_takeD in_set_dropD)
  have eq: "check_done env i s = (case dp_find u (ss_dispatcher s) of
       Some m \<Rightarrow> do { (eff, m') \<leftarrow> mi_checked (se_pool env) q m;
         perform env (concat (map (dispatch_answer (dp_put u m' (ss_dispatcher s))) eff)) (s1\<lparr>ss_dispatcher := dp_put u m' (ss_dispatcher s)\<rparr>) }
     | None \<Rightarrow> perform env (concat (map (dispatch_answer (ss_dispatcher s1)) (mi_checked_gone (se_pool env) q))) s1)"
    using True by (simp add: check_done_def uq s1_def Let_def split: option.split)
  show ?thesis
  proof (cases "dp_find u (ss_dispatcher s)")
    case None
    from perform_inv [OF i1] show ?thesis unfolding eq None option.case by blast
  next
    case (Some m)
    have dp: "dp_inv w (job_addrs s) (ss_nextUid s) (ss_dispatcher s)" using inv by (simp add: ss_ok_def)
    note f = dp_find_ok [OF dp Some]
    have st: "ss_state s1 = AUTHENTICATED" using inv Some by (auto simp: ss_ok_def s1_def)
    have e: "env_ok w (se_pool env)" "mi_inv w m" using env f(1) by (simp_all add: se_ok_def miner_ok_def)
    obtain eff m' where c: "mi_checked (se_pool env) q m = Some (eff, m')" "mi_inv w m'" "mi_jobDiffs m' = mi_jobDiffs m"
      using mi_checked_ok [OF e(2,1), of q] q by (auto simp: pend_ok_def)
    have "dp_inv w (job_addrs s) (ss_nextUid s) (dp_put u m' (ss_dispatcher s))" using f c(2,3) by (auto simp: miner_ok_def)
    then have "dp_inv w (job_addrs s1) (ss_nextUid s1) (dp_put u m' (ss_dispatcher s))" by (simp add: s1_def job_addrs_def)
    from perform_inv [OF ss_ok_dispatcher [OF i1 st this]] show ?thesis unfolding eq Some option.case c(1) bind.bind_lunit prod.case by blast
  qed
qed (use inv in \<open>simp add: check_done_def\<close>)

lemma ss_autoRegCallback_ok:
  assumes "ui_wf k dir ui" "ss_inv k w s" "se_ok k w env"
  shows "\<exists>b ui' s'. ss_autoRegCallback env n (ui, s) = Some (b, ui', s') \<and> ui_wf k dir ui' \<and> ss_inv k w s'"
proof (cases "ss_savedAuthorizeInfo s")
  case (Some ai)
  have "True \<or> ss_state s \<noteq> AUTHENTICATED" by simp
  from checkUserAndPwd_ok [OF assms this, of "ai_idStr ai" "ai_fullName ai" "ai_password ai"]
  obtain ui' s' where "checkUserAndPwd env (ai_idStr ai) (ai_fullName ai) (ai_password ai) True (ui, s) = Some (ui', s')" "ui_wf k dir ui'" "ss_inv k w s'" by blast
  then show ?thesis using Some assms ss_ok_registering(2) [of kMaxNumLocalJobs k w s' None] by (auto simp: ss_autoRegCallback_def)
qed (use assms in \<open>auto simp: ss_autoRegCallback_def\<close>)

lemma markAsDead_ok:
  assumes "ss_inv k w s"
  shows "\<exists>s'. markAsDead env s = Some s' \<and> ss_inv k w s'"
proof -
  have i: "ss_inv k w (s\<lparr>ss_isDead := True\<rparr>)" using assms by (simp add: ss_defs)
  then have "worker_ok k (s\<lparr>ss_isDead := True\<rparr>)" by (simp add: ss_ok_def)
  from sendCommonEvent_ok [OF this] obtain es where "sendCommonEvent env ''miner_dead'' (wk_workerHashId (ss_worker s)) (wk_workerName (ss_worker s)) (ss_clientAgent s)
      ''del_conn'' (s\<lparr>ss_isDead := True\<rparr>) = Some (emit es (s\<lparr>ss_isDead := True\<rparr>))" by blast
  moreover obtain u where "worker_userId (ss_worker s) (wk_chainId (ss_worker s)) = Some u" using assms by (auto simp: ss_defs worker_userId_def)
  ultimately show ?thesis using i by (simp add: markAsDead_def Let_def)
qed

section \<open>Runs of a session\<close>

lemma frames_framed: "list_all framed (fst (frames buf))"
proof (induction buf rule: frames.induct)
  case (1 buf)
  show ?case
  proof (cases "next_message buf")
    case None
    then show ?thesis by (subst frames.simps) simp
  next
    case (Some mr)
    obtain m rest where mr: "next_message buf = Some (m, rest)" using Some by (cases mr) simp
    have "framed m" using mr header_append [of "take (unat (le16_at buf 2)) buf" "drop (unat (le16_at buf 2)) buf"]
      by (auto simp: next_message_def Let_def framed_def split: if_splits)
    then show ?thesis using 1 [OF mr refl] mr by (subst frames.simps) simp
  qed
qed

definition ss_bad :: "string \<times> user_info \<times> session \<Rightarrow> session_env \<times> session_event \<Rightarrow> bool" where
  "ss_bad st e \<longleftrightarrow> (case (st, e) of ((buf, us), env, ev) \<Rightarrow> case ev of
     Received bytes \<Rightarrow> \<exists>ms m ms' ui s. fst (frames (buf @ bytes)) = ms @ m # ms' \<and> run (ss_handle env) us ms = Some (ui, s) \<and> fatal env s m
   | _ \<Rightarrow> False)"

definition ss_event_ok :: "nat \<Rightarrow> int \<Rightarrow> session_env \<times> session_event \<Rightarrow> bool" where
  "ss_event_ok k w e \<longleftrightarrow> (case e of (env, ev) \<Rightarrow> se_ok k w env \<and> (case ev of
     NewJob x \<Rightarrow> jx_chainId x < k | SwitchTo c \<Rightarrow> c < k | _ \<Rightarrow> True))"

definition st_inv :: "nat \<Rightarrow> int \<Rightarrow> string \<Rightarrow> string \<times> user_info \<times> session \<Rightarrow> bool" where
  "st_inv k w dir st \<longleftrightarrow> ui_wf k dir (fst (snd st)) \<and> ss_inv k w (snd (snd st))"

lemma ss_handle_guarded:
  assumes "ui_wf k dir (fst us) \<and> ss_inv k w (snd us) \<and> se_ok k w env" "framed m"
  shows "if fatal env (snd us) m then ss_handle env us m = None
    else \<exists>us'. ss_handle env us m = Some us' \<and> ui_wf k dir (fst us') \<and> ss_inv k w (snd us') \<and> se_ok k w env"
proof (cases us)
  case (Pair ui s)
  then show ?thesis using assms ss_handle_ok [of k dir ui w s env m] by (auto split: if_splits)
qed

interpretation ssm: guarded_handler "ss_handle env" "\<lambda>us. ui_wf k dir (fst us) \<and> ss_inv k w (snd us) \<and> se_ok k w env" framed
    "\<lambda>us. fatal env (snd us)"
  by unfold_locales (rule ss_handle_guarded)

lemma received_guarded:
  assumes "st_inv k w dir (buf, us)" "se_ok k w env"
  shows "if ss_bad (buf, us) (env, Received bytes) then readBuf (ss_handle env) bytes (buf, us) = None
    else \<exists>st'. readBuf (ss_handle env) bytes (buf, us) = Some st' \<and> st_inv k w dir st'"
proof -
  have i: "ui_wf k dir (fst us) \<and> ss_inv k w (snd us) \<and> se_ok k w env" using assms by (simp add: st_inv_def)
  have eq: "readBuf (ss_handle env) bytes (buf, us) =
      map_option (Pair (snd (frames (buf @ bytes)))) (run (ss_handle env) us (fst (frames (buf @ bytes))))"
    by (simp add: readBuf_def read_loop_run)
  have b: "ss_bad (buf, us) (env, Received bytes) \<longleftrightarrow> run (ss_handle env) us (fst (frames (buf @ bytes))) = None"
    unfolding ssm.run_fails [OF i frames_framed] by (auto simp: ss_bad_def)
  show ?thesis
  proof (cases "run (ss_handle env) us (fst (frames (buf @ bytes)))")
    case (Some us')
    then show ?thesis using ssm.run_keeps [OF i frames_framed Some] b by (simp add: eq st_inv_def)
  qed (simp add: b eq)
qed

lemma ss_step_guarded:
  assumes inv: "st_inv k w dir st" and ok: "ss_event_ok k w e"
  shows "if ss_bad st e then ss_step st e = None else \<exists>st'. ss_step st e = Some st' \<and> st_inv k w dir st'"
proof -
  obtain buf ui s env ev where st: "st = (buf, ui, s)" "e = (env, ev)" by (metis prod.exhaust)
  have i: "ui_wf k dir ui" "ss_inv k w s" "se_ok k w env" using inv ok st by (simp_all add: st_inv_def ss_event_ok_def)
  show ?thesis
  proof (cases ev)
    case (Received bytes)
    show ?thesis unfolding st Received ss_step.simps by (rule received_guarded) (use inv i st in simp_all)
  next
    case (CheckDone j)
    then show ?thesis using check_done_ok [OF i(2,3), of j] i st by (auto simp: ss_bad_def st_inv_def)
  next
    case (NewJob x)
    then show ?thesis using ss_sendMiningNotify_ok [OF i(2,3), of "Some x" False] i ok st by (auto simp: ss_bad_def st_inv_def ss_event_ok_def)
  next
    case (SwitchTo c)
    then show ?thesis using ss_switchChain_ok [OF i(2,1), of c env] i ok st by (auto simp: ss_bad_def st_inv_def ss_event_ok_def)
  next
    case (AutoReg n)
    then show ?thesis using ss_autoRegCallback_ok [OF i, of n] i st by (auto simp: ss_bad_def st_inv_def)
  next
    case Disconnected
    then show ?thesis using markAsDead_ok [OF i(2), of env] i st by (auto simp: ss_bad_def st_inv_def)
  qed
qed

interpretation sse: guarded_handler ss_step "st_inv k w dir" "ss_event_ok k w" ss_bad
  by unfold_locales (rule ss_step_guarded)

lemma session_new_ok: "se_ok k w env \<Longrightarrow> ss_inv k w (session_new env ip i)"
  by (auto simp: session_new_def ss_defs worker_new_def se_ok_def view_ok_def dp_inv_def)

text \<open>The short ids are different, since there are at most 256 jobs, so each job is found by its id.\<close>

lemma short_ids_distinct:
  assumes "short_ids_ok s" "length (ss_localJobs s) \<le> 256"
  shows "distinct (map lj_shortJobId (ss_localJobs s))"
  unfolding distinct_conv_nth
proof (intro allI impI)
  fix i j assume ij: "i < length (map lj_shortJobId (ss_localJobs s))" "j < length (map lj_shortJobId (ss_localJobs s))" "i \<noteq> j"
  let ?n = "length (ss_localJobs s)"
  have o: "lj_shortJobId (ss_localJobs s ! i) = ss_shortJobIdIdx s - of_nat (?n - i)" if "i < ?n" for i
    using assms(1) that by (simp add: short_ids_ok_def)
  have "(of_nat (?n - i) :: u8) \<noteq> of_nat (?n - j)"
  proof
    assume "(of_nat (?n - i) :: u8) = of_nat (?n - j)"
    then have "(?n - i) mod 256 = (?n - j) mod 256" by (simp add: word_of_nat_eq_iff take_bit_eq_mod)
    moreover have "a = b" if "a mod 256 = b mod 256" "0 < a" "a \<le> 256" "0 < b" "b \<le> 256" for a b :: nat
      using that by (cases "a = 256"; cases "b = 256") auto
    ultimately have "?n - i = ?n - j" using ij assms(2) by simp
    then show False using ij by simp
  qed
  then show "map lj_shortJobId (ss_localJobs s) ! i \<noteq> map lj_shortJobId (ss_localJobs s) ! j" using o ij by simp
qed

lemma findLocalJob_unique:
  assumes "distinct (map lj_shortJobId jobs)" "j \<in> set jobs"
  shows "findLocalJob (lj_shortJobId j) jobs = Some j"
proof -
  have "find (\<lambda>x. lj_shortJobId x = lj_shortJobId j) (rev jobs) \<noteq> None" using assms(2) by (auto simp: find_None_iff)
  then obtain x where x: "find (\<lambda>x. lj_shortJobId x = lj_shortJobId j) (rev jobs) = Some x" by blast
  then have "x \<in> set jobs" "lj_shortJobId x = lj_shortJobId j" by (auto simp: find_Some_iff) (metis nth_mem length_rev set_rev)
  then show ?thesis using x assms unfolding findLocalJob_def distinct_map by (metis inj_onD)
qed

text \<open>What the invariant says of the jobs and miners of a session.\<close>

definition session_sound :: "session \<Rightarrow> bool" where
  "session_sound s \<longleftrightarrow> length (ss_localJobs s) \<le> 256 \<and>
     (\<forall>j\<in>set (ss_localJobs s). findLocalJob (lj_shortJobId j) (ss_localJobs s) = Some j) \<and>
     (\<forall>(u, m)\<in>set (dp_miners (ss_dispatcher s)). \<forall>j\<in>set (ss_localJobs s). map_of (mi_jobDiffs m) (lj_addr j) \<noteq> None) \<and>
     (ss_state s \<noteq> AUTHENTICATED \<longrightarrow> ss_dispatcher s = NullDispatcher \<and> ss_localJobs s = [])"

lemma ss_inv_sound:
  assumes "ss_inv k w s"
  shows "session_sound s"
proof -
  have j: "short_ids_ok s" "length (ss_localJobs s) \<le> 256" using assms by (simp_all add: ss_ok_def jobs_inv_def kMaxNumLocalJobs_def)
  have "dom (map_of (mi_jobDiffs m)) = job_addrs s" if "(u, m) \<in> set (dp_miners (ss_dispatcher s))" for u m
    using assms that unfolding ss_ok_def dp_inv_def miner_ok_def by blast
  then have "lj_addr j \<in> dom (map_of (mi_jobDiffs m))" if "(u, m) \<in> set (dp_miners (ss_dispatcher s))" "j \<in> set (ss_localJobs s)" for u m j
    using that by (simp add: job_addrs_def)
  then have "\<forall>(u, m)\<in>set (dp_miners (ss_dispatcher s)). \<forall>j\<in>set (ss_localJobs s). map_of (mi_jobDiffs m) (lj_addr j) \<noteq> None"
    unfolding domIff by blast
  then show ?thesis using assms j findLocalJob_unique [OF short_ids_distinct [OF j]] unfolding session_sound_def by (simp add: ss_ok_def)
qed

section \<open>The two requests, and what holds in every session\<close>

text \<open>An environment of a server for two chains.\<close>

definition senv0 :: "diff_controller \<Rightarrow> session_env" where
  "senv0 d = \<lparr>se_pool = env0 d, se_chainSize = 2, se_view = view2, se_zk = zk0, se_Hash = (\<lambda>_. []), se_singleUserMode = False,
     se_singleUserName = [], se_singleUserId = (\<lambda>_. 0), se_date = [], se_tcpReadTimeout = 60, se_grandPoolEnabled = False,
     se_proxyProtocol = False, se_versionMask = 0, se_longTimeout = (\<lambda>_. False), se_devDifficulty = None, se_inet_pton4 = (\<lambda>_. None)\<rparr>"

lemma senv0_ok: "dc_new 64 1024 2 10 60 = Some d \<Longrightarrow> se_ok 2 60 (senv0 d)"
  using dc_inv_new [of 64 1024 2 10 60 d] env0_ok [of d]
  by (auto simp: se_ok_def senv0_def view_ok_def view2_def env0_def repo0_def getLatestStratumJobEx_def)

definition capabilities_line :: string where
  \<open>capabilities_line = ''{"id":1,"method":"agent.get_capabilities","params":[]}'' @ [lf]\<close>

definition subscribe_line :: string where
  \<open>subscribe_line = ''{"id":1,"method":"mining.subscribe","params":[]}'' @ [lf]\<close>

lemma capabilities_request: "map_option bad_capabilities (line_request capabilities_line) = Some True"
  by code_simp

lemma subscribe_request: "map_option fst (line_request subscribe_line) = Some ''mining.subscribe''"
  by code_simp

lemma sample_frames: "frames capabilities_line = ([Line capabilities_line], [])" "frames subscribe_line = ([Line subscribe_line], [])"
proof -
  have "message_ok (Line capabilities_line)" "message_ok (Line subscribe_line)"
    by (simp_all add: capabilities_line_def subscribe_line_def byte_at_def peek_def CMD_MAGIC_NUMBER_def ord_def lf_def)
  then show "frames capabilities_line = ([Line capabilities_line], [])" "frames subscribe_line = ([Line subscribe_line], [])"
    using frames_messages [of "[Line capabilities_line]"] frames_messages [of "[Line subscribe_line]"] by simp_all
qed



text \<open>
  C6. In every session, whatever has happened, there are at most 256 local jobs, each is found by
  its short id, every miner behind the session has a difficulty for each of them, and before the
  client has been authenticated there is neither a miner nor a job.
\<close>

theorem session_jobs_sound:
  assumes "se_ok k w env" "ui_wf k dir ui" "list_all (ss_event_ok k w) es"
    "run ss_step ([], ui, session_new env ip i) es = Some (buf, ui', s)"
  shows "session_sound s"
proof -
  have "st_inv k w dir ([], ui, session_new env ip i)" using assms(1,2) session_new_ok by (simp add: st_inv_def)
  then have "st_inv k w dir (buf, ui', s)" by (rule sse.run_keeps [OF _ assms(3,4)])
  then show ?thesis using ss_inv_sound [of k w s] by (simp add: st_inv_def)
qed

theorem session_jobs_sound_witness:
  "\<exists>d buf ui s. dc_new 64 1024 2 10 60 = Some d \<and>
     run ss_step ([], users0, session_new (senv0 d) 0 1) [(senv0 d, Received subscribe_line), (senv0 d, SwitchTo 1), (senv0 d, Disconnected)] = Some (buf, ui, s) \<and>
     session_sound s"
proof -
  obtain d where d: "dc_new 64 1024 2 10 60 = Some d" by (simp add: dc_new_def sw_new_def)
  let ?es = "[(senv0 d, Received subscribe_line), (senv0 d, SwitchTo 1), (senv0 d, Disconnected)]"
  let ?st = "([], users0, session_new (senv0 d) 0 1)"
  have ui: "ui_wf 2 ''/reg/'' users0" by (simp add: ui_wf_def users0_def uc_wf_def)
  have e: "list_all (ss_event_ok 2 60) ?es" using senv0_ok [OF d] by (simp add: ss_event_ok_def)
  have inv: "st_inv 2 60 ''/reg/'' ?st" using ui session_new_ok [OF senv0_ok [OF d]] by (simp add: st_inv_def)
  have "\<not> fatal (senv0 d) s (Line subscribe_line)" for s
    using subscribe_request by (auto simp: fatal_def bad_target_def bad_capabilities_def)
  then have "\<not> ss_bad ?st (senv0 d, Received subscribe_line)" by (auto simp: ss_bad_def sample_frames Cons_eq_append_conv)
  then have "run ss_step ?st ?es \<noteq> None"
    unfolding sse.run_fails [OF inv e] by (auto simp: Cons_eq_append_conv ss_bad_def [of _ "(_, SwitchTo _)"] ss_bad_def [of _ "(_, Disconnected)"])
  then obtain buf ui' s where "run ss_step ?st ?es = Some (buf, ui', s)" by (metis not_None_eq prod.exhaust)
  then show ?thesis using d session_jobs_sound [OF senv0_ok [OF d] ui e] by blast
qed

end
