(* ===== verification/Session_Id.thy ===== *)
theory Session_Id
  imports Pool_Utils
begin

text \<open>
  The allocator of session ids, \<open>SessionIDManagerT<IBITS>\<close> of \<open>src/StratumServer.h\<close> and
  \<open>src/StratumServer.cc\<close>. The number of index bits is a parameter, at most 24. The bitset is
  the set of the indices that are set.
\<close>

section \<open>The allocator\<close>

record session_ids =
  sid_server :: u8
  sid_used :: "nat set"
  sid_count :: u32
  sid_allocIdx :: u32
  sid_interval :: u32

definition sid_new :: "u8 \<Rightarrow> session_ids" where
  "sid_new serverId = \<lparr>sid_server = serverId, sid_used = {}, sid_count = 0, sid_allocIdx = 0, sid_interval = 0\<rparr>"

definition kSessionIdMask :: "nat \<Rightarrow> u32" where
  "kSessionIdMask b = push_bit b 1 - 1"

definition sid_ifFull :: "nat \<Rightarrow> session_ids \<Rightarrow> bool" where
  "sid_ifFull b s \<longleftrightarrow> sid_count s > kSessionIdMask b"

definition setAllocInterval :: "u32 \<Rightarrow> session_ids \<Rightarrow> session_ids" where
  "setAllocInterval i s = s\<lparr>sid_interval := i\<rparr>"

partial_function (option) sid_find :: "nat \<Rightarrow> nat set \<Rightarrow> u32 \<Rightarrow> u32 option" where
  "sid_find b used i =
     (if unat i \<in> used then sid_find b used ((i + 1) AND kSessionIdMask b) else Some i)"

text \<open>\<open>allocSessionId\<close>: the id, or nothing when full. The whole result is \<open>None\<close> when the loop does not end.\<close>

definition allocSessionId :: "nat \<Rightarrow> session_ids \<Rightarrow> (u32 option \<times> session_ids) option" where
  "allocSessionId b s =
     (if sid_ifFull b s then Some (None, s)
      else do {
        i \<leftarrow> sid_find b (sid_used s) (sid_allocIdx s);
        Some (Some (push_bit b (ucast (sid_server s)) OR i),
          s\<lparr>sid_used := insert (unat i) (sid_used s), sid_count := sid_count s + 1,
            sid_allocIdx := (i + sid_interval s) AND kSessionIdMask b\<rparr>)
      })"

definition freeSessionId :: "nat \<Rightarrow> u32 \<Rightarrow> session_ids \<Rightarrow> session_ids" where
  "freeSessionId b sid s = (let idx = sid AND kSessionIdMask b in
     s\<lparr>sid_used := sid_used s - {unat idx}, sid_count := sid_count s - 1\<rparr>)"

section \<open>The contract\<close>

text \<open>
  An allocator of distinct ids: it returns, gives an id not in use unless all are, and an id
  in use can be given back.
\<close>

locale id_allocator =
  fixes alloc :: "'s \<Rightarrow> ('i option \<times> 's) option"
    and free :: "'i \<Rightarrow> 's \<Rightarrow> 's"
    and used :: "'s \<Rightarrow> 'i set"
    and capacity :: nat
    and inv :: "'s \<Rightarrow> bool"
  assumes alloc_returns: "inv s \<Longrightarrow> \<exists>r. alloc s = Some r"
    and alloc_full: "inv s \<Longrightarrow> alloc s = Some (None, s') \<Longrightarrow> s' = s \<and> card (used s) = capacity"
    and alloc_id: "inv s \<Longrightarrow> alloc s = Some (Some i, s') \<Longrightarrow> i \<notin> used s \<and> used s' = insert i (used s) \<and> inv s'"
    and free_id: "inv s \<Longrightarrow> i \<in> used s \<Longrightarrow> used (free i s) = used s - {i} \<and> inv (free i s)"
begin

lemma alloc_distinct:
  assumes "inv s" "alloc s = Some (Some i, s')" "distinct is" "set is \<subseteq> used s"
  shows "inv s' \<and> distinct (i # is) \<and> set (i # is) \<subseteq> used s'"
  using assms alloc_id by auto

lemma free_list:
  assumes "inv s" "distinct is" "set is \<subseteq> used s"
  shows "inv (fold free is s) \<and> used (fold free is s) = used s - set is"
  using assms
proof (induction "is" arbitrary: s)
  case (Cons i "is")
  then have "inv (free i s)" "used (free i s) = used s - {i}" using free_id by auto
  then show ?case using Cons.IH [of "free i s"] Cons.prems by auto
qed simp

end

section \<open>The allocator meets the contract\<close>

definition sid_inv :: "nat \<Rightarrow> session_ids \<Rightarrow> bool" where
  "sid_inv b s \<longleftrightarrow> sid_used s \<subseteq> {..<2 ^ b} \<and> unat (sid_count s) = card (sid_used s) \<and> unat (sid_allocIdx s) < 2 ^ b"

definition sid_of :: "nat \<Rightarrow> session_ids \<Rightarrow> nat \<Rightarrow> u32" where
  "sid_of b s i = push_bit b (ucast (sid_server s)) OR word_of_nat i"

definition sid_live :: "nat \<Rightarrow> session_ids \<Rightarrow> u32 set" where
  "sid_live b s = sid_of b s ` sid_used s"

lemma kSessionIdMask_mask: "kSessionIdMask b = mask b"
  by (simp add: kSessionIdMask_def mask_eq_exp_minus_1 push_bit_eq_mult)

lemma unat_and_mask: "unat (x AND kSessionIdMask b) = unat x mod 2 ^ b"
proof -
  have "unat (take_bit b x) = take_bit b (unat x)" by (rule unsigned_take_bit_eq)
  moreover have "x AND kSessionIdMask b = take_bit b x" by (simp add: kSessionIdMask_mask take_bit_eq_mask)
  ultimately show ?thesis by (simp only: take_bit_nat_def)
qed

lemma pow2_le_2_24: "b \<le> 24 \<Longrightarrow> (2::nat) ^ b \<le> 2 ^ 24"
  by (intro power_increasing) auto

lemma unat_next_idx:
  assumes "b \<le> 24" "unat (i :: u32) < 2 ^ b"
  shows "unat ((i + 1) AND kSessionIdMask b) = (unat i + 1) mod 2 ^ b"
proof -
  have "unat i + 1 < 2 ^ 32" using assms pow2_le_2_24 [OF assms(1)] by simp
  then have "unat (i + 1) = unat i + 1" by (subst unat_add_lem [THEN iffD1]) simp_all
  then show ?thesis by (simp add: unat_and_mask)
qed

lemma unat_pow2_u32:
  assumes "b \<le> 24"
  shows "unat (2 ^ b :: u32) = 2 ^ b"
proof -
  have "unat (2 ^ b :: u32) = unat (word_of_nat (2 ^ b) :: u32)" by simp
  also have "\<dots> = 2 ^ b" using pow2_le_2_24 [OF assms] by (simp only: unat_of_nat) simp
  finally show ?thesis .
qed

lemma unat_kSessionIdMask: "b \<le> 24 \<Longrightarrow> unat (kSessionIdMask b) = 2 ^ b - 1"
proof -
  assume b: "b \<le> 24"
  then have p: "unat (push_bit b 1 :: u32) = 2 ^ b" by (simp add: push_bit_eq_mult unat_pow2_u32)
  then have "(push_bit b 1 :: u32) \<noteq> 0" by (metis power_not_zero unat_0 zero_neq_numeral)
  then show ?thesis using p by (simp add: kSessionIdMask_def unat_minus_one)
qed

lemma sid_find_spec:
  assumes "b \<le> 24" "unat i < 2 ^ b" "(unat i + n) mod 2 ^ b \<notin> used" "\<forall>m<n. (unat i + m) mod 2 ^ b \<in> used"
  shows "\<exists>j. sid_find b used i = Some j \<and> unat j = (unat i + n) mod 2 ^ b"
  using assms
proof (induction n arbitrary: i)
  case 0
  then show ?case by (subst sid_find.simps) simp
next
  case (Suc n)
  let ?i = "(i + 1) AND kSessionIdMask b"
  have u: "unat ?i = (unat i + 1) mod 2 ^ b" using Suc.prems unat_next_idx by blast
  have "unat i \<in> used" using Suc.prems(2,4) by (metis Nat.add_0_right mod_less zero_less_Suc)
  moreover have "(unat ?i + m) mod 2 ^ b = (unat i + Suc m) mod 2 ^ b" for m
    by (simp add: u mod_simps)
  moreover have "\<forall>m<n. (unat i + Suc m) mod 2 ^ b \<in> used" using Suc.prems(4) by blast
  ultimately show ?case using Suc.IH [of ?i] Suc.prems(1-3) u by (subst sid_find.simps) simp
qed

text \<open>Some index is free while fewer ids are used than there are indices.\<close>

lemma sid_some_free:
  fixes i :: nat
  assumes "used \<subseteq> {..<2 ^ b}" "card used < 2 ^ b" "i < 2 ^ b"
  shows "\<exists>n. (i + n) mod 2 ^ b \<notin> used \<and> (\<forall>m<n. (i + m) mod 2 ^ b \<in> used)"
proof -
  have "used \<noteq> {..<2 ^ b}" using assms(2) by auto
  then obtain j where j: "j < 2 ^ b" "j \<notin> used" using assms(1) by auto
  have "(i + (j + 2 ^ b - i)) mod 2 ^ b = j" using j(1) assms(3) by simp
  then have "\<exists>n. (i + n) mod 2 ^ b \<notin> used" using j(2) by metis
  then show ?thesis using exists_least_iff [of "\<lambda>n. (i + n) mod 2 ^ b \<notin> used"] by auto
qed

lemma unat_sid_of:
  assumes "b \<le> 24" "i < 2 ^ b"
  shows "unat (sid_of b s i) = unat (sid_server s) * 2 ^ b + i"
proof -
  have lt: "unat (sid_server s) < 2 ^ 8" using unsigned_less [of "sid_server s", where 'a = nat] by simp
  have b: "(2::nat) ^ b \<le> 2 ^ 24" using pow2_le_2_24 assms(1) by blast
  have "unat (sid_server s) * 2 ^ b \<le> 255 * 2 ^ b" using lt by (intro mult_le_mono1) simp
  then have "unat (sid_server s) * 2 ^ b + i < 256 * 2 ^ b" using assms(2) by linarith
  also have "\<dots> \<le> 2 ^ 32" using b by simp
  finally have small: "unat (sid_server s) * 2 ^ b + i < 2 ^ 32" .
  have i: "unat (word_of_nat i :: u32) = i" using assms(2) b by (simp add: unat_of_nat)
  have "sid_of b s i = push_bit b (ucast (sid_server s)) + word_of_nat i"
  proof -
    have "take_bit b (word_of_nat i :: u32) = word_of_nat i"
      using assms(2) by (simp only: take_bit_of_nat take_bit_nat_eq_self)
    then have "b \<le> n \<Longrightarrow> \<not> bit (word_of_nat i :: u32) n" for n by (metis bit_take_bit_iff not_less)
    then show ?thesis unfolding sid_of_def
      by (intro disjunctive_add [symmetric]) (auto simp: bit_push_bit_iff)
  qed
  moreover have "unat (push_bit b (ucast (sid_server s)) :: u32) = unat (sid_server s) * 2 ^ b"
    using small assms(1) unfolding push_bit_eq_mult
    by (subst unat_mult_lem [THEN iffD1]) (simp_all add: unat_ucast_small unat_pow2_u32)
  ultimately show ?thesis using small i by (simp add: unat_add_lem [THEN iffD1])
qed

lemma sid_of_inj: "b \<le> 24 \<Longrightarrow> i < 2 ^ b \<Longrightarrow> j < 2 ^ b \<Longrightarrow> sid_of b s i = sid_of b s j \<longleftrightarrow> i = j"
  using unat_sid_of [of b i s] unat_sid_of [of b j s] by (metis add_left_cancel)

lemma sid_of_idx:
  assumes "b \<le> 24" "i < 2 ^ b"
  shows "unat (sid_of b s i AND kSessionIdMask b) = i"
  using unat_sid_of [OF assms, of s] assms(2) by (simp add: unat_and_mask)

lemma sid_full_iff:
  assumes "b \<le> 24" "sid_inv b s"
  shows "sid_ifFull b s \<longleftrightarrow> card (sid_used s) = 2 ^ b"
proof -
  have "card (sid_used s) \<le> 2 ^ b" using assms(2) card_mono [of "{..<2 ^ b}" "sid_used s"] by (simp add: sid_inv_def)
  moreover have "(0::nat) < 2 ^ b" by simp
  ultimately show ?thesis using assms by (auto simp: sid_ifFull_def word_less_nat_alt unat_kSessionIdMask sid_inv_def)
qed

text \<open>What \<open>allocSessionId\<close> does on a manager that is not full: it takes the first free index from \<open>allocIdx_\<close> on.\<close>

lemma allocSessionId_step:
  assumes b: "b \<le> 24" and inv: "sid_inv b s" and nf: "\<not> sid_ifFull b s"
  shows "\<exists>n s'. allocSessionId b s = Some (Some (sid_of b s ((unat (sid_allocIdx s) + n) mod 2 ^ b)), s') \<and>
     (unat (sid_allocIdx s) + n) mod 2 ^ b \<notin> sid_used s \<and>
     (\<forall>m<n. (unat (sid_allocIdx s) + m) mod 2 ^ b \<in> sid_used s) \<and>
     sid_used s' = insert ((unat (sid_allocIdx s) + n) mod 2 ^ b) (sid_used s) \<and> sid_server s' = sid_server s \<and>
     sid_inv b s'"
proof -
  let ?i = "sid_allocIdx s"
  have sub: "sid_used s \<subseteq> {..<2 ^ b}" and cnt: "unat (sid_count s) = card (sid_used s)" and i: "unat ?i < 2 ^ b"
    using inv by (auto simp: sid_inv_def)
  have lt: "card (sid_used s) < 2 ^ b"
    using sid_full_iff [OF b inv] nf card_mono [OF _ sub] by (simp add: le_less)
  obtain n where n: "(unat ?i + n) mod 2 ^ b \<notin> sid_used s" "\<forall>m<n. (unat ?i + m) mod 2 ^ b \<in> sid_used s"
    using sid_some_free [OF sub lt i] by blast
  obtain j where j: "sid_find b (sid_used s) ?i = Some j" "unat j = (unat ?i + n) mod 2 ^ b"
    using sid_find_spec [OF b i n] by blast
  let ?s = "s\<lparr>sid_used := insert (unat j) (sid_used s), sid_count := sid_count s + 1,
            sid_allocIdx := (j + sid_interval s) AND kSessionIdMask b\<rparr>"
  have fin: "finite (sid_used s)" using sub finite_subset by blast
  have "unat (sid_count s + 1) = unat (sid_count s) + 1"
    using lt cnt pow2_le_2_24 [OF b] by (subst unat_add_lem [THEN iffD1]) simp_all
  then have "sid_inv b ?s" using sub cnt n j fin by (simp add: sid_inv_def unat_and_mask)
  moreover have "allocSessionId b s = Some (Some (sid_of b s ((unat ?i + n) mod 2 ^ b)), ?s)"
    using nf j by (simp add: allocSessionId_def sid_of_def flip: j(2))
  ultimately show ?thesis using n j by auto
qed

lemma sid_of_server: "sid_server s' = sid_server s \<Longrightarrow> sid_of b s' = sid_of b s"
  by (simp add: sid_of_def fun_eq_iff)

lemma freeSessionId_step:
  assumes b: "b \<le> 24" and inv: "sid_inv b s" and i: "i \<in> sid_live b s"
  shows "sid_live b (freeSessionId b i s) = sid_live b s - {i} \<and> sid_inv b (freeSessionId b i s)"
proof -
  obtain k where k: "k \<in> sid_used s" "i = sid_of b s k" using i by (auto simp: sid_live_def)
  have sub: "sid_used s \<subseteq> {..<2 ^ b}" using inv by (simp add: sid_inv_def)
  then have idx: "unat (i AND kSessionIdMask b) = k" using sid_of_idx [OF b] k by auto
  have fin: "finite (sid_used s)" using sub finite_subset by blast
  have pos: "0 < card (sid_used s)" using k fin by (auto simp: card_gt_0_iff)
  have "unat (sid_count s - 1) = unat (sid_count s) - 1"
    using pos inv by (intro unat_minus_one) (auto simp: sid_inv_def)
  then have "sid_inv b (freeSessionId b i s)"
    using inv idx k fin by (auto simp: freeSessionId_def Let_def sid_inv_def)
  moreover have "sid_of b s ` (sid_used s - {k}) = sid_of b s ` sid_used s - {sid_of b s k}"
    using sub k(1) sid_of_inj [OF b, of _ k s] by auto
  then have "sid_live b (freeSessionId b i s) = sid_live b s - {i}"
    using idx k by (simp add: sid_live_def freeSessionId_def Let_def sid_of_def)
  ultimately show ?thesis by simp
qed

lemma allocSessionId_id:
  assumes b: "b \<le> 24" and inv: "sid_inv b s" and a: "allocSessionId b s = Some (Some i, s')"
  shows "i \<notin> sid_live b s \<and> sid_live b s' = insert i (sid_live b s) \<and> sid_inv b s'"
proof -
  have nf: "\<not> sid_ifFull b s" using a by (auto simp: allocSessionId_def split: if_splits)
  obtain k where k: "i = sid_of b s k" "k < 2 ^ b" "k \<notin> sid_used s" "sid_used s' = insert k (sid_used s)"
    "sid_server s' = sid_server s" "sid_inv b s'"
    using allocSessionId_step [OF b inv nf] a by auto
  have "sid_used s \<subseteq> {..<2 ^ b}" using inv by (simp add: sid_inv_def)
  then have "i \<notin> sid_live b s" using k sid_of_inj [OF b k(2), of _ s] by (auto simp: sid_live_def)
  then show ?thesis using k sid_of_server [OF k(5), of b] by (simp add: sid_live_def)
qed

lemma card_sid_live: "b \<le> 24 \<Longrightarrow> sid_inv b s \<Longrightarrow> card (sid_live b s) = card (sid_used s)"
  unfolding sid_live_def by (rule card_image) (auto simp: inj_on_def sid_inv_def subset_iff sid_of_inj)

lemma sid_is_allocator:
  assumes b: "b \<le> 24"
  shows "id_allocator (allocSessionId b) (freeSessionId b) (sid_live b) (2 ^ b) (sid_inv b)"
proof
  fix s s' i
  show "sid_inv b s \<Longrightarrow> \<exists>r. allocSessionId b s = Some r"
    using allocSessionId_step [OF b, of s] by (cases "sid_ifFull b s") (auto simp: allocSessionId_def)
  show "sid_inv b s \<Longrightarrow> allocSessionId b s = Some (None, s') \<Longrightarrow> s' = s \<and> card (sid_live b s) = 2 ^ b"
    using sid_full_iff [OF b, of s] card_sid_live [OF b, of s]
    by (auto simp: allocSessionId_def bind_eq_Some_conv split: if_splits)
qed (use allocSessionId_id [OF b] freeSessionId_step [OF b] in blast)+

text \<open>The three instances of the template.\<close>

interpretation sid8: id_allocator "allocSessionId 8" "freeSessionId 8" "sid_live 8" "2 ^ 8" "sid_inv 8"
  by (rule sid_is_allocator) simp

interpretation sid16: id_allocator "allocSessionId 16" "freeSessionId 16" "sid_live 16" "2 ^ 16" "sid_inv 16"
  by (rule sid_is_allocator) simp

interpretation sid24: id_allocator "allocSessionId 24" "freeSessionId 24" "sid_live 24" "2 ^ 24" "sid_inv 24"
  by (rule sid_is_allocator) simp

section \<open>Every id handed out is fresh\<close>

text \<open>The states a manager can be in when only ids in use are given back.\<close>

inductive sid_reachable :: "nat \<Rightarrow> u8 \<Rightarrow> session_ids \<Rightarrow> bool" for b v where
  new: "sid_reachable b v (sid_new v)"
| alloc: "sid_reachable b v s \<Longrightarrow> allocSessionId b s = Some (r, s') \<Longrightarrow> sid_reachable b v s'"
| free: "sid_reachable b v s \<Longrightarrow> i \<in> sid_live b s \<Longrightarrow> sid_reachable b v (freeSessionId b i s)"
| interval: "sid_reachable b v s \<Longrightarrow> sid_reachable b v (setAllocInterval n s)"

lemma allocSessionId_server: "allocSessionId b s = Some (r, s') \<Longrightarrow> sid_server s' = sid_server s"
  by (auto simp: allocSessionId_def bind_eq_Some_conv split: if_splits)

lemma allocSessionId_none: "allocSessionId b s = Some (None, s') \<Longrightarrow> s' = s"
  by (auto simp: allocSessionId_def bind_eq_Some_conv split: if_splits)

lemma sid_reachable_inv:
  assumes "sid_reachable b v s" "b \<le> 24"
  shows "sid_inv b s \<and> sid_server s = v"
  using assms
proof (induction rule: sid_reachable.induct)
  case (alloc s r s')
  note sv = allocSessionId_server [OF alloc.hyps(2)]
  show ?case
  proof (cases r)
    case None
    then show ?thesis using alloc allocSessionId_none by blast
  next
    case (Some i)
    then have "sid_inv b s'" using allocSessionId_id [of b s i s'] alloc by blast
    then show ?thesis using sv alloc by simp
  qed
next
  case (free s i)
  then show ?case using freeSessionId_step [of b s i] by (auto simp: freeSessionId_def Let_def)
qed (auto simp: sid_inv_def sid_new_def setAllocInterval_def)

text \<open>
  C13. For every number of index bits up to 24 and in every state the server can reach,
  \<open>allocSessionId\<close> returns: the search for a free bit ends. It refuses only when all \<open>2^IBITS\<close> ids
  are in use; otherwise the id is not in use, carries the server id in the bits above the index,
  and becomes the only new id in use.
\<close>

theorem allocSessionId_fresh:
  assumes "b \<le> 24" "sid_reachable b v s"
  shows "\<exists>r s'. allocSessionId b s = Some (r, s') \<and>
     (case r of None \<Rightarrow> card (sid_live b s) = 2 ^ b \<and> s' = s
      | Some i \<Rightarrow> i \<notin> sid_live b s \<and> sid_live b s' = insert i (sid_live b s) \<and> unat i div 2 ^ b = unat v)"
proof -
  have inv: "sid_inv b s" and v: "sid_server s = v" using sid_reachable_inv [OF assms(2,1)] by auto
  show ?thesis
  proof (cases "sid_ifFull b s")
    case True
    then show ?thesis using sid_full_iff [OF assms(1) inv] card_sid_live [OF assms(1) inv]
      by (simp add: allocSessionId_def)
  next
    case False
    obtain k s' where k: "allocSessionId b s = Some (Some (sid_of b s k), s')" "k < 2 ^ b"
      using allocSessionId_step [OF assms(1) inv False] by force
    have "unat (sid_of b s k) div 2 ^ b = unat v" using unat_sid_of [OF assms(1) k(2), of s] k(2) v by simp
    then show ?thesis using allocSessionId_id [OF assms(1) inv k(1)] k(1) by auto
  qed
qed

theorem allocSessionId_fresh_witness:
  "\<exists>r s'. allocSessionId 16 (sid_new 5) = Some (r, s') \<and>
     (case r of None \<Rightarrow> card (sid_live 16 (sid_new 5)) = 2 ^ 16 \<and> s' = sid_new 5
      | Some i \<Rightarrow> i \<notin> sid_live 16 (sid_new 5) \<and> sid_live 16 s' = insert i (sid_live 16 (sid_new 5)) \<and>
          unat i div 2 ^ 16 = unat (5 :: u8))"
  by (rule allocSessionId_fresh) (simp_all add: sid_reachable.new)

end
