(* ===== verification/Stratum_Server.thy ===== *)
theory Stratum_Server
  imports Session_Safety Session_Id "HOL-Library.Multiset"
begin

text \<open>
  The connections of the stratum server (\<open>StratumServer.cc\<close>): a connection is accepted with a fresh
  session id and inserted among the others, which are ordered by their address, so that its place is an
  argument; reads, results of checks and ends of connections go to one session, new jobs, changes of the
  chain of a user and registrations to all of them. A dead session is kept until the next
  job; then its workers are unregistered and its id is given back. The tasks that other threads
  post to the event loop are events of their own, so that anything may happen before they run.
\<close>

section \<open>State\<close>

record server_state =
  sc_connections :: "(string \<times> session) list"
  sc_userInfo :: user_info
  sc_ids :: session_ids
  sc_closed :: "session list"

section \<open>Connections\<close>

text \<open>\<open>listenerCallback\<close>: without a free id the connection is closed at once.\<close>

definition listenerCallback :: "nat \<Rightarrow> session_env \<Rightarrow> u32 \<Rightarrow> nat \<Rightarrow> server_state \<Rightarrow> server_state option" where
  "listenerCallback b env ip place st = do {
     (r, ids) \<leftarrow> allocSessionId b (sc_ids st);
     Some (case r of
        None \<Rightarrow> st\<lparr>sc_ids := ids\<rparr>
      | Some sessionID \<Rightarrow> st\<lparr>sc_ids := ids, sc_connections :=
          take place (sc_connections st) @ [([], session_new env ip sessionID)] @ drop place (sc_connections st)\<rparr>) }"

text \<open>An event of one connection.\<close>

definition conn_event :: "session_env \<Rightarrow> nat \<Rightarrow> session_event \<Rightarrow> server_state \<Rightarrow> server_state option" where
  "conn_event env i ev st =
     (if i < length (sc_connections st)
      then case sc_connections st ! i of (buf, s) \<Rightarrow> do {
        (buf', ui', s') \<leftarrow> ss_step (buf, sc_userInfo st, s) (env, ev);
        Some (st\<lparr>sc_userInfo := ui', sc_connections := (sc_connections st)[i := (buf', s')]\<rparr>) }
      else Some st)"

definition readCallback :: "session_env \<Rightarrow> nat \<Rightarrow> string \<Rightarrow> server_state \<Rightarrow> server_state option" where
  "readCallback env i bytes = conn_event env i (Received bytes)"

definition removeConnection :: "session_env \<Rightarrow> nat \<Rightarrow> server_state \<Rightarrow> server_state option" where
  "removeConnection env i = conn_event env i Disconnected"

text \<open>The destructor of a session unregisters the workers of an agent.\<close>

fun unregister_all :: "u16 list \<Rightarrow> agent \<Rightarrow> dispatch_effect list" where
  "unregister_all [] ag = []"
| "unregister_all (i # is) ag = (case unregisterWorker i ag of (ag', eff) \<Rightarrow> eff @ unregister_all is ag')"

definition session_close :: "session_env \<Rightarrow> session \<Rightarrow> session option" where
  "session_close env s = (case ss_dispatcher s of
     AgentDispatcher ag \<Rightarrow> map_option (\<lambda>s'. s'\<lparr>ss_dispatcher := NullDispatcher\<rparr>) (perform env (unregister_all (map fst (ag_miners ag)) ag) s)
   | _ \<Rightarrow> Some (s\<lparr>ss_dispatcher := NullDispatcher\<rparr>))"

section \<open>Events for all connections\<close>

definition chain_of :: "session \<Rightarrow> nat" where
  "chain_of s = wk_chainId (ss_worker s)"

fun notify_grand :: "session_env \<Rightarrow> sjob_bitcoin job_ex \<Rightarrow> (string \<times> session) list \<Rightarrow> (string \<times> session) list option" where
  "notify_grand env x [] = Some []"
| "notify_grand env x ((buf, s) # cs) = do {
     s' \<leftarrow> (if ss_isGrandPoolClient s \<and> \<not> ss_isDead s \<and> chain_of s = jx_chainId x then ss_sendMiningNotify env (Some x) False s else Some s);
     cs' \<leftarrow> notify_grand env x cs;
     Some ((buf, s') # cs') }"

fun notify_loop :: "nat \<Rightarrow> session_env \<Rightarrow> sjob_bitcoin job_ex \<Rightarrow> (string \<times> session) list \<Rightarrow> session_ids \<Rightarrow> session list \<Rightarrow>
    ((string \<times> session) list \<times> session_ids \<times> session list) option" where
  "notify_loop b env x [] ids gone = Some ([], ids, gone)"
| "notify_loop b env x ((buf, s) # cs) ids gone =
     (if ss_isDead s
      then do {
        s' \<leftarrow> session_close env s;
        notify_loop b env x cs (freeSessionId b (ss_sessionId s) ids) (s' # gone) }
      else do {
        s' \<leftarrow> (if se_grandPoolEnabled env \<and> jx_isClean x \<and> ss_isGrandPoolClient s then Some s
               else if chain_of s = jx_chainId x then ss_sendMiningNotify env (Some x) False s else Some s);
        (cs', ids', gone') \<leftarrow> notify_loop b env x cs ids gone;
        Some ((buf, s') # cs', ids', gone') })"

definition sendMiningNotifyToAll :: "nat \<Rightarrow> session_env \<Rightarrow> sjob_bitcoin job_ex \<Rightarrow> server_state \<Rightarrow> server_state option" where
  "sendMiningNotifyToAll b env x st = do {
     cs \<leftarrow> (if se_grandPoolEnabled env \<and> jx_isClean x then notify_grand env x (sc_connections st) else Some (sc_connections st));
     (cs', ids, gone) \<leftarrow> notify_loop b env x cs (sc_ids st) (sc_closed st);
     Some (st\<lparr>sc_connections := cs', sc_ids := ids, sc_closed := gone\<rparr>) }"

fun switch_loop :: "session_env \<Rightarrow> user_info \<Rightarrow> string \<Rightarrow> nat \<Rightarrow> (string \<times> session) list \<Rightarrow> (nat \<times> (string \<times> session) list) option" where
  "switch_loop env ui userName newChainId [] = Some (0, [])"
| "switch_loop env ui userName newChainId ((buf, s) # cs) =
     (if ss_state s = AUTHENTICATED \<and> wk_userName (ss_worker s) = userName
      then do {
        s' \<leftarrow> (if chain_of s \<noteq> newChainId then map_option snd (ss_switchChain env newChainId ui s) else Some s);
        (n, cs') \<leftarrow> switch_loop env ui userName newChainId cs;
        Some (Suc n, (buf, s') # cs') }
      else do {
        (n, cs') \<leftarrow> switch_loop env ui userName newChainId cs;
        Some (n, (buf, s) # cs') })"

text \<open>\<open>switchChain\<close> and what the task does when the user has no sessions.\<close>

definition sv_switchChain :: "session_env \<Rightarrow> string \<Rightarrow> nat \<Rightarrow> server_state \<Rightarrow> server_state option" where
  "sv_switchChain env userName newChainId st = do {
     (onlineSessions, cs) \<leftarrow> switch_loop env (sc_userInfo st) userName newChainId (sc_connections st);
     Some (st\<lparr>sc_connections := cs, sc_userInfo := after_switch userName onlineSessions (sc_userInfo st)\<rparr>) }"

fun auto_switch_loop :: "session_env \<Rightarrow> nat \<Rightarrow> (string \<times> session) list \<Rightarrow> user_info \<Rightarrow> (nat \<times> (string \<times> session) list \<times> user_info) option" where
  "auto_switch_loop env newChainId [] ui = Some (0, [], ui)"
| "auto_switch_loop env newChainId ((buf, s) # cs) ui =
     (case (if ss_state s = AUTHENTICATED then userAutoSwitchChainEnabled (wk_userName (ss_worker s)) ui else (False, ui)) of
       (enabled, ui1) \<Rightarrow>
         if enabled \<and> chain_of s \<noteq> newChainId
         then do {
           (_, s') \<leftarrow> ss_switchChain env newChainId ui1 s;
           (n, cs', ui2) \<leftarrow> auto_switch_loop env newChainId cs ui1;
           Some (Suc n, (buf, s') # cs', ui2) }
         else do {
           (n, cs', ui2) \<leftarrow> auto_switch_loop env newChainId cs ui1;
           Some (n, (buf, s) # cs', ui2) })"

text \<open>The task of an automatic switch: if a session moved, the latest job of the new chain is sent to all its sessions.\<close>

definition sv_autoSwitchChain :: "nat \<Rightarrow> session_env \<Rightarrow> nat \<Rightarrow> server_state \<Rightarrow> server_state option" where
  "sv_autoSwitchChain b env newChainId st = do {
     (switchedSessions, cs, ui) \<leftarrow> auto_switch_loop env newChainId (sc_connections st) (sc_userInfo st);
     let st1 = st\<lparr>sc_connections := cs, sc_userInfo := ui\<rparr>;
     if switchedSessions > 0
     then (case getLatestStratumJobEx (pe_repo (se_pool env) newChainId) of
        None \<Rightarrow> Some st1
      | Some x \<Rightarrow> sendMiningNotifyToAll b env x st1)
     else Some st1 }"

fun auto_reg_loop :: "session_env \<Rightarrow> string \<Rightarrow> (string \<times> session) list \<Rightarrow> user_info \<Rightarrow> (nat \<times> (string \<times> session) list \<times> user_info) option" where
  "auto_reg_loop env userName [] ui = Some (0, [], ui)"
| "auto_reg_loop env userName ((buf, s) # cs) ui = do {
     (called, ui1, s') \<leftarrow> ss_autoRegCallback env userName (ui, s);
     (n, cs', ui2) \<leftarrow> auto_reg_loop env userName cs ui1;
     Some (if called then Suc n else n, (buf, s') # cs', ui2) }"

definition sv_autoRegCallback :: "session_env \<Rightarrow> string \<Rightarrow> server_state \<Rightarrow> server_state option" where
  "sv_autoRegCallback env userName st = do {
     (_, cs, ui) \<leftarrow> auto_reg_loop env userName (sc_connections st) (sc_userInfo st);
     Some (st\<lparr>sc_connections := cs, sc_userInfo := ui\<rparr>) }"

text \<open>The timer of a graceful stop closes connections up to and including the next authenticated one.\<close>

fun disconnect_loop :: "session_env \<Rightarrow> (string \<times> session) list \<Rightarrow> session list \<Rightarrow> ((string \<times> session) list \<times> session list) option" where
  "disconnect_loop env [] gone = Some ([], gone)"
| "disconnect_loop env ((buf, s) # cs) gone = do {
     s' \<leftarrow> session_close env s;
     if ss_state s < AUTHENTICATED then disconnect_loop env cs (s' # gone) else Some (cs, s' # gone) }"

definition disconnectCallback :: "session_env \<Rightarrow> server_state \<Rightarrow> server_state option" where
  "disconnectCallback env st = do {
     (cs, gone) \<leftarrow> disconnect_loop env (sc_connections st) (sc_closed st);
     Some (st\<lparr>sc_connections := cs, sc_closed := gone\<rparr>) }"

section \<open>Events\<close>

datatype server_event =
    Accept u32 nat
  | Read nat string
  | Close nat
  | CheckResult nat nat
  | NotifyAll "sjob_bitcoin job_ex"
  | UserEvent ui_event
  | SwitchTask string nat
  | AutoSwitchTask nat
  | AutoRegTask string
  | DisconnectTimer

fun sv_step :: "nat \<Rightarrow> server_state \<Rightarrow> session_env \<times> server_event \<Rightarrow> server_state option" where
  "sv_step b st (env, Accept ip place) = listenerCallback b env ip place st"
| "sv_step b st (env, Read i bytes) = readCallback env i bytes st"
| "sv_step b st (env, Close i) = removeConnection env i st"
| "sv_step b st (env, CheckResult i k) = conn_event env i (CheckDone k) st"
| "sv_step b st (env, NotifyAll x) = sendMiningNotifyToAll b env x st"
| "sv_step b st (env, UserEvent e) = map_option (\<lambda>ui. st\<lparr>sc_userInfo := ui\<rparr>) (ui_step (sc_userInfo st) e)"
| "sv_step b st (env, SwitchTask n c) = sv_switchChain env n c st"
| "sv_step b st (env, AutoSwitchTask c) = sv_autoSwitchChain b env c st"
| "sv_step b st (env, AutoRegTask n) = sv_autoRegCallback env n st"
| "sv_step b st (env, DisconnectTimer) = disconnectCallback env st"

section \<open>A session keeps its id\<close>

lemma sendCommonEvent_emit: "sendCommonEvent env a i n m d s = Some s' \<Longrightarrow> \<exists>es. s' = emit es s"
  by (auto simp: sendCommonEvent_def bind_eq_Some_conv)

lemma perform1_emit: "perform1 env e s = Some s' \<Longrightarrow> \<exists>es. s' = emit es s"
proof (cases e)
  case (DAddWorker a n i)
  then show "perform1 env e s = Some s' \<Longrightarrow> \<exists>es. s' = emit es s"
    using sendCommonEvent_emit by (auto simp: addWorker_def emit_def split: if_splits intro: exI [of _ "[]"])
next
  case (DRemoveWorker a n i)
  then show "perform1 env e s = Some s' \<Longrightarrow> \<exists>es. s' = emit es s"
    using sendCommonEvent_emit by (auto simp: removeWorker_def emit_def split: if_splits intro: exI [of _ "[]"])
qed (auto simp: responseTrue_def responseError_def)

lemma perform_emit: "perform env effs s = Some s' \<Longrightarrow> \<exists>es. s' = emit es s"
proof (induction effs arbitrary: s)
  case Nil
  then show ?case using emit_emit(2) [of s] by (metis option.inject perform.simps(1))
next
  case (Cons e effs)
  then obtain s1 where s1: "perform1 env e s = Some s1" "perform env effs s1 = Some s'" by (auto simp: bind_eq_Some_conv)
  then obtain es es' where "s1 = emit es s" "s' = emit es' s1" using perform1_emit Cons.IH by metis
  then show ?case by (auto simp: emit_emit)
qed

text \<open>What a notification leaves as it is.\<close>

definition same_client :: "session \<Rightarrow> session \<Rightarrow> bool" where
  "same_client s s' \<longleftrightarrow> ss_sessionId s' = ss_sessionId s \<and> ss_isDead s' = ss_isDead s \<and>
     ss_isGrandPoolClient s' = ss_isGrandPoolClient s \<and> ss_worker s' = ss_worker s \<and> ss_state s' = ss_state s"

lemma same_client_trans: "same_client a b \<Longrightarrow> same_client b c \<Longrightarrow> same_client a c"
  by (simp add: same_client_def)

lemma same_client_simps [simp]:
  "same_client s s" "same_client s (emit es t) = same_client s t" "same_client s (t\<lparr>ss_localJobs := js\<rparr>) = same_client s t"
  "same_client s (t\<lparr>ss_dispatcher := d\<rparr>) = same_client s t" "same_client s (t\<lparr>ss_shortJobIdIdx := i\<rparr>) = same_client s t"
  "same_client s (t\<lparr>ss_nextAddr := n\<rparr>) = same_client s t" "same_client s (t\<lparr>ss_nextUid := n\<rparr>) = same_client s t"
  "same_client s (t\<lparr>ss_pending := q\<rparr>) = same_client s t"
  by (simp_all add: same_client_def emit_def)

lemma perform_client: "perform env effs t = Some s' \<Longrightarrow> same_client s t \<Longrightarrow> same_client s s'"
  using perform_emit [of env effs t s'] by auto

lemma clearLocalJobs_client [simp]: "same_client s (clearLocalJobs c t) = same_client s t"
  by (auto simp: clearLocalJobs_def split: prod.splits)

lemma ss_sendMiningNotify_client: "ss_sendMiningNotify env x f s = Some s' \<Longrightarrow> same_client s s'"
  by (auto simp: ss_sendMiningNotify_def addLocalJob_def allocShortJobId_def Let_def bind_eq_Some_conv elim!: perform_client
      split: option.splits if_splits)

definition same_id :: "session \<Rightarrow> session \<Rightarrow> bool" where
  "same_id s s' \<longleftrightarrow> ss_sessionId s' = ss_sessionId s"

lemma same_id_trans: "same_id a b \<Longrightarrow> same_id b c \<Longrightarrow> same_id a c"
  by (simp add: same_id_def)

lemma same_id_client: "same_client s s' \<Longrightarrow> same_id s s'"
  by (simp add: same_client_def same_id_def)

lemma same_id_simps [simp]:
  "same_id s s" "same_id s (emit es t) = same_id s t" "same_id s (t\<lparr>ss_localJobs := js\<rparr>) = same_id s t"
  "same_id s (t\<lparr>ss_dispatcher := d\<rparr>) = same_id s t" "same_id s (t\<lparr>ss_shortJobIdIdx := i\<rparr>) = same_id s t"
  "same_id s (t\<lparr>ss_nextAddr := n\<rparr>) = same_id s t" "same_id s (t\<lparr>ss_nextUid := n\<rparr>) = same_id s t"
  "same_id s (t\<lparr>ss_pending := q\<rparr>) = same_id s t" "same_id s (t\<lparr>ss_worker := wk\<rparr>) = same_id s t"
  "same_id s (t\<lparr>ss_state := z\<rparr>) = same_id s t" "same_id s (t\<lparr>ss_savedAuthorizeInfo := ai\<rparr>) = same_id s t"
  "same_id s (t\<lparr>ss_isDead := dd\<rparr>) = same_id s t" "same_id s (t\<lparr>ss_proxy := p\<rparr>) = same_id s t"
  "same_id s (t\<lparr>ss_clientIpInt := ip\<rparr>) = same_id s t" "same_id s (t\<lparr>ss_versionMask := vm\<rparr>) = same_id s t"
  "same_id s (t\<lparr>ss_suggestedMinDiff := sm\<rparr>) = same_id s t" "same_id s (t\<lparr>ss_suggestedDiff := sd\<rparr>) = same_id s t"
  "same_id s (responseTrue idStr t) = same_id s t" "same_id s (responseError idStr c t) = same_id s t" "same_id s (setClientAgent env a t) = same_id s t"
  by (simp_all add: same_id_def emit_def responseTrue_def responseError_def setClientAgent_def Let_def)

lemma perform_id: "perform env effs t = Some s' \<Longrightarrow> same_id s t \<Longrightarrow> same_id s s'"
  using perform_emit [of env effs t s'] by auto

lemma sendCommonEvent_id: "sendCommonEvent env a i n m d t = Some s' \<Longrightarrow> same_id s t \<Longrightarrow> same_id s s'"
  using sendCommonEvent_emit [of env a i n m d t s'] by auto

lemma ss_sendMiningNotify_id: "ss_sendMiningNotify env x f t = Some s' \<Longrightarrow> same_id s t \<Longrightarrow> same_id s s'"
  using ss_sendMiningNotify_client [of env x f t s'] same_id_client same_id_trans by blast

lemma ss_switchChain_id: "ss_switchChain env c ui t = Some (b, s') \<Longrightarrow> same_id s t \<Longrightarrow> same_id s s'"
  by (auto simp: ss_switchChain_def Let_def bind_eq_Some_conv split: if_splits elim!: perform_id sendCommonEvent_id)

lemma setDefaultDifficulty_id: "setDefaultDifficultyFromPassword p t = Some s' \<Longrightarrow> same_id s t \<Longrightarrow> same_id s s'"
  by (auto simp: setDefaultDifficultyFromPassword_def bind_eq_Some_conv split: prod.splits)

lemma authorize_success_id: "authorize_success env i p c t = Some s' \<Longrightarrow> same_id s t \<Longrightarrow> same_id s s'"
  by (auto simp: authorize_success_def Let_def bind_eq_Some_conv split: if_splits elim!: ss_sendMiningNotify_id setDefaultDifficulty_id)

lemma checkUserAndPwd_id: "checkUserAndPwd env i n p a (ui, t) = Some (ui', s') \<Longrightarrow> same_id s t \<Longrightarrow> same_id s s'"
  by (auto simp: checkUserAndPwd_def Let_def bind_eq_Some_conv split: if_splits prod.splits option.splits
      elim!: authorize_success_id ss_switchChain_id)

lemma ss_autoRegCallback_id: "ss_autoRegCallback env n (ui, t) = Some (b, ui', s') \<Longrightarrow> same_id s t \<Longrightarrow> same_id s s'"
  by (auto simp: ss_autoRegCallback_def bind_eq_Some_conv split: option.splits if_splits elim!: checkUserAndPwd_id)

lemma markAsDead_id: "markAsDead env t = Some s' \<Longrightarrow> same_id s t \<Longrightarrow> same_id s s'"
  by (auto simp: markAsDead_def Let_def bind_eq_Some_conv split: if_splits elim!: sendCommonEvent_id)

lemma configure_loop_id: "configure_loop a q exts r t = Some (r', s') \<Longrightarrow> same_id s t \<Longrightarrow> same_id s s'"
proof (induction a q exts r t rule: configure_loop.induct)
  case (2 allowed options ext exts results t)
  then show ?case by (auto simp: Let_def bind_eq_Some_conv split: if_splits)
qed simp

lemma add_pending_id [simp]: "same_id s (add_pending p t) = same_id s t"
  by (simp add: add_pending_def split: option.split)

lemma handleRequest_Submit_id: "handleRequest_Submit env i ps u m t = Some s' \<Longrightarrow> same_id s t \<Longrightarrow> same_id s s'"
proof -
  obtain r where r: "json_submit (mi_isNiceHashClient m) (ss_isGrandPoolClient t) i ps = Some r" using json_submit_returns by blast
  show "handleRequest_Submit env i ps u m t = Some s' \<Longrightarrow> same_id s t \<Longrightarrow> same_id s s'"
    by (cases r) (auto simp: handleRequest_Submit_def r bind_eq_Some_conv split: if_splits elim!: perform_id)
qed

lemma handleRequest_others_id:
  "same_id s t \<Longrightarrow> same_id s (handleRequest_Subscribe env i ps t)"
  "handleRequest_Authorize env i ps (ui, t) = Some (ui', s') \<Longrightarrow> same_id s t \<Longrightarrow> same_id s s'"
  "handleRequest_SuggestTarget env i ps t = Some s' \<Longrightarrow> same_id s t \<Longrightarrow> same_id s s'"
  "handleRequest_MiningConfigure env i ps t = Some s' \<Longrightarrow> same_id s t \<Longrightarrow> same_id s s'"
  "handleRequest_AgentGetCapabilities i ps t = Some s' \<Longrightarrow> same_id s t \<Longrightarrow> same_id s s'"
proof -
  show "same_id s t \<Longrightarrow> same_id s (handleRequest_Subscribe env i ps t)"
    by (auto simp: handleRequest_Subscribe_def Let_def split: list.splits)
  show "handleRequest_Authorize env i ps (ui, t) = Some (ui', s') \<Longrightarrow> same_id s t \<Longrightarrow> same_id s s'"
    by (auto simp: handleRequest_Authorize_def split: if_splits list.splits elim!: checkUserAndPwd_id)
  show "handleRequest_SuggestTarget env i ps t = Some s' \<Longrightarrow> same_id s t \<Longrightarrow> same_id s s'"
    by (auto simp: handleRequest_SuggestTarget_def bind_eq_Some_conv split: if_splits list.splits)
  show "handleRequest_MiningConfigure env i ps t = Some s' \<Longrightarrow> same_id s t \<Longrightarrow> same_id s s'"
    by (auto simp: handleRequest_MiningConfigure_def Let_def bind_eq_Some_conv split: if_splits list.splits elim!: configure_loop_id)
  show "handleRequest_AgentGetCapabilities i ps t = Some s' \<Longrightarrow> same_id s t \<Longrightarrow> same_id s s'"
    by (auto simp: handleRequest_AgentGetCapabilities_def Let_def bind_eq_Some_conv split: if_splits)
qed

lemma handleRequest_id: "handleRequest env i mth ps (ui, t) = Some (ui', s') \<Longrightarrow> same_id s t \<Longrightarrow> same_id s s'"
  by (auto simp: handleRequest_def split: if_splits dispatcher.splits elim!: handleRequest_others_id handleRequest_Submit_id
      simp: handleRequest_others_id)

lemma proxy_check_id: "proxy_check env l t = (b, s') \<Longrightarrow> same_id s t \<Longrightarrow> same_id s s'"
  by (auto simp: proxy_check_def split: if_splits list.splits option.splits)

lemma handleLine_id: "handleLine env l (ui, t) = Some (ui', s') \<Longrightarrow> same_id s t \<Longrightarrow> same_id s s'"
  by (auto simp: handleLine_def Let_def split: if_splits prod.splits bool.splits option.splits elim!: handleRequest_id dest: proxy_check_id)

lemma handleExMessage_id: "handleExMessage env x t = Some s' \<Longrightarrow> same_id s t \<Longrightarrow> same_id s s'"
  by (auto simp: handleExMessage_def bind_eq_Some_conv split: dispatcher.splits elim!: perform_id)

lemma ss_handle_id: "ss_handle env (ui, t) m = Some (ui', s') \<Longrightarrow> same_id s t \<Longrightarrow> same_id s s'"
  by (cases m) (auto elim!: handleLine_id handleExMessage_id)

lemma ss_handle_run_id: "run (ss_handle env) (ui, t) ms = Some (ui', s') \<Longrightarrow> same_id s t \<Longrightarrow> same_id s s'"
proof (induction ms arbitrary: ui t)
  case (Cons m ms)
  then show ?case using ss_handle_id [of env ui t m] by (auto split: option.splits)
qed simp

lemma check_done_id: "check_done env k t = Some s' \<Longrightarrow> same_id s t \<Longrightarrow> same_id s s'"
  by (auto simp: check_done_def Let_def bind_eq_Some_conv split: if_splits prod.splits option.splits elim!: perform_id)

lemma ss_step_id:
  assumes "ss_step (buf, ui, s) (env, ev) = Some (buf', ui', s')"
  shows "same_id s s'"
proof (cases ev)
  case (Received bytes)
  then show ?thesis using assms by (auto simp: readBuf_def read_loop_run elim!: ss_handle_run_id)
qed (use assms in \<open>auto elim!: check_done_id ss_sendMiningNotify_id ss_switchChain_id ss_autoRegCallback_id markAsDead_id\<close>)

section \<open>All connections\<close>

definition conn_ids :: "(string \<times> session) list \<Rightarrow> u32 list" where
  "conn_ids cs = map (\<lambda>c. ss_sessionId (snd c)) cs"

definition conns_ok :: "nat \<Rightarrow> int \<Rightarrow> (string \<times> session) list \<Rightarrow> bool" where
  "conns_ok k w cs \<longleftrightarrow> (\<forall>c\<in>set cs. ss_inv k w (snd c))"

lemma conns_simps [simp]:
  "conns_ok k w []" "conns_ok k w (c # cs) \<longleftrightarrow> ss_inv k w (snd c) \<and> conns_ok k w cs" "conns_ok k w (as @ cs) \<longleftrightarrow> conns_ok k w as \<and> conns_ok k w cs"
  "conn_ids [] = []" "conn_ids (c # cs) = ss_sessionId (snd c) # conn_ids cs" "conn_ids (as @ cs) = conn_ids as @ conn_ids cs"
  by (auto simp: conns_ok_def conn_ids_def)

lemma same_id_eq: "same_id s s' \<Longrightarrow> ss_sessionId s' = ss_sessionId s"
  by (simp add: same_id_def)

text \<open>The session after a notification, and the two passes over the connections.\<close>

definition notified :: "session_env \<Rightarrow> sjob_bitcoin job_ex \<Rightarrow> session \<Rightarrow> session" where
  "notified env x s = (if chain_of s = jx_chainId x then the (ss_sendMiningNotify env (Some x) False s) else s)"

lemma notified_ok:
  assumes "ss_inv k w s" "se_ok k w env" "jx_chainId x < k"
  shows "chain_of s = jx_chainId x \<Longrightarrow> ss_sendMiningNotify env (Some x) False s = Some (notified env x s)"
    "ss_inv k w (notified env x s)" "same_client s (notified env x s)"
proof -
  obtain s' where "ss_sendMiningNotify env (Some x) False s = Some s'" "ss_inv k w s'"
    using ss_sendMiningNotify_ok [OF assms(1,2), of "Some x" False] assms(3) by auto
  then show "chain_of s = jx_chainId x \<Longrightarrow> ss_sendMiningNotify env (Some x) False s = Some (notified env x s)"
    "ss_inv k w (notified env x s)" "same_client s (notified env x s)"
    using assms(1) ss_sendMiningNotify_client by (auto simp: notified_def)
qed

definition grand_pass :: "session_env \<Rightarrow> sjob_bitcoin job_ex \<Rightarrow> string \<times> session \<Rightarrow> string \<times> session" where
  "grand_pass env x c = (if ss_isGrandPoolClient (snd c) \<and> \<not> ss_isDead (snd c) then apsnd (notified env x) c else c)"

lemma notify_grand_eq:
  assumes "conns_ok k w cs" "se_ok k w env" "jx_chainId x < k"
  shows "notify_grand env x cs = Some (map (grand_pass env x) cs)"
  using assms(1)
proof (induction cs)
  case (Cons c cs)
  obtain buf s where c: "c = (buf, s)" by fastforce
  have "(if ss_isGrandPoolClient s \<and> \<not> ss_isDead s \<and> chain_of s = jx_chainId x then ss_sendMiningNotify env (Some x) False s else Some s) =
      Some (snd (grand_pass env x (buf, s)))"
    using notified_ok(1) [OF _ assms(2,3), of s] Cons.prems c by (auto simp: grand_pass_def notified_def)
  then show ?case using Cons c by (simp add: grand_pass_def [of env x "(buf, s)"])
qed simp

lemma session_close_returns:
  assumes "ss_inv k w s"
  shows "\<exists>s'. session_close env s = Some s'"
proof (cases "ss_dispatcher s")
  case (AgentDispatcher ag)
  then show ?thesis using perform_inv [OF assms, of env "unregister_all (map fst (ag_miners ag)) ag"] by (auto simp: session_close_def)
qed (simp_all add: session_close_def)

definition second_pass :: "session_env \<Rightarrow> sjob_bitcoin job_ex \<Rightarrow> string \<times> session \<Rightarrow> string \<times> session" where
  "second_pass env x c = (if se_grandPoolEnabled env \<and> jx_isClean x \<and> ss_isGrandPoolClient (snd c) then c else apsnd (notified env x) c)"

definition alive :: "string \<times> session \<Rightarrow> bool" where
  "alive c \<longleftrightarrow> \<not> ss_isDead (snd c)"

lemma notify_loop_eq:
  assumes "conns_ok k w cs" "se_ok k w env" "jx_chainId x < k"
  shows "\<exists>gone'. notify_loop b env x cs ids gone =
    Some (map (second_pass env x) (filter alive cs), fold (freeSessionId b) (conn_ids (filter (\<lambda>c. \<not> alive c) cs)) ids, gone')"
  using assms(1)
proof (induction cs arbitrary: ids gone)
  case (Cons c cs)
  obtain buf s where c: "c = (buf, s)" by fastforce
  have s: "ss_inv k w s" using Cons.prems c by simp
  show ?case
  proof (cases "ss_isDead s")
    case True
    obtain s' where "session_close env s = Some s'" using session_close_returns [OF s] by blast
    then show ?thesis using Cons True c by (simp add: alive_def)
  next
    case False
    obtain gone' where g: "notify_loop b env x cs ids gone =
        Some (map (second_pass env x) (filter alive cs), fold (freeSessionId b) (conn_ids (filter (\<lambda>c. \<not> alive c) cs)) ids, gone')"
      using Cons by fastforce
    have "(if se_grandPoolEnabled env \<and> jx_isClean x \<and> ss_isGrandPoolClient s then Some s
        else if chain_of s = jx_chainId x then ss_sendMiningNotify env (Some x) False s else Some s) = Some (snd (second_pass env x (buf, s)))"
      using notified_ok(1) [OF s assms(2,3)] by (auto simp: second_pass_def notified_def)
    then show ?thesis using False c g by (simp add: alive_def [of "(buf, s)"] second_pass_def [of env x "(buf, s)"])
  qed
qed simp

lemma two_passes:
  assumes "conns_ok k w cs" "se_ok k w env" "jx_chainId x < k" "se_grandPoolEnabled env \<and> jx_isClean x"
  shows "conns_ok k w (map (grand_pass env x) cs)"
    "map (second_pass env x) (filter alive (map (grand_pass env x) cs)) = map (apsnd (notified env x)) (filter alive cs)"
    "filter (\<lambda>c. \<not> alive c) (map (grand_pass env x) cs) = filter (\<lambda>c. \<not> alive c) cs"
proof -
  have g: "ss_inv k w (snd (grand_pass env x c))" "alive (grand_pass env x c) = alive c"
      "\<not> alive c \<Longrightarrow> grand_pass env x c = c" "alive c \<Longrightarrow> second_pass env x (grand_pass env x c) = apsnd (notified env x) c"
    if "ss_inv k w (snd c)" for c
    using notified_ok(2,3) [OF that assms(2,3)] that assms(4)
    by (auto simp: grand_pass_def second_pass_def alive_def same_client_def)
  show "conns_ok k w (map (grand_pass env x) cs)" using assms(1) g(1) by (auto simp: conns_ok_def)
  show "map (second_pass env x) (filter alive (map (grand_pass env x) cs)) = map (apsnd (notified env x)) (filter alive cs)"
    using assms(1) g(2,4) by (induction cs) simp_all
  show "filter (\<lambda>c. \<not> alive c) (map (grand_pass env x) cs) = filter (\<lambda>c. \<not> alive c) cs"
    using assms(1) g(2,3) by (induction cs) simp_all
qed

lemma sendMiningNotifyToAll_eq:
  assumes ok: "conns_ok k w (sc_connections st)" "se_ok k w env" "jx_chainId x < k"
  shows "\<exists>gone. sendMiningNotifyToAll b env x st = Some (st\<lparr>
      sc_connections := map (apsnd (notified env x)) (filter alive (sc_connections st)),
      sc_ids := fold (freeSessionId b) (conn_ids (filter (\<lambda>c. \<not> alive c) (sc_connections st))) (sc_ids st), sc_closed := gone\<rparr>)"
proof (cases "se_grandPoolEnabled env \<and> jx_isClean x")
  case True
  note p = two_passes [OF ok True]
  show ?thesis using notify_loop_eq [OF p(1) ok(2,3), of b "sc_ids st" "sc_closed st"] notify_grand_eq [OF ok] True p(2,3)
    by (auto simp: sendMiningNotifyToAll_def)
next
  case False
  then have "second_pass env x = apsnd (notified env x)" by (auto simp: second_pass_def fun_eq_iff)
  then show ?thesis using notify_loop_eq [OF ok, of b "sc_ids st" "sc_closed st"] False
    by (auto simp: sendMiningNotifyToAll_def)
qed

lemma notified_all_ok:
  assumes "conns_ok k w cs" "se_ok k w env" "jx_chainId x < k"
  shows "conns_ok k w (map (apsnd (notified env x)) cs)" "conn_ids (map (apsnd (notified env x)) cs) = conn_ids cs"
  using assms(1) notified_ok(2,3) [OF _ assms(2,3)] by (auto simp: conns_ok_def conn_ids_def same_client_def)

lemma switch_loop_ok:
  assumes "ui_wf k dir ui" "c < k" "conns_ok k w cs"
  shows "\<exists>n cs'. switch_loop env ui u c cs = Some (n, cs') \<and> conns_ok k w cs' \<and> conn_ids cs' = conn_ids cs"
  using assms(3)
proof (induction cs)
  case (Cons x cs)
  obtain buf s where x: "x = (buf, s)" by fastforce
  obtain n cs' where l: "switch_loop env ui u c cs = Some (n, cs')" "conns_ok k w cs'" "conn_ids cs' = conn_ids cs" using Cons by auto
  have "ss_inv k w s" using Cons.prems x by simp
  then obtain b s' where s: "ss_switchChain env c ui s = Some (b, s')" "ss_inv k w s'" using ss_switchChain_ok [OF _ assms(1,2)] by blast
  have "ss_sessionId s' = ss_sessionId s" using ss_switchChain_id [OF s(1) same_id_simps(1)] by (rule same_id_eq)
  then show ?case using Cons.prems x l s by auto
qed simp

lemma auto_switch_loop_ok:
  assumes "0 < k" "c < k" "conns_ok k w cs" "ui_wf k dir ui"
  shows "\<exists>n cs' ui'. auto_switch_loop env c cs ui = Some (n, cs', ui') \<and> conns_ok k w cs' \<and> conn_ids cs' = conn_ids cs \<and> ui_wf k dir ui'"
  using assms(3,4)
proof (induction cs arbitrary: ui)
  case (Cons x cs)
  obtain buf s where x: "x = (buf, s)" by fastforce
  obtain e ui1 where e: "(if ss_state s = AUTHENTICATED then userAutoSwitchChainEnabled (wk_userName (ss_worker s)) ui else (False, ui)) = (e, ui1)"
    by fastforce
  have ui1: "ui_wf k dir ui1" using userAutoSwitchChainEnabled_wf [OF assms(1) Cons.prems(2), of "wk_userName (ss_worker s)"] Cons.prems(2) e
    by (auto split: if_splits)
  obtain n cs' ui' where l: "auto_switch_loop env c cs ui1 = Some (n, cs', ui')" "conns_ok k w cs'" "conn_ids cs' = conn_ids cs" "ui_wf k dir ui'"
    using Cons.IH [OF _ ui1] Cons.prems by auto
  have "ss_inv k w s" using Cons.prems x by simp
  then obtain b s' where s: "ss_switchChain env c ui1 s = Some (b, s')" "ss_inv k w s'" using ss_switchChain_ok [OF _ ui1 assms(2)] by blast
  have "ss_sessionId s' = ss_sessionId s" using ss_switchChain_id [OF s(1) same_id_simps(1)] by (rule same_id_eq)
  then show ?case using Cons.prems x l s by (simp add: e)
qed simp

lemma auto_reg_loop_ok:
  assumes "se_ok k w env" "conns_ok k w cs" "ui_wf k dir ui"
  shows "\<exists>n cs' ui'. auto_reg_loop env u cs ui = Some (n, cs', ui') \<and> conns_ok k w cs' \<and> conn_ids cs' = conn_ids cs \<and> ui_wf k dir ui'"
  using assms(2,3)
proof (induction cs arbitrary: ui)
  case (Cons x cs)
  obtain buf s where x: "x = (buf, s)" by fastforce
  have i: "ss_inv k w s" using Cons.prems x by simp
  obtain b ui1 s' where s: "ss_autoRegCallback env u (ui, s) = Some (b, ui1, s')" "ui_wf k dir ui1" "ss_inv k w s'"
    using ss_autoRegCallback_ok [OF Cons.prems(2) i assms(1)] by blast
  have "ss_sessionId s' = ss_sessionId s" using ss_autoRegCallback_id [OF s(1) same_id_simps(1)] by (rule same_id_eq)
  then show ?case using Cons.IH [OF _ s(2)] Cons.prems x s by auto
qed simp

lemma disconnect_loop_ok:
  assumes "conns_ok k w cs"
  shows "\<exists>n gone'. disconnect_loop env cs gone = Some (drop n cs, gone')"
  using assms
proof (induction cs arbitrary: gone)
  case (Cons x cs)
  obtain buf s where x: "x = (buf, s)" by fastforce
  then obtain s' where s: "session_close env s = Some s'" using session_close_returns [of k w s env] Cons.prems by auto
  show ?case
  proof (cases "ss_state s < AUTHENTICATED")
    case True
    obtain n gone' where "disconnect_loop env cs (s' # gone) = Some (drop n cs, gone')" using Cons by fastforce
    then show ?thesis using True x s by (auto intro: exI [of _ "Suc n"])
  next
    case False
    then show ?thesis using x s by (auto intro: exI [of _ 1])
  qed
qed simp

section \<open>Runs of the server\<close>

text \<open>
  The connections have different ids, all in use. With \<open>t\<close> the timer of a graceful stop may run,
  which gives no id back; without it exactly the ids of the connections are in use.
\<close>

definition ids_inv :: "nat \<Rightarrow> bool \<Rightarrow> u32 list \<Rightarrow> session_ids \<Rightarrow> bool" where
  "ids_inv b t is ids \<longleftrightarrow> sid_inv b ids \<and> distinct is \<and> set is \<subseteq> sid_live b ids \<and> (\<not> t \<longrightarrow> sid_live b ids \<subseteq> set is)"

definition sv_inv :: "nat \<Rightarrow> nat \<Rightarrow> int \<Rightarrow> string \<Rightarrow> bool \<Rightarrow> server_state \<Rightarrow> bool" where
  "sv_inv b k w dir t st \<longleftrightarrow> b \<le> 24 \<and> 0 < k \<and> ui_wf k dir (sc_userInfo st) \<and> conns_ok k w (sc_connections st) \<and>
     ids_inv b t (conn_ids (sc_connections st)) (sc_ids st)"

definition sv_ok :: "nat \<Rightarrow> int \<Rightarrow> string \<Rightarrow> bool \<Rightarrow> session_env \<times> server_event \<Rightarrow> bool" where
  "sv_ok k w dir t e \<longleftrightarrow> (case e of (env, ev) \<Rightarrow> se_ok k w env \<and> (case ev of
     NotifyAll x \<Rightarrow> jx_chainId x < k | UserEvent u \<Rightarrow> ui_ok k dir u | SwitchTask _ c \<Rightarrow> c < k | AutoSwitchTask c \<Rightarrow> c < k
   | DisconnectTimer \<Rightarrow> t | _ \<Rightarrow> True))"

definition sv_bad :: "server_state \<Rightarrow> session_env \<times> server_event \<Rightarrow> bool" where
  "sv_bad st e \<longleftrightarrow> (case e of (env, Read i bytes) \<Rightarrow> i < length (sc_connections st) \<and>
     ss_bad (fst (sc_connections st ! i), sc_userInfo st, snd (sc_connections st ! i)) (env, Received bytes) | _ \<Rightarrow> False)"

lemma ids_inv_alloc:
  assumes "ids_inv b t (conn_ids (sc_connections st)) (sc_ids st)" "b \<le> 24"
  shows "\<exists>st'. listenerCallback b env ip place st = Some st' \<and> ids_inv b t (conn_ids (sc_connections st')) (sc_ids st') \<and>
    sc_userInfo st' = sc_userInfo st \<and> (sc_connections st' = sc_connections st \<or>
      (\<exists>i. sc_connections st' = take place (sc_connections st) @ [([], session_new env ip i)] @ drop place (sc_connections st)))"
proof -
  note A = sid_is_allocator [OF assms(2)]
  have inv: "sid_inv b (sc_ids st)" using assms(1) by (simp add: ids_inv_def)
  obtain r ids where a: "allocSessionId b (sc_ids st) = Some (r, ids)" using id_allocator.alloc_returns [OF A inv] by auto
  show ?thesis
  proof (cases r)
    case None
    then show ?thesis using a assms(1) id_allocator.alloc_full [OF A inv, of ids] by (auto simp: listenerCallback_def)
  next
    case (Some i)
    let ?is = "conn_ids (sc_connections st)"
    have "sid_inv b ids \<and> distinct (i # ?is) \<and> set (i # ?is) \<subseteq> sid_live b ids"
      using id_allocator.alloc_distinct [OF A inv, of i ids ?is] a Some assms(1) by (simp add: ids_inv_def)
    moreover have "sid_live b ids = insert i (sid_live b (sc_ids st))" using id_allocator.alloc_id [OF A inv, of i ids] a Some by simp
    moreover have "conn_ids (take place (sc_connections st) @ [([], session_new env ip i)] @ drop place (sc_connections st)) =
        take place ?is @ [i] @ drop place ?is" by (simp add: conn_ids_def take_map drop_map session_new_def)
    moreover have m: "mset (take place ?is @ [i] @ drop place ?is) = mset (i # ?is)" using mset_append [of "take place ?is" "drop place ?is"] by simp
    note mset_eq_setD [OF m] mset_eq_imp_distinct_iff [OF m]
    ultimately have "ids_inv b t (conn_ids (take place (sc_connections st) @ [([], session_new env ip i)] @ drop place (sc_connections st))) ids"
      using assms(1) by (auto simp: ids_inv_def)
    then show ?thesis using a Some by (auto simp: listenerCallback_def)
  qed
qed

lemma ids_inv_free:
  assumes "ids_inv b t (conn_ids cs) ids" "b \<le> 24"
  shows "ids_inv b t (conn_ids (filter alive cs)) (fold (freeSessionId b) (conn_ids (filter (\<lambda>c. \<not> alive c) cs)) ids)"
proof -
  let ?d = "conn_ids (filter (\<lambda>c. \<not> alive c) cs)" and ?a = "conn_ids (filter alive cs)"
  have s: "set (conn_ids cs) = set ?a \<union> set ?d" by (auto simp: conn_ids_def)
  have d: "distinct ?d" "distinct ?a" using assms(1) by (auto simp: ids_inv_def conn_ids_def distinct_map_filter)
  have "set ?a \<inter> set ?d = {}"
  proof -
    have "inj_on (\<lambda>c. ss_sessionId (snd c)) (set cs)" using assms(1) by (simp add: ids_inv_def conn_ids_def distinct_map)
    then show ?thesis by (auto simp: conn_ids_def dest: inj_onD)
  qed
  moreover have "sid_inv b (fold (freeSessionId b) ?d ids) \<and> sid_live b (fold (freeSessionId b) ?d ids) = sid_live b ids - set ?d"
    using id_allocator.free_list [OF sid_is_allocator [OF assms(2)], of ids ?d] assms(1) d s by (auto simp: ids_inv_def)
  ultimately show ?thesis using assms(1) d s by (auto simp: ids_inv_def)
qed

lemma conn_event_guarded:
  assumes inv: "sv_inv b k w dir t st" and ok: "ss_event_ok k w (env, ev)"
  shows "if i < length (sc_connections st) \<and> ss_bad (fst (sc_connections st ! i), sc_userInfo st, snd (sc_connections st ! i)) (env, ev)
    then conn_event env i ev st = None else \<exists>st'. conn_event env i ev st = Some st' \<and> sv_inv b k w dir t st'"
proof (cases "i < length (sc_connections st)")
  case True
  obtain buf s where c: "sc_connections st ! i = (buf, s)" by fastforce
  have "(buf, s) \<in> set (sc_connections st)" using True c nth_mem by metis
  then have s: "ss_inv k w s" using inv by (auto simp: sv_inv_def conns_ok_def)
  then have "st_inv k w dir (buf, sc_userInfo st, s)" using inv by (simp add: st_inv_def sv_inv_def)
  note g = ss_step_guarded [OF this ok]
  show ?thesis
  proof (cases "ss_bad (buf, sc_userInfo st, s) (env, ev)")
    case True
    then show ?thesis using g \<open>i < length (sc_connections st)\<close> c by (simp add: conn_event_def)
  next
    case False
    then obtain buf' ui' s' where n: "ss_step (buf, sc_userInfo st, s) (env, ev) = Some (buf', ui', s')" "ui_wf k dir ui'" "ss_inv k w s'"
      using g by (auto simp: st_inv_def)
    have "ss_sessionId s' = ss_sessionId s" using ss_step_id [OF n(1)] by (rule same_id_eq)
    then have "conn_ids ((sc_connections st)[i := (buf', s')]) = conn_ids (sc_connections st)"
      using True c by (simp add: conn_ids_def map_update list_update_same_conv)
    moreover have "conns_ok k w ((sc_connections st)[i := (buf', s')])"
      using inv n(3) by (auto simp: sv_inv_def conns_ok_def dest!: set_update_subset_insert [THEN subsetD])
    ultimately show ?thesis using False True c n inv by (simp add: conn_event_def sv_inv_def)
  qed
next
  case False
  then show ?thesis using inv by (simp add: conn_event_def)
qed

lemma sendMiningNotifyToAll_ok:
  assumes "sv_inv b k w dir t st" "se_ok k w env" "jx_chainId x < k"
  shows "\<exists>st'. sendMiningNotifyToAll b env x st = Some st' \<and> sv_inv b k w dir t st'"
proof -
  have c: "conns_ok k w (sc_connections st)" "b \<le> 24" "ids_inv b t (conn_ids (sc_connections st)) (sc_ids st)" using assms(1) by (simp_all add: sv_inv_def)
  have "conns_ok k w (filter alive (sc_connections st))" using c(1) by (auto simp: conns_ok_def)
  note n = notified_all_ok [OF this assms(2,3)]
  show ?thesis using sendMiningNotifyToAll_eq [OF c(1) assms(2,3), of b] n ids_inv_free [OF c(3,2)] assms(1) by (auto simp: sv_inv_def)
qed

lemma sv_autoSwitchChain_ok:
  assumes inv: "sv_inv b k w dir t st" and env: "se_ok k w env" and c: "c < k"
  shows "\<exists>st'. sv_autoSwitchChain b env c st = Some st' \<and> sv_inv b k w dir t st'"
proof -
  have k: "0 < k" "conns_ok k w (sc_connections st)" "ui_wf k dir (sc_userInfo st)" using inv by (simp_all add: sv_inv_def)
  obtain n cs ui where l: "auto_switch_loop env c (sc_connections st) (sc_userInfo st) = Some (n, cs, ui)" "conns_ok k w cs"
    "conn_ids cs = conn_ids (sc_connections st)" "ui_wf k dir ui" using auto_switch_loop_ok [OF k(1) c k(2,3)] by blast
  let ?st = "st\<lparr>sc_connections := cs, sc_userInfo := ui\<rparr>"
  have i: "sv_inv b k w dir t ?st" using inv l by (simp add: sv_inv_def)
  have "jx_chainId x < k" if "getLatestStratumJobEx (pe_repo (se_pool env) c) = Some x" for x using env that by (auto simp: se_ok_def)
  then show ?thesis using l i sendMiningNotifyToAll_ok [OF i env] by (auto simp: sv_autoSwitchChain_def Let_def split: option.split)
qed

lemma disconnectCallback_ok:
  assumes "sv_inv b k w dir True st"
  shows "\<exists>st'. disconnectCallback env st = Some st' \<and> sv_inv b k w dir True st'"
proof -
  have c: "conns_ok k w (sc_connections st)" using assms by (simp add: sv_inv_def)
  obtain n gone where d: "disconnect_loop env (sc_connections st) (sc_closed st) = Some (drop n (sc_connections st), gone)"
    using disconnect_loop_ok [OF c] by blast
  have "conn_ids (drop n (sc_connections st)) = drop n (conn_ids (sc_connections st))" by (simp add: conn_ids_def drop_map)
  then show ?thesis using assms d
    by (auto simp: disconnectCallback_def sv_inv_def ids_inv_def conns_ok_def dest: in_set_dropD)
qed

lemma sv_step_guarded:
  assumes inv: "sv_inv b k w dir t st" and ok: "sv_ok k w dir t e"
  shows "if sv_bad st e then sv_step b st e = None else \<exists>st'. sv_step b st e = Some st' \<and> sv_inv b k w dir t st'"
proof -
  obtain env ev where e: "e = (env, ev)" by fastforce
  have env: "se_ok k w env" using ok e by (simp add: sv_ok_def)
  have i: "b \<le> 24" "0 < k" "ui_wf k dir (sc_userInfo st)" "conns_ok k w (sc_connections st)" "ids_inv b t (conn_ids (sc_connections st)) (sc_ids st)"
    using inv by (simp_all add: sv_inv_def)
  have ev: "ss_event_ok k w (env, v)" if "case v of NewJob x \<Rightarrow> False | SwitchTo c \<Rightarrow> False | _ \<Rightarrow> True" for v
    using that env by (auto simp: ss_event_ok_def split: session_event.splits)
  show ?thesis
  proof (cases ev)
    case (Accept ip place)
    have "conns_ok k w (take n (sc_connections st)) \<and> conns_ok k w (drop n (sc_connections st))" for n
      using i(4) by (auto simp: conns_ok_def dest: in_set_takeD in_set_dropD)
    then show ?thesis using ids_inv_alloc [OF i(5,1), of env ip place] inv e Accept session_new_ok [OF env]
      by (auto simp: sv_bad_def sv_inv_def)
  next
    case (Read j bytes)
    then show ?thesis using conn_event_guarded [OF inv ev, of "Received bytes" j] e by (simp add: sv_bad_def readCallback_def)
  next
    case (Close j)
    then show ?thesis using conn_event_guarded [OF inv ev, of Disconnected j] e by (simp add: sv_bad_def ss_bad_def removeConnection_def)
  next
    case (CheckResult j n)
    then show ?thesis using conn_event_guarded [OF inv ev, of "CheckDone n" j] e by (simp add: sv_bad_def ss_bad_def)
  next
    case (NotifyAll x)
    then show ?thesis using sendMiningNotifyToAll_ok [OF inv env, of x] ok e by (simp add: sv_bad_def sv_ok_def)
  next
    case (UserEvent u)
    then show ?thesis using ui_step_wf [of k dir "sc_userInfo st" u] i ok inv e by (auto simp: sv_bad_def sv_ok_def sv_inv_def)
  next
    case (SwitchTask n c)
    then have "c < k" using ok e by (simp add: sv_ok_def)
    then show ?thesis using switch_loop_ok [OF i(3) _ i(4), of c env n] SwitchTask after_switch_wf [OF i(3)] inv e
      by (auto simp: sv_bad_def sv_switchChain_def sv_inv_def)
  next
    case (AutoSwitchTask c)
    then show ?thesis using sv_autoSwitchChain_ok [OF inv env, of c] ok e by (simp add: sv_bad_def sv_ok_def)
  next
    case (AutoRegTask n)
    then show ?thesis using auto_reg_loop_ok [OF env i(4,3), of n] inv e by (auto simp: sv_bad_def sv_autoRegCallback_def sv_inv_def)
  next
    case DisconnectTimer
    then show ?thesis using disconnectCallback_ok [of b k w dir st env] inv ok e by (auto simp: sv_bad_def sv_ok_def)
  qed
qed

interpretation sve: guarded_handler "sv_step b" "sv_inv b k w dir t" "sv_ok k w dir t" sv_bad
  by unfold_locales (rule sv_step_guarded)

text \<open>A server with no connection, after its setup.\<close>

definition server_new :: "u8 \<Rightarrow> u32 \<Rightarrow> user_info \<Rightarrow> server_state" where
  "server_new serverId interval ui =
     \<lparr>sc_connections = [], sc_userInfo = ui, sc_ids = setAllocInterval interval (sid_new serverId), sc_closed = []\<rparr>"

lemma server_new_inv: "b \<le> 24 \<Longrightarrow> 0 < k \<Longrightarrow> ui_wf k dir ui \<Longrightarrow> sv_inv b k w dir t (server_new v n ui)"
  by (simp add: sv_inv_def server_new_def ids_inv_def sid_inv_def sid_live_def sid_new_def setAllocInterval_def)

text \<open>
  C2. Whatever connections come and go and whatever they send, no two connections of a server ever have
  the same session id, which is the first extra nonce of their miners, so no two miners search the
  same space; every session satisfies what is shown of a single one; and unless the server is stopping the ids
  in use are exactly those of the connections, so that none is lost.
\<close>

theorem session_ids_unique:
  assumes "b \<le> 24" "0 < k" "ui_wf k dir ui" "list_all (sv_ok k w dir t) es" "run (sv_step b) (server_new v n ui) es = Some st"
  shows "distinct (conn_ids (sc_connections st)) \<and> (\<forall>c\<in>set (sc_connections st). session_sound (snd c)) \<and>
     (\<not> t \<longrightarrow> sid_live b (sc_ids st) = set (conn_ids (sc_connections st)))"
proof -
  have i: "sv_inv b k w dir t st" by (rule sve.run_keeps [OF server_new_inv [OF assms(1-3)] assms(4,5)])
  then have "\<forall>c\<in>set (sc_connections st). session_sound (snd c)" using ss_inv_sound by (auto simp: sv_inv_def conns_ok_def)
  then show ?thesis using i by (auto simp: sv_inv_def ids_inv_def)
qed

text \<open>
  C8. A new job is sent exactly once to each living session of its chain, in two passes when it is clean and
  there are grand pool clients; the sessions of other chains are left alone, the dead ones are removed and
  their ids given back.
\<close>

theorem new_job_sent_once:
  assumes "b \<le> 24" "0 < k" "ui_wf k dir ui" "list_all (sv_ok k w dir t) es" "run (sv_step b) (server_new v n ui) es = Some st"
    "se_ok k w env" "jx_chainId x < k"
  shows "\<exists>st'. sendMiningNotifyToAll b env x st = Some st' \<and>
     sc_connections st' = map (\<lambda>(buf, s). (buf, if chain_of s = jx_chainId x then the (ss_sendMiningNotify env (Some x) False s) else s))
       (filter (\<lambda>(_, s). \<not> ss_isDead s) (sc_connections st)) \<and>
     sid_live b (sc_ids st') = sid_live b (sc_ids st) - {ss_sessionId s |s. s \<in> snd ` set (sc_connections st) \<and> ss_isDead s}"
proof -
  have i: "sv_inv b k w dir t st" by (rule sve.run_keeps [OF server_new_inv [OF assms(1-3)] assms(4,5)])
  then have c: "conns_ok k w (sc_connections st)" "ids_inv b t (conn_ids (sc_connections st)) (sc_ids st)" by (simp_all add: sv_inv_def)
  let ?d = "conn_ids (filter (\<lambda>c. \<not> alive c) (sc_connections st))"
  have "distinct ?d" "set ?d \<subseteq> sid_live b (sc_ids st)" "sid_inv b (sc_ids st)" using c(2) by (auto simp: ids_inv_def conn_ids_def distinct_map_filter)
  then have f: "sid_live b (fold (freeSessionId b) ?d (sc_ids st)) = sid_live b (sc_ids st) - set ?d"
    using id_allocator.free_list [OF sid_is_allocator [OF assms(1)], of "sc_ids st" ?d] by simp
  have d: "set ?d = {ss_sessionId s |s. s \<in> snd ` set (sc_connections st) \<and> ss_isDead s}" by (auto simp: conn_ids_def alive_def)
  have e: "apsnd (notified env x) = (\<lambda>(buf, s). (buf, if chain_of s = jx_chainId x then the (ss_sendMiningNotify env (Some x) False s) else s))"
    "alive = (\<lambda>(_, s). \<not> ss_isDead s)" by (auto simp: fun_eq_iff notified_def alive_def)
  obtain gone where "sendMiningNotifyToAll b env x st = Some (st\<lparr>sc_connections := map (apsnd (notified env x)) (filter alive (sc_connections st)),
      sc_ids := fold (freeSessionId b) ?d (sc_ids st), sc_closed := gone\<rparr>)"
    using sendMiningNotifyToAll_eq [OF c(1) assms(6,7), of b] by blast
  moreover have "sid_live b (fold (freeSessionId b) ?d (sc_ids st)) =
      sid_live b (sc_ids st) - {ss_sessionId s |s. s \<in> snd ` set (sc_connections st) \<and> ss_isDead s}" using f d by simp
  ultimately show ?thesis unfolding e by (intro exI conjI) (assumption | simp)+
qed

text \<open>Two connections are accepted and one of them ends; the job of the sample repository arrives.\<close>

definition events0 :: "diff_controller \<Rightarrow> (session_env \<times> server_event) list" where
  "events0 d = [(senv0 d, Accept 7 0), (senv0 d, Accept 8 0), (senv0 d, Close 1)]"

definition job_ex0 :: "sjob_bitcoin job_ex" where
  "job_ex0 = \<lparr>jx_state = 0, jx_chainId = 0, jx_isClean = True, jx_sjob = btc_job 7 100\<rparr>"

lemma events0_run:
  assumes "dc_new 64 1024 2 10 60 = Some d"
  shows "\<exists>st. run (sv_step 24) (server_new 5 0 users0) (events0 d) = Some st" "list_all (sv_ok 2 60 ''/reg/'' False) (events0 d)" "ui_wf 2 ''/reg/'' users0"
proof -
  show ui: "ui_wf 2 ''/reg/'' users0" by (simp add: ui_wf_def users0_def uc_wf_def)
  show ok: "list_all (sv_ok 2 60 ''/reg/'' False) (events0 d)" using senv0_ok [OF assms] by (simp add: events0_def sv_ok_def)
  have "run (sv_step 24) (server_new 5 0 users0) (events0 d) \<noteq> None"
    unfolding sve.run_fails [OF server_new_inv [OF _ _ ui, of 24] ok, simplified]
    by (auto simp: events0_def sv_bad_def Cons_eq_append_conv)
  then show "\<exists>st. run (sv_step 24) (server_new 5 0 users0) (events0 d) = Some st" by simp
qed

theorem session_ids_unique_witness:
  "\<exists>d st. dc_new 64 1024 2 10 60 = Some d \<and> run (sv_step 24) (server_new 5 0 users0) (events0 d) = Some st \<and>
     distinct (conn_ids (sc_connections st)) \<and> sid_live 24 (sc_ids st) = set (conn_ids (sc_connections st))"
proof -
  obtain d where d: "dc_new 64 1024 2 10 60 = Some d" by (simp add: dc_new_def sw_new_def)
  obtain st where st: "run (sv_step 24) (server_new 5 0 users0) (events0 d) = Some st" using events0_run(1) [OF d] by blast
  show ?thesis using d st session_ids_unique [OF _ _ events0_run(3) [OF d] events0_run(2) [OF d] st] by auto
qed

theorem new_job_sent_once_witness:
  "\<exists>d st st'. dc_new 64 1024 2 10 60 = Some d \<and> run (sv_step 24) (server_new 5 0 users0) (events0 d) = Some st \<and>
     sendMiningNotifyToAll 24 (senv0 d) job_ex0 st = Some st' \<and>
     length (sc_connections st') = length (filter (\<lambda>(_, s). \<not> ss_isDead s) (sc_connections st)) \<and>
     sid_live 24 (sc_ids st') = sid_live 24 (sc_ids st) - {ss_sessionId s |s. s \<in> snd ` set (sc_connections st) \<and> ss_isDead s}"
proof -
  obtain d where d: "dc_new 64 1024 2 10 60 = Some d" by (simp add: dc_new_def sw_new_def)
  obtain st where st: "run (sv_step 24) (server_new 5 0 users0) (events0 d) = Some st" using events0_run(1) [OF d] by blast
  have "jx_chainId job_ex0 < 2" by (simp add: job_ex0_def)
  then obtain st' where "sendMiningNotifyToAll 24 (senv0 d) job_ex0 st = Some st'"
    "length (sc_connections st') = length (filter (\<lambda>(_, s). \<not> ss_isDead s) (sc_connections st))"
    "sid_live 24 (sc_ids st') = sid_live 24 (sc_ids st) - {ss_sessionId s |s. s \<in> snd ` set (sc_connections st) \<and> ss_isDead s}"
    using new_job_sent_once [OF _ _ events0_run(3) [OF d] events0_run(2) [OF d] st senv0_ok [OF d], of job_ex0] by auto
  then show ?thesis using d st by blast
qed

end
