(* ===== verification/Spec2Isabelle.thy ===== *)
theory Spec2Isabelle
  imports Stats_Window Diff_Controller Stratum_Server
begin

text \<open>
  This development verifies btcpool, a mining pool written in C++ (\<open>src/src\<close>, with shared code in
  \<open>src/tools/common\<close> and a JSON reader in \<open>src/3rdparty\<close>).

  \<^bold>\<open>The program.\<close> Job makers publish jobs, a stratum server (\<open>sserver\<close>) keeps them in a job
  repository per chain and sends them to the sessions of the miners. A session reads lines and binary
  messages from its socket, names its worker, and adjusts the difficulty of each miner to its share
  rate. A submitted share is checked against its job and, if it reaches the network target, sent on
  as a solved block. Shares are written to Kafka, and other programs count them into hourly and daily
  statistics. All of it rests on helpers for hex texts, 256-bit numbers, difficulties and Merkle trees.

  \<^bold>\<open>How it is modelled.\<close> A class or struct is a record, a method a function on it, an enumeration a
  datatype or its numbers. Machine integers are words (\<open>u8\<close> to \<open>u64\<close>); plain \<open>int\<close> and \<open>nat\<close> stand for
  numbers whose bounds the code cannot reach. A \<open>double\<close> is a rational rounded to 53 bits after every
  operation (theory \<open>Float64\<close>). The result \<^term>\<open>None\<close> of an operation means that it does not return
  normally: undefined behaviour, a failed assertion, an exception nobody catches, or a loop without
  end. The clock and code outside the repository (the hash functions, protobuf, the Bitcoin library)
  are arguments. What is sent, logged to Kafka or called back is a list of effects. A \<open>std::map\<close> is a
  sorted association list (\<open>Ord_Map\<close>); a pointer into a text is the rest of the text.

  \<^bold>\<open>The theories.\<close>

  \<^item> \<open>Pool_Prelude\<close>: machine types, vectors, runs of event handlers and the locales \<open>event_handler\<close>,
    \<open>guarded_handler\<close> (it fails exactly on bad events) and \<open>counting_handler\<close> for their invariants. \<open>Float64\<close>: doubles. \<open>Ord_Map\<close>: the locale \<open>std_map\<close> and
    sorted association lists as its model. \<open>Pool_Common\<close>, \<open>Pool_Utils\<close>: Common.h, Common.cc, Utils.h,
    Utils.cc (difficulties as powers of two, byte orders, hex texts, name ranks, \<open>SeqMap\<close>, \<open>IdGenerator\<close>).
  \<^item> \<open>Stats_Window\<close> (Statistics.inl): the ring of a sliding window holds exactly the values of the last
    indices. \<open>Share_Stats\<close>, \<open>Top_Elements\<close> (Statistics.h, Statistics.inl): a day of shares adds up, a
    duplicate share is refused exactly while its height is tracked.
  \<^item> \<open>Diff_Controller\<close> (DiffController.cc): the difficulty stays in its limits, both loops of the
    recalculation end, and a recalculation keeps the work of the window.
  \<^item> \<open>Session_Id\<close> (StratumServer.cc): the locale \<open>id_allocator\<close>; ids handed out are free and unique.
  \<^item> \<open>Job_Repository\<close> (StratumServer.cc and the \<open>broadcastStratumJob\<close> of every chain): the locale
    \<open>height_policy\<close>; which jobs are found, stale, sent and expired.
  \<^item> \<open>Arith_Uint256\<close>, \<open>Difficulty\<close>, \<open>Str_Encodings\<close> (arith_uint256, uint256, utilstrencodings,
    Difficulty.h): the limb loops implement arithmetic modulo \<open>2^256\<close>, the compact form, difficulties and
    targets, and the text encodings come back as they went out.
  \<^item> \<open>Json_Node\<close> (utilities_js.hpp): the JSON reader as a loop over the rest of the text, with the stale
    text positions it keeps; printing and reading round trip.
  \<^item> \<open>Stratum_Worker\<close> (Stratum.cc), \<open>Stratum_Framing\<close> (StratumSession.cc): worker names and ids; the
    messages a session sees do not depend on how the input arrives.
  \<^item> \<open>Merkle\<close> (StratumBitcoin.cc, BitcoinUtils.cc): the branch of the coinbase and the constant-space
    calculator lead to the root of the tree.
  \<^item> \<open>Share_Bitcoin\<close> (StratumBitcoin.h, shares.hpp, Network.h): share messages, their binary layouts, the
    check sum, the score. \<open>Check_Share\<close> (StratumServerBitcoin.cc): the texts of a job, the coinbase and
    the header of a share, and the verdict on it.
  \<^item> \<open>Stratum_Miner\<close> (StratumMiner, StratumMinerBitcoin): one miner with its difficulty and the submissions in
    both protocols, from the request to the answer after the check. Every submission is answered once,
    no share is checked twice. \<open>Stratum_Dispatcher\<close> (StratumMessageDispatcher): the miners behind a session, one
    or those of an agent; an agent reads back the difficulties it is sent.
  \<^item> \<open>User_Info\<close> (UserInfo): users, their ids and chains, and registrations, which stay well-formed.
  \<^item> \<open>Stratum_Session\<close> (StratumSession, StratumSessionBitcoin): the state of a session and its requests,
    notifications, chain switches and answers; what it sends is recorded in the state, the checks it waits for
    are a list, and local jobs have numbers for addresses. \<open>Session_Safety\<close>: its invariant, and that from the
    first byte on only two requests make a handler throw.
  \<^item> \<open>Stratum_Server\<close> (StratumServer.cc): the connections, composed of the sessions, the user information and
    the locale \<open>id_allocator\<close>. Session ids are unique and none is lost; a job reaches each session of its chain once.
  \<^item> This theory: properties that span components.

  \<^bold>\<open>Bounds.\<close> No fuel is used: every loop is a function with a termination proof, or a partial function
  with values in \<^typ>\<open>'a option\<close> whose return is proved. The Merkle calculator is shown to stay inside
  its 32 entries for up to \<open>2^31\<close> leaves, more than a block can hold. Heights, counts of shares per
  window and times are unbounded numbers where 64 bits cannot overflow in practice; counters that the
  code keeps at a width (difficulties, share sums, ids, nonces, times in headers) are words.

  \<^bold>\<open>Not modelled.\<close> Kafka, ZooKeeper, MySQL, Redis, HTTP and TLS are input and output through client
  libraries. The job makers, block makers and watchers call nodes and other pools and assemble blocks
  with the libraries of the coins, which are not part of the repository. The sessions and checks of the
  chains other than Bitcoin rely on such libraries too; only their job broadcasts are modelled. The
  Zcash and stratum switcher builds are left out, as are log texts and command line programs. Of the
  server its setup and its management commands, which read configurations and Kafka, are left out; of
  the sessions the anonymous authorization that only CKB sessions use. The threads of the program
  appear as sequences of events in any order; data races between them are not modelled.
\<close>

section \<open>From a solved share to a block\<close>

text \<open>
  C7. A share for a live job whose branch was made from the job's transactions, in time, with allowed
  version bits and a hash that does not exceed the network target, is always sent on as a solved
  share, whatever the target of the session: with the coinbase of the share, the serialized header,
  and a Merkle root in this header that is the root of the tree over the coinbase and the
  transactions. The jobs of this height become stale unless the job comes from another pool.
\<close>

theorem solved_block_sent:
  assumes "\<And>h. length (cl_serialize lib h) \<le> 80" "\<And>h. num256 (cl_headerHash lib h) \<noteq> 0"
    and "getStratumJobEx (shb_jobid share) repo = Some x" "sjob = jx_sjob x" "cb = generateCoinbaseTx sjob xn yn grand eg"
    and "header = generateBlockHeader lib sjob cb nTime nonce vm"
    and "sb_merkleBranch sjob = makeMerkleBranch (\<lambda>a b. cl_Hash lib (a @ b)) txs"
    and "\<not> isStale x" "in_time sjob nTime" "mask_allowed srv vm"
    and "num256 (cl_headerHash lib header) \<le> num256 (sb_networkTarget sjob)"
  shows "\<exists>st bits effs fb. checkShare lib srv repo share xn yn nTime nonce vm target name grand eg = Some (st, bits, effs) \<and>
    SolvedShare fb cb \<in> set effs \<and> fb_jobId fb = shb_jobid share \<and> fb_height fb = sj_height sjob \<and>
    take (length (cl_serialize lib header)) (fb_headerData fb) = cl_serialize lib header \<and>
    bh_hashMerkleRoot header = merkle_root (\<lambda>a b. cl_Hash lib (a @ b)) z (cl_Hash lib cb # txs) \<and>
    (sb_proxyJobDifficulty sjob = 0 \<longrightarrow> MarkStale (sj_height sjob) \<in> set effs)"
proof -
  have n: "num256 (sb_networkTarget sjob) \<noteq> 0" using assms(2) [of header] assms(11) by linarith
  have u: "early_status srv (isStale x) sjob nTime vm = UNKNOWN_STATUS" using assms(8-10) by (simp add: early_status_unknown)
  then have s: "solves_block srv (early_status srv (isStale x) sjob nTime vm) sjob (cl_headerHash lib header)"
    using assms(11) by (simp add: solves_block_def)
  obtain bits headerData merged where r:
    "checkShare lib srv repo share xn yn nTime nonce vm target name grand eg =
       Some (if early_status srv (isStale x) sjob nTime vm \<noteq> UNKNOWN_STATUS then early_status srv (isStale x) sjob nTime vm
             else if \<not> cs_isEnableSimulator srv \<and> num256 target < num256 (cl_headerHash lib header) then LOW_DIFFICULTY else ACCEPT, bits,
             (if solves_block srv (early_status srv (isStale x) sjob nTime vm) sjob (cl_headerHash lib header)
              then SolvedShare (found_block_data srv share sjob name headerData) cb #
                (if sb_proxyJobDifficulty sjob > 0 then [] else [MarkStale (sj_height sjob)]) else []) @ merged)"
    "take (length (cl_serialize lib header)) headerData = cl_serialize lib header"
    by (rule checkShare_found [OF assms(3-6) refl assms(1) assms(2) n])
  have "bh_hashMerkleRoot header = foldl (\<lambda>a b. cl_Hash lib (a @ b)) (cl_Hash lib cb) (makeMerkleBranch (\<lambda>a b. cl_Hash lib (a @ b)) txs)"
    by (simp add: assms(6,7) generateBlockHeader_def ComputeCoinbaseMerkleRoot_def)
  also have "\<dots> = merkle_root (\<lambda>a b. cl_Hash lib (a @ b)) z (cl_Hash lib cb # txs)"
    using branch_loop_root [of txs "\<lambda>a b. cl_Hash lib (a @ b)" "cl_Hash lib cb" "[]" z]
    by (cases "txs = []") (simp_all add: makeMerkleBranch_def merkle_root.simps)
  finally have root: "bh_hashMerkleRoot header = merkle_root (\<lambda>a b. cl_Hash lib (a @ b)) z (cl_Hash lib cb # txs)" .
  show ?thesis
    by (intro exI [of _ "found_block_data srv share sjob name headerData"] exI conjI, rule r(1))
      (simp_all only: s if_True, simp_all add: found_block_data_def r(2) root)
qed

theorem solved_block_sent_witness:
  "\<exists>st bits effs fb cb. checkShare lib0 srv0 (repo0\<lparr>exJobs := [(7, \<lparr>jx_state = 0, jx_chainId = 0, jx_isClean = True,
       jx_sjob = (btc_job 7 100)\<lparr>sb_networkTarget := 6 # replicate 31 0\<rparr>\<rparr>)]\<rparr>) share0 1 ''00'' 0 3 0 (4 # replicate 31 0) ''u.w'' False 0 =
     Some (st, bits, effs) \<and> SolvedShare fb cb \<in> set effs"
proof -
  let ?x = "\<lparr>jx_state = 0, jx_chainId = 0, jx_isClean = True, jx_sjob = (btc_job 7 100)\<lparr>sb_networkTarget := 6 # replicate 31 0\<rparr>\<rparr>"
  have f: "getStratumJobEx (shb_jobid share0) (repo0\<lparr>exJobs := [(7, ?x)]\<rparr>) = Some ?x"
    by (simp add: getStratumJobEx_def share0_def om_find_def)
  have l: "length (cl_serialize lib0 h) \<le> 80" "num256 (cl_headerHash lib0 h) \<noteq> 0" for h by (simp_all add: lib0_def num256_byte)
  have h: "num256 (cl_headerHash lib0 h) \<le> num256 (sb_networkTarget (jx_sjob ?x))" for h by (simp add: lib0_def num256_byte)
  have j: "sb_merkleBranch (jx_sjob ?x) = makeMerkleBranch (\<lambda>a b. cl_Hash lib0 (a @ b)) []" "\<not> isStale ?x" "in_time (jx_sjob ?x) 0"
    "mask_allowed srv0 0"
    by (simp_all add: btc_job_def makeMerkleBranch_def isStale_def in_time_def mask_allowed_def)
  let ?cb = "generateCoinbaseTx (jx_sjob ?x) 1 ''00'' False 0"
  note w = solved_block_sent [of lib0 share0 "repo0\<lparr>exJobs := [(7, ?x)]\<rparr>" ?x "jx_sjob ?x" ?cb 1 "''00''" False 0
    "generateBlockHeader lib0 (jx_sjob ?x) ?cb 0 3 0" 0 3 0 "[]" srv0 "4 # replicate 31 0" "''u.w''" "[]",
    OF l f refl refl refl j(1-4) h]
  from w show ?thesis by (elim exE conjE) (intro exI conjI, assumption+)
qed

end
